(* ===== verification/Prelude.thy ===== *)
theory Prelude
  imports Main "HOL-Library.Word" "HOL-Library.Multiset" "HOL-Library.List_Lexorder"
    "HOL-Library.Product_Lexorder"
begin

text \<open>
  Shared vocabulary of the development: the machine integers of the source, the result type,
  Rust's integer operations on them (checked, saturating), stable sorting by a comparator and
  big-endian byte strings.

  \<^item> \<open>u8\<close>, \<open>u32\<close>, \<open>u64\<close>, \<open>u128\<close> and \<open>U256\<close> are words of that width. Plain \<open>+\<close>, \<open>-\<close> and
    \<open>*\<close> on \<open>U256\<close> wrap, as the operators of the source's 256-bit integer type do.
  \<^item> \<open>usize\<close> values are lengths and indices of lists and are modelled as \<open>nat\<close>.
  \<^item> \<open>FixedBytes<32>\<close> and \<open>Address\<close> are the 256-bit and 160-bit words their bytes spell in
    big-endian order; \<open>Bytes\<close> and byte slices are lists of \<open>u8\<close>.
  \<^item> A fallible operation returns \<open>'e + 'a\<close>, with \<open>Inl\<close> the error.
\<close>

named_theorems word_nat_simps
  \<open>reading word arithmetic through unat when nothing overflows\<close>

section \<open>Machine integers\<close>

type_synonym u8 = "8 word"
type_synonym u32 = "32 word"
type_synonym u64 = "64 word"
type_synonym u128 = "128 word"
type_synonym u256 = "256 word"
type_synonym b256 = "256 word"
type_synonym address = "160 word"
type_synonym bytes = "u8 list"

definition checked_add :: "'a::len word \<Rightarrow> 'a word \<Rightarrow> 'a word option" where
  "checked_add a b = (if unat a + unat b < 2 ^ LENGTH('a) then Some (a + b) else None)"

definition saturating_add :: "'a::len word \<Rightarrow> 'a word \<Rightarrow> 'a word" where
  "saturating_add a b = (if unat a + unat b < 2 ^ LENGTH('a) then a + b else - 1)"

definition saturating_sub :: "'a::len word \<Rightarrow> 'a word \<Rightarrow> 'a word" where
  "saturating_sub a b = (if b \<le> a then a - b else 0)"

definition saturating_mul :: "'a::len word \<Rightarrow> 'a word \<Rightarrow> 'a word" where
  "saturating_mul a b = (if unat a * unat b < 2 ^ LENGTH('a) then a * b else - 1)"

lemma unat_minus_one_full: "unat (- 1 :: 'a::len word) = 2 ^ LENGTH('a) - 1"
  by (simp add: unat_eq_nat_uint uint_word_ariths zmod_minus1 nat_diff_distrib nat_power_eq)

lemma unat_saturating_add:
  "unat (saturating_add a (b :: 'a::len word)) = min (unat a + unat b) (2 ^ LENGTH('a) - 1)"
proof (cases "unat a + unat b < 2 ^ LENGTH('a)")
  case True
  then show ?thesis
    by (auto simp: saturating_add_def unat_word_ariths min_def)
next
  case False
  then have "2 ^ LENGTH('a) - 1 \<le> unat a + unat b" by simp
  with False show ?thesis
    by (simp add: saturating_add_def min_absorb2 unat_minus_one_full)
qed

lemma unat_saturating_sub [word_nat_simps]:
  "unat (saturating_sub a (b :: 'a::len word)) = unat a - unat b"
  by (auto simp: saturating_sub_def unat_sub word_le_nat_alt)

lemma unat_saturating_mul:
  "unat (saturating_mul a (b :: 'a::len word)) = min (unat a * unat b) (2 ^ LENGTH('a) - 1)"
proof (cases "unat a * unat b < 2 ^ LENGTH('a)")
  case True
  then show ?thesis
    by (auto simp: saturating_mul_def unat_word_ariths min_def)
next
  case False
  then have "2 ^ LENGTH('a) - 1 \<le> unat a * unat b" by simp
  with False show ?thesis
    by (simp add: saturating_mul_def min_absorb2 unat_minus_one_full)
qed

lemma unat_add_no_overflow [word_nat_simps]:
  "unat a + unat b < 2 ^ LENGTH('a) \<Longrightarrow> unat (a + b) = unat a + unat (b :: 'a::len word)"
  by (simp add: unat_word_ariths)


lemma unat_eqI: "unat (a :: 'a::len word) = unat b \<Longrightarrow> a = b"
  by (rule unsigned_word_eqI)

lemma unat_ucast_take: "unat (ucast (w :: 'a::len word) :: 'b::len word) = take_bit LENGTH('b) (unat w)"
  by (simp add: unsigned_ucast_eq)

section \<open>Results\<close>

text \<open>Rust's \<open>?\<close> operator: pass an error on, continue with the value.\<close>

definition bind_result :: "'e + 'a \<Rightarrow> ('a \<Rightarrow> 'e + 'b) \<Rightarrow> 'e + 'b" where
  "bind_result r k = (case r of Inl e \<Rightarrow> Inl e | Inr a \<Rightarrow> k a)"

lemma bind_result_simps [simp]:
  "bind_result (Inl e) k = Inl e" "bind_result (Inr a) k = k a"
  by (simp_all add: bind_result_def)

lemma bind_result_Inr [simp]:
  "bind_result r k = Inr b \<longleftrightarrow> (\<exists>a. r = Inr a \<and> k a = Inr b)"
  by (cases r) auto

definition ok_or :: "'a option \<Rightarrow> 'e \<Rightarrow> 'e + 'a" where
  "ok_or x e = (case x of None \<Rightarrow> Inl e | Some a \<Rightarrow> Inr a)"

lemma ok_or_simps [simp]: "ok_or None e = Inl e" "ok_or (Some a) e = Inr a"
  by (simp_all add: ok_or_def)

text \<open>A loop over a list whose body can fail.\<close>

fun fold_result :: "('a \<Rightarrow> 's \<Rightarrow> 'e + 's) \<Rightarrow> 'a list \<Rightarrow> 's \<Rightarrow> 'e + 's" where
  "fold_result f [] s = Inr s"
| "fold_result f (x # xs) s = bind_result (f x s) (fold_result f xs)"

section \<open>Comparators and stable sorting\<close>

datatype ordering = Less | Equal | Greater

definition cmp :: "'a::linorder \<Rightarrow> 'a \<Rightarrow> ordering" where
  "cmp a b = (if a < b then Less else if a = b then Equal else Greater)"

definition then_with :: "ordering \<Rightarrow> ordering \<Rightarrow> ordering" where
  "then_with o1 o2 = (if o1 = Equal then o2 else o1)"

text \<open>Rust's \<open>sort_by\<close> is a stable sort; equal elements keep their order.\<close>

fun insort_by :: "('a \<Rightarrow> 'a \<Rightarrow> ordering) \<Rightarrow> 'a \<Rightarrow> 'a list \<Rightarrow> 'a list" where
  "insort_by c x [] = [x]"
| "insort_by c x (y # ys) = (if c x y \<noteq> Greater then x # y # ys else y # insort_by c x ys)"

fun sort_by :: "('a \<Rightarrow> 'a \<Rightarrow> ordering) \<Rightarrow> 'a list \<Rightarrow> 'a list" where
  "sort_by c [] = []"
| "sort_by c (x # xs) = insort_by c x (sort_by c xs)"

lemma set_map_filter: "set (List.map_filter f xs) = {y. \<exists>x \<in> set xs. f x = Some y}"
  by (force simp: List.map_filter_def)

lemma mset_insort_by [simp]: "mset (insort_by c x xs) = add_mset x (mset xs)"
  by (induction xs) auto

lemma mset_sort_by [simp]: "mset (sort_by c xs) = mset xs"
  by (induction xs) auto

lemma set_sort_by [simp]: "set (sort_by c xs) = set xs"
  by (metis mset_sort_by set_mset_mset)

lemma length_sort_by [simp]: "length (sort_by c xs) = length xs"
  by (metis mset_sort_by size_mset)

lemma sort_by_Nil_iff [simp]: "sort_by c xs = [] \<longleftrightarrow> xs = []"
  by (metis length_0_conv length_sort_by)

lemma distinct_map_sort_by [simp]: "distinct (map f (sort_by c xs)) = distinct (map f xs)"
  by (metis mset_map mset_sort_by mset_eq_imp_distinct_iff)

text \<open>The interface of a comparator, and what sorting by it promises.\<close>

locale total_cmp =
  fixes c :: "'a \<Rightarrow> 'a \<Rightarrow> ordering"
  assumes cmp_flip: "c x y = Greater \<longleftrightarrow> c y x = Less"
    and cmp_le_trans: "c x y \<noteq> Greater \<Longrightarrow> c y z \<noteq> Greater \<Longrightarrow> c x z \<noteq> Greater"
begin

lemma le_total: "c x y \<noteq> Greater \<or> c y x \<noteq> Greater"
  using cmp_flip by fastforce

lemma le_refl: "c x x \<noteq> Greater"
  using le_total by blast

lemma set_insort: "set (insort_by c x xs) = insert x (set xs)"
  by (metis mset_insort_by set_mset_add_mset_insert set_mset_mset)

lemma sorted_insort:
  "sorted_wrt (\<lambda>a b. c a b \<noteq> Greater) xs \<Longrightarrow> sorted_wrt (\<lambda>a b. c a b \<noteq> Greater) (insort_by c x xs)"
proof (induction xs)
  case Nil
  then show ?case by simp
next
  case (Cons y ys)
  show ?case
  proof (cases "c x y \<noteq> Greater")
    case True
    with Cons.prems show ?thesis using cmp_le_trans [of x y] by auto
  next
    case False
    then have "c y x \<noteq> Greater" using le_total by blast
    with False Cons show ?thesis by (auto simp: set_insort)
  qed
qed

lemma sorted_sort_by: "sorted_wrt (\<lambda>a b. c a b \<noteq> Greater) (sort_by c xs)"
  by (induction xs) (auto intro: sorted_insort)

lemma hd_sort_by_le: "y \<in> set xs \<Longrightarrow> c (hd (sort_by c xs)) y \<noteq> Greater"
proof -
  assume y: "y \<in> set xs"
  then have "sort_by c xs \<noteq> []" by auto
  then obtain z zs where zs: "sort_by c xs = z # zs"
    by (cases "sort_by c xs") auto
  have "y \<in> set (z # zs)" using y zs by (metis set_sort_by)
  then show ?thesis
    using sorted_sort_by [of xs] zs le_refl by auto
qed

lemma insort_by_min: "\<forall>y \<in> set xs. c x y \<noteq> Greater \<Longrightarrow> insort_by c x xs = x # xs"
  by (cases xs) auto

lemma sort_by_sorted: "sorted_wrt (\<lambda>a b. c a b \<noteq> Greater) xs \<Longrightarrow> sort_by c xs = xs"
  by (induction xs) (auto simp: insort_by_min)

end

lemma cmp_simps [simp]:
  "cmp a b = Less \<longleftrightarrow> a < b" "cmp a b = Equal \<longleftrightarrow> a = b" "cmp a b = Greater \<longleftrightarrow> b < a"
  by (auto simp: cmp_def)

lemma then_with_Less [simp]:
  "then_with o1 o2 = Less \<longleftrightarrow> o1 = Less \<or> o1 = Equal \<and> o2 = Less"
  by (cases o1) (auto simp: then_with_def)

lemma then_with_Greater [simp]:
  "then_with o1 o2 = Greater \<longleftrightarrow> o1 = Greater \<or> o1 = Equal \<and> o2 = Greater"
  by (cases o1) (auto simp: then_with_def)

lemma total_cmp_key: "total_cmp (\<lambda>a b. cmp (f a) (f b))"
  by unfold_locales auto

lemma total_cmp_key_rev: "total_cmp (\<lambda>a b. cmp (f b) (f a))"
  by unfold_locales auto

lemma total_cmp_then:
  assumes "total_cmp c" "total_cmp d"
  shows "total_cmp (\<lambda>a b. then_with (c a b) (d a b))"
proof
  note flip = total_cmp.cmp_flip [OF assms(1)] and flip' = total_cmp.cmp_flip [OF assms(2)]
  note trans = total_cmp.cmp_le_trans [OF assms(1)] and trans' = total_cmp.cmp_le_trans [OF assms(2)]
  have eq: "c x y = Equal \<longleftrightarrow> c x y \<noteq> Greater \<and> c y x \<noteq> Greater" for x y
    using flip by (metis ordering.exhaust ordering.distinct(1,3,5))
  fix x y z
  show "then_with (c x y) (d x y) = Greater \<longleftrightarrow> then_with (c y x) (d y x) = Less"
    using flip flip' eq by (metis then_with_Greater then_with_Less)
  assume xy: "then_with (c x y) (d x y) \<noteq> Greater" and yz: "then_with (c y z) (d y z) \<noteq> Greater"
  then have le: "c x y \<noteq> Greater" "c y z \<noteq> Greater" by auto
  then have xz: "c x z \<noteq> Greater" by (rule trans)
  show "then_with (c x z) (d x z) \<noteq> Greater"
  proof
    assume "then_with (c x z) (d x z) = Greater"
    then have e: "c x z = Equal" and g: "d x z = Greater" using xz by auto
    then have "c x y = Equal" "c y z = Equal"
      using le trans [of y z x] trans [of z x y] eq by blast+
    with xy yz have "d x y \<noteq> Greater" "d y z \<noteq> Greater" by auto
    then have "d x z \<noteq> Greater" by (rule trans')
    with g show False by simp
  qed
qed

interpretation key_cmp: total_cmp "\<lambda>a b. cmp (f a) (f b)" for f
  by (rule total_cmp_key)

section \<open>Big-endian byte strings\<close>

fun be_bytes :: "nat \<Rightarrow> nat \<Rightarrow> bytes" where
  "be_bytes 0 v = []"
| "be_bytes (Suc n) v = be_bytes n (v div 256) @ [word_of_nat (v mod 256)]"

definition from_be :: "bytes \<Rightarrow> nat" where
  "from_be bs = foldl (\<lambda>acc b. acc * 256 + unat b) 0 bs"

lemma length_be_bytes [simp]: "length (be_bytes n v) = n"
  by (induction n arbitrary: v) auto

lemma from_be_Nil [simp]: "from_be [] = 0"
  by (simp add: from_be_def)

lemma from_be_snoc [simp]: "from_be (bs @ [b]) = from_be bs * 256 + unat b"
  by (simp add: from_be_def)

lemma unat_byte_lt: "unat (b :: u8) < 256"
  using unsigned_less [of b] by simp

lemma from_be_bound: "from_be bs < 256 ^ length bs"
proof (induction bs rule: rev_induct)
  case Nil
  then show ?case by simp
next
  case (snoc b bs)
  then show ?case using unat_byte_lt [of b] by simp
qed

lemma from_be_be_bytes: "from_be (be_bytes n v) = v mod 256 ^ n"
proof (induction n arbitrary: v)
  case 0
  then show ?case by simp
next
  case (Suc n)
  have "unat (word_of_nat (v mod 256) :: u8) = v mod 256"
    by (simp add: unat_of_nat)
  then show ?case
    using Suc.IH [of "v div 256"] by (simp add: mod_mult2_eq mult.commute)
qed

lemma be_bytes_from_be: "be_bytes (length bs) (from_be bs) = bs"
proof (induction bs rule: rev_induct)
  case Nil
  then show ?case by simp
next
  case (snoc b bs)
  have "(from_be bs * 256 + unat b) div 256 = from_be bs"
    using unat_byte_lt [of b] by simp
  moreover have "word_of_nat ((from_be bs * 256 + unat b) mod 256) = b"
    using unat_byte_lt [of b] by simp
  ultimately show ?case using snoc by simp
qed

end
