(* ===== verification/Poseidon.thy ===== *)
theory Poseidon
  imports Prelude
begin

text \<open>
  \<open>core/src/crypto/poseidon.rs\<close> and the tree constants of \<open>core/src/tree.rs\<close>. The Poseidon
  permutation itself is a third-party function and a parameter \<open>hash\<close> of the model; the wrapper
  \<open>poseidon\<close>, which reduces every input into the scalar field first, is the source's own.
\<close>

type_synonym hash_fn = "u256 list \<Rightarrow> u256"

definition SCALAR_FIELD :: u256 where
  "SCALAR_FIELD =
     21888242871839275222246405745257275088548364400416034343698204186575808495617"

definition reduce_input :: "u256 \<Rightarrow> u256" where
  "reduce_input x = (if SCALAR_FIELD \<le> x then x mod SCALAR_FIELD else x)"

definition poseidon :: "hash_fn \<Rightarrow> u256 list \<Rightarrow> u256" where
  "poseidon hash inputs = hash (map reduce_input inputs)"

lemma SCALAR_FIELD_pos: "0 < SCALAR_FIELD"
  by (simp add: SCALAR_FIELD_def)

lemma reduce_input_less: "reduce_input x < SCALAR_FIELD"
proof (cases "SCALAR_FIELD \<le> x")
  case True
  then show ?thesis
    by (simp add: reduce_input_def word_less_nat_alt unat_mod_distrib)
       (simp add: SCALAR_FIELD_def)
next
  case False
  then show ?thesis by (simp add: reduce_input_def)
qed

lemma reduce_input_field [simp]: "x < SCALAR_FIELD \<Longrightarrow> reduce_input x = x"
  by (auto simp: reduce_input_def)

lemma reduce_input_idem [simp]: "reduce_input (reduce_input x) = reduce_input x"
  by (simp add: reduce_input_less)

section \<open>Tree geometry\<close>

definition TREE_DEPTH :: nat where
  "TREE_DEPTH = 16"

definition TREE_LEAF_COUNT :: u64 where
  "TREE_LEAF_COUNT = push_bit TREE_DEPTH 1"

definition TREE_LEAF_COUNT_U256 :: u256 where
  "TREE_LEAF_COUNT_U256 = 65536"

definition MERKLE_ZERO_VALUE :: u256 where
  "MERKLE_ZERO_VALUE =
     2051258411002736885948763699317990061539314419500486054347250703186609807356"

text \<open>
  The \<open>u32\<close> addition of the source wraps in the release profile, which has no overflow checks.
\<close>

definition normalize_tree_position :: "u32 \<Rightarrow> u64 \<Rightarrow> u32 \<times> u64" where
  "normalize_tree_position tree_number tree_position =
     (let normalized_index = tree_position mod TREE_LEAF_COUNT;
          tree_increment = (ucast (tree_position div TREE_LEAF_COUNT) :: u32)
      in (tree_number + tree_increment, normalized_index))"

lemma TREE_LEAF_COUNT_eq: "TREE_LEAF_COUNT = 65536"
  by (simp add: TREE_LEAF_COUNT_def TREE_DEPTH_def)

lemma unat_TREE_LEAF_COUNT [simp]: "unat TREE_LEAF_COUNT = 65536"
  by (simp add: TREE_LEAF_COUNT_eq)

lemma unat_mod_TREE_LEAF_COUNT [simp]: "unat (p mod TREE_LEAF_COUNT) = unat p mod 65536"
  by (simp add: unat_mod_distrib)

lemma mod_TREE_LEAF_COUNT_less: "p mod TREE_LEAF_COUNT < TREE_LEAF_COUNT"
  by (simp add: word_less_nat_alt)

lemma TREE_LEAF_COUNT_power: "(65536::nat) = 2 ^ TREE_DEPTH"
  by (simp add: TREE_DEPTH_def)

lemma normalize_local:
  assumes "p < TREE_LEAF_COUNT"
  shows "normalize_tree_position t p = (t, p)"
proof -
  from assms have less: "unat p < 65536" by (simp add: word_less_nat_alt)
  then have "unat (p mod TREE_LEAF_COUNT) = unat p" by simp
  then have "p mod TREE_LEAF_COUNT = p" by (rule unsigned_word_eqI)
  moreover have "unat (p div TREE_LEAF_COUNT) = unat (0 :: u64)"
    using less by (simp add: unat_div_distrib)
  then have "p div TREE_LEAF_COUNT = 0" by (rule unsigned_word_eqI)
  ultimately show ?thesis by (simp add: normalize_tree_position_def)
qed

end
