(* ===== verification/OrdMap.thy ===== *)
theory OrdMap
  imports Prelude
begin

text \<open>
  Rust's \<open>BTreeMap\<close> as the source uses it: an association list in strictly ascending key order,
  so that iteration order, \<open>range\<close> and \<open>last_key_value\<close> are those of the library type. The
  locale \<open>ordered_map\<close> is the contract the other components rely on; it is interpreted on these
  definitions.
\<close>

type_synonym ('k, 'v) btree_map = "('k \<times> 'v) list"

definition bt_inv :: "('k::linorder, 'v) btree_map \<Rightarrow> bool" where
  "bt_inv m \<longleftrightarrow> sorted_wrt (<) (map fst m)"

fun bt_insert :: "'k::linorder \<Rightarrow> 'v \<Rightarrow> ('k, 'v) btree_map \<Rightarrow> ('k, 'v) btree_map" where
  "bt_insert k v [] = [(k, v)]"
| "bt_insert k v ((k', v') # m) =
     (if k < k' then (k, v) # (k', v') # m
      else if k = k' then (k, v) # m
      else (k', v') # bt_insert k v m)"

definition bt_get :: "('k, 'v) btree_map \<Rightarrow> 'k \<Rightarrow> 'v option" where
  "bt_get m k = map_of m k"

definition bt_contains_key :: "('k, 'v) btree_map \<Rightarrow> 'k \<Rightarrow> bool" where
  "bt_contains_key m k \<longleftrightarrow> bt_get m k \<noteq> None"

definition bt_values :: "('k, 'v) btree_map \<Rightarrow> 'v list" where
  "bt_values m = map snd m"

text \<open>\<open>range(lo..hi)\<close>, \<open>range(lo..)\<close> and \<open>last_key_value\<close>.\<close>

definition bt_range :: "('k::linorder, 'v) btree_map \<Rightarrow> 'k \<Rightarrow> 'k \<Rightarrow> ('k \<times> 'v) list" where
  "bt_range m lo hi = filter (\<lambda>(k, v). lo \<le> k \<and> k < hi) m"

definition bt_range_from :: "('k::linorder, 'v) btree_map \<Rightarrow> 'k \<Rightarrow> ('k \<times> 'v) list" where
  "bt_range_from m lo = filter (\<lambda>(k, v). lo \<le> k) m"

definition bt_last_key_value :: "('k, 'v) btree_map \<Rightarrow> ('k \<times> 'v) option" where
  "bt_last_key_value m = (if m = [] then None else Some (last m))"

text \<open>\<open>entry(k).or_default()\<close> followed by an update of the slot.\<close>

definition bt_upsert :: "'k::linorder \<Rightarrow> 'v \<Rightarrow> ('v \<Rightarrow> 'v) \<Rightarrow> ('k, 'v) btree_map \<Rightarrow> ('k, 'v) btree_map" where
  "bt_upsert k d f m = bt_insert k (f (case bt_get m k of None \<Rightarrow> d | Some v \<Rightarrow> v)) m"

section \<open>The contract\<close>

locale ordered_map =
  fixes empty :: "'m"
    and insert :: "'k::linorder \<Rightarrow> 'v \<Rightarrow> 'm \<Rightarrow> 'm"
    and get :: "'m \<Rightarrow> 'k \<Rightarrow> 'v option"
    and entries :: "'m \<Rightarrow> ('k \<times> 'v) list"
    and inv :: "'m \<Rightarrow> bool"
  assumes inv_empty: "inv empty"
    and inv_insert: "inv m \<Longrightarrow> inv (insert k v m)"
    and get_empty: "get empty k = None"
    and get_insert: "get (insert k v m) = (get m)(k := Some v)"
    and entries_sorted: "inv m \<Longrightarrow> sorted_wrt (<) (map fst (entries m))"
    and entries_get: "inv m \<Longrightarrow> (k, v) \<in> set (entries m) \<longleftrightarrow> get m k = Some v"
begin

lemma entries_keys_distinct: "inv m \<Longrightarrow> distinct (map fst (entries m))"
  using entries_sorted strict_sorted_iff by blast

lemma inv_inserts: "inv m \<Longrightarrow> inv (fold (\<lambda>x. insert (key x) (val x)) xs m)"
  by (induction xs arbitrary: m) (auto intro: inv_insert)

lemma get_inserts:
  "get (fold (\<lambda>x. insert (key x) (val x)) xs m) k =
     (case find (\<lambda>x. key x = k) (rev xs) of None \<Rightarrow> get m k | Some x \<Rightarrow> Some (val x))"
proof (induction xs arbitrary: m rule: rev_induct)
  case Nil
  then show ?case by simp
next
  case (snoc x xs)
  then show ?case by (simp add: get_insert)
qed

lemma get_inserts_other:
  "k \<notin> key ` set xs \<Longrightarrow> get (fold (\<lambda>x. insert (key x) (val x)) xs m) k = get m k"
  by (induction xs arbitrary: m) (auto simp: get_insert)

lemma entries_unique:
  assumes "inv m" "inv m'" "get m = get m'"
  shows "entries m = entries m'"
proof -
  have keys: "set (map fst (entries n)) = {k. get n k \<noteq> None}" if "inv n" for n
    using entries_get [OF that] by force
  have "map fst (entries m) = map fst (entries m')"
    using assms entries_sorted keys by (intro strict_sorted_equal) auto
  moreover have "map snd (entries n) = map (the \<circ> get n) (map fst (entries n))" if "inv n" for n
    using entries_get [OF that] by auto
  ultimately show ?thesis
    using assms by (metis zip_map_fst_snd)
qed

end

section \<open>The contract holds\<close>

lemma bt_get_Nil [simp]: "bt_get [] k = None"
  by (simp add: bt_get_def)

lemma bt_inv_Nil [simp]: "bt_inv []"
  by (simp add: bt_inv_def)

lemma bt_inv_tl: "bt_inv (p # m) \<Longrightarrow> bt_inv m"
  by (simp add: bt_inv_def)

lemma keys_bt_insert: "set (map fst (bt_insert k v m)) = insert k (set (map fst m))"
  by (induction k v m rule: bt_insert.induct) auto

lemma bt_inv_insert [simp]: "bt_inv m \<Longrightarrow> bt_inv (bt_insert k v m)"
proof (induction k v m rule: bt_insert.induct)
  case (1 k v)
  then show ?case by (simp add: bt_inv_def)
next
  case (2 k v k' v' m)
  then show ?case
    using keys_bt_insert [of k v m] by (auto simp: bt_inv_def)
qed

lemma bt_get_insert [simp]: "bt_get (bt_insert k v m) = (bt_get m)(k := Some v)"
  by (induction k v m rule: bt_insert.induct) (auto simp: bt_get_def fun_eq_iff)

lemma bt_mem_get: "bt_inv m \<Longrightarrow> (k, v) \<in> set m \<longleftrightarrow> bt_get m k = Some v"
  unfolding bt_inv_def bt_get_def
  by (metis strict_sorted_iff map_of_eq_Some_iff)

interpretation btm: ordered_map "[]" bt_insert bt_get "\<lambda>m. m" bt_inv
  by unfold_locales (auto simp: bt_mem_get, simp add: bt_inv_def)

lemma bt_inv_distinct: "bt_inv m \<Longrightarrow> distinct (map fst m)"
  by (rule btm.entries_keys_distinct)

lemma bt_range_mem: "bt_inv m \<Longrightarrow> (k, v) \<in> set (bt_range m lo hi) \<longleftrightarrow> lo \<le> k \<and> k < hi \<and> bt_get m k = Some v"
  by (auto simp: bt_range_def bt_mem_get)

lemma bt_range_empty_iff:
  "bt_inv m \<Longrightarrow> bt_range m lo hi = [] \<longleftrightarrow> (\<forall>k. lo \<le> k \<and> k < hi \<longrightarrow> bt_get m k = None)"
proof -
  assume m: "bt_inv m"
  have "bt_range m lo hi = [] \<longleftrightarrow> (\<forall>k v. (k, v) \<notin> set (bt_range m lo hi))"
    by (cases "bt_range m lo hi") auto
  then show ?thesis using bt_range_mem [OF m, of _ _ lo hi] by auto
qed

lemma bt_range_from_mem:
  "bt_inv m \<Longrightarrow> (k, v) \<in> set (bt_range_from m lo) \<longleftrightarrow> lo \<le> k \<and> bt_get m k = Some v"
  by (auto simp: bt_range_from_def bt_mem_get)

lemma bt_last_key_value_max:
  assumes "bt_inv m" "bt_last_key_value m = Some (k, v)"
  shows "bt_get m k = Some v" "bt_get m k' \<noteq> None \<Longrightarrow> k' \<le> k"
proof -
  from assms(2) have m: "m \<noteq> []" and l: "last m = (k, v)"
    by (auto simp: bt_last_key_value_def split: if_splits)
  then show "bt_get m k = Some v"
    using bt_mem_get [OF assms(1)] last_in_set by metis
  assume "bt_get m k' \<noteq> None"
  then obtain v' where "(k', v') \<in> set m"
    using bt_mem_get [OF assms(1)] by blast
  then have k': "k' \<in> set (map fst m)" by force
  have "butlast m @ [(k, v)] = m" using append_butlast_last_id [OF m] l by simp
  from arg_cong [OF this, of "map fst"] have "map fst m = map fst (butlast m) @ [k]" by simp
  then show "k' \<le> k"
    using k' assms(1) by (auto simp: bt_inv_def sorted_wrt_append)
qed

lemma bt_get_upsert:
  "bt_get (bt_upsert k d f m) =
     (bt_get m)(k := Some (f (case bt_get m k of None \<Rightarrow> d | Some v \<Rightarrow> v)))"
  by (simp add: bt_upsert_def)

lemma bt_inv_upsert [simp]: "bt_inv m \<Longrightarrow> bt_inv (bt_upsert k d f m)"
  by (simp add: bt_upsert_def)

end
