(* ===== verification/NoteCrypto.thy ===== *)
theory NoteCrypto
  imports Poseidon OrdMap
begin

text \<open>
  Notes and their encryption: \<open>core/src/notes.rs\<close>, \<open>core/src/crypto/aes_gcm.rs\<close>,
  \<open>core/src/crypto/shared_key.rs\<close>, the key derivation of \<open>core/src/crypto/railgun.rs\<close>, the
  blinding of viewing keys in \<open>railgun-wallet/src/keys.rs\<close> and \<open>railgun-wallet/src/notes.rs\<close>.
  The cipher, the curve and the digests are third-party code: records of functions, with the
  laws the code relies on as the predicates \<open>aead_ok\<close> and \<open>curve_ok\<close>.
\<close>

unbundle bit_operations_syntax

section \<open>Bytes of words\<close>

definition fb32_bytes :: "b256 \<Rightarrow> bytes" where
  "fb32_bytes w = be_bytes 32 (unat w)"

definition fb32 :: "bytes \<Rightarrow> b256" where
  "fb32 bs = word_of_nat (from_be bs)"

text \<open>\<open>U256::from_be_slice\<close> and \<open>to_be_bytes::<32>\<close>.\<close>

definition u256_from_be_slice :: "bytes \<Rightarrow> u256" where
  "u256_from_be_slice bs = word_of_nat (from_be bs)"

definition u256_to_be_bytes :: "u256 \<Rightarrow> bytes" where
  "u256_to_be_bytes w = be_bytes 32 (unat w)"

definition address_bytes :: "address \<Rightarrow> bytes" where
  "address_bytes a = be_bytes 20 (unat a)"

lemma length_word_bytes [simp]:
  "length (fb32_bytes w) = 32" "length (u256_to_be_bytes v) = 32" "length (address_bytes a) = 20"
  by (simp_all add: fb32_bytes_def u256_to_be_bytes_def address_bytes_def)

lemma fb32_bytes_fb32: "length bs = 32 \<Longrightarrow> fb32_bytes (fb32 bs) = bs"
proof -
  assume len: "length bs = 32"
  then have "from_be bs < 256 ^ 32" using from_be_bound [of bs] by simp
  then have "unat (fb32 bs) = from_be bs" by (simp add: fb32_def unat_of_nat)
  then show ?thesis using be_bytes_from_be [of bs] len by (simp add: fb32_bytes_def)
qed

lemma from_be_u256: "u256_from_be_slice (u256_to_be_bytes v) = v"
proof -
  have "unat v < 2 ^ 256" using unsigned_less [of v] by simp
  then show ?thesis by (simp add: u256_from_be_slice_def u256_to_be_bytes_def from_be_be_bytes)
qed

section \<open>Notes\<close>

datatype aes_gcm_error = AesInvalidKey | AesRandomFailed | AesEncryptFailed | AesDecryptFailed

datatype note_error =
    CiphertextTooShort
  | InvalidIvTag
  | NoteInvalidKey
  | NoteEncryptFailed
  | NoteDecryptFailed
  | NoteAesGcm aes_gcm_error
  | InvalidViewingKey

record railgun_note =
  note_token_hash :: u256
  note_value :: u256
  note_random :: bytes
  note_npk :: u256

definition npk_for :: "hash_fn \<Rightarrow> u256 \<Rightarrow> bytes \<Rightarrow> u256" where
  "npk_for hash master_public_key random =
     poseidon hash [master_public_key, u256_from_be_slice random]"

definition new_unshield :: "address \<Rightarrow> address \<Rightarrow> u256 \<Rightarrow> railgun_note" where
  "new_unshield to token_address v =
     \<lparr>note_token_hash = u256_from_be_slice (address_bytes token_address), note_value = v,
      note_random = replicate 16 0, note_npk = u256_from_be_slice (address_bytes to)\<rparr>"

definition new_change :: "hash_fn \<Rightarrow> u256 \<Rightarrow> address \<Rightarrow> u256 \<Rightarrow> bytes \<Rightarrow> railgun_note" where
  "new_change hash master_public_key token_address v random =
     \<lparr>note_token_hash = u256_from_be_slice (address_bytes token_address), note_value = v,
      note_random = random, note_npk = npk_for hash master_public_key random\<rparr>"

definition commitment :: "hash_fn \<Rightarrow> railgun_note \<Rightarrow> u256" where
  "commitment hash n = poseidon hash [note_npk n, note_token_hash n, note_value n]"

section \<open>Authenticated encryption\<close>

text \<open>
  AES-256-GCM with a 16-byte nonce and no associated data, as the third-party cipher gives it:
  \<open>aead_encrypt key iv plaintext\<close> is the ciphertext and the tag.
\<close>

record aes_gcm =
  aead_encrypt :: "bytes \<Rightarrow> bytes \<Rightarrow> bytes \<Rightarrow> (bytes \<times> bytes) option"
  aead_decrypt :: "bytes \<Rightarrow> bytes \<Rightarrow> bytes \<Rightarrow> bytes \<Rightarrow> bytes option"

definition aead_ok :: "aes_gcm \<Rightarrow> bool" where
  "aead_ok aes \<longleftrightarrow>
     (\<forall>key iv pt ct tag. aead_encrypt aes key iv pt = Some (ct, tag) \<longrightarrow>
        aead_decrypt aes key iv tag ct = Some pt \<and> length ct = length pt \<and> length tag = 16)"

definition decrypt_in_place_16b_iv ::
  "aes_gcm \<Rightarrow> bytes \<Rightarrow> bytes \<Rightarrow> bytes \<Rightarrow> bytes \<Rightarrow> aes_gcm_error + bytes" where
  "decrypt_in_place_16b_iv aes key iv tag buffer =
     (if length key \<noteq> 32 then Inl AesInvalidKey
      else ok_or (aead_decrypt aes key iv tag buffer) AesDecryptFailed)"

text \<open>The updated buffer and the \<open>iv_tag\<close> block.\<close>

definition encrypt_in_place_with_iv ::
  "aes_gcm \<Rightarrow> bytes \<Rightarrow> bytes \<Rightarrow> bytes \<Rightarrow> aes_gcm_error + (bytes \<times> bytes)" where
  "encrypt_in_place_with_iv aes key iv buffer =
     (if length key \<noteq> 32 then Inl AesInvalidKey
      else (case aead_encrypt aes key iv buffer of
              None \<Rightarrow> Inl AesEncryptFailed
            | Some (ct, tag) \<Rightarrow> Inr (ct, iv @ tag)))"

text \<open>\<open>rng\<close> is what the system random source fills the nonce with, \<open>None\<close> when it fails.\<close>

definition encrypt_in_place_16b_iv ::
  "aes_gcm \<Rightarrow> bytes option \<Rightarrow> bytes \<Rightarrow> bytes \<Rightarrow> aes_gcm_error + (bytes \<times> bytes)" where
  "encrypt_in_place_16b_iv aes rng key buffer =
     (case rng of None \<Rightarrow> Inl AesRandomFailed
      | Some iv \<Rightarrow> encrypt_in_place_with_iv aes key iv buffer)"

definition split_iv_tag :: "bytes \<Rightarrow> bytes \<times> bytes" where
  "split_iv_tag iv_tag = (take 16 iv_tag, drop 16 iv_tag)"

definition map_note_error :: "aes_gcm_error + 'a \<Rightarrow> note_error + 'a" where
  "map_note_error r = (case r of Inl e \<Rightarrow> Inl (NoteAesGcm e) | Inr a \<Rightarrow> Inr a)"

definition decrypt_v2 ::
  "aes_gcm \<Rightarrow> hash_fn \<Rightarrow> b256 list \<Rightarrow> bytes \<Rightarrow> bytes \<Rightarrow> u256 \<Rightarrow> note_error + railgun_note" where
  "decrypt_v2 aes hash ciphertext memo shared_key receiver_mpk =
     (let (iv, tag) = split_iv_tag (fb32_bytes (ciphertext ! 0));
          ct = fb32_bytes (ciphertext ! 1) @ fb32_bytes (ciphertext ! 2) @ fb32_bytes (ciphertext ! 3) @ memo
      in bind_result (map_note_error (decrypt_in_place_16b_iv aes shared_key iv tag ct)) (\<lambda>pt.
           if length pt < 96 then Inl CiphertextTooShort
           else
             let token_hash = take 32 (drop 32 pt);
                 random = take 16 (drop 64 pt);
                 value_bytes = take 16 (drop 80 pt)
             in Inr \<lparr>note_token_hash = u256_from_be_slice token_hash,
                     note_value = u256_from_be_slice value_bytes,
                     note_random = random, note_npk = npk_for hash receiver_mpk random\<rparr>))"

definition decrypt_shield_random ::
  "aes_gcm \<Rightarrow> b256 list \<Rightarrow> bytes \<Rightarrow> note_error + bytes" where
  "decrypt_shield_random aes encrypted_bundle shared_key =
     (let (iv, tag) = split_iv_tag (fb32_bytes (encrypted_bundle ! 0));
          ct = take 16 (fb32_bytes (encrypted_bundle ! 1))
      in bind_result (map_note_error (decrypt_in_place_16b_iv aes shared_key iv tag ct)) (\<lambda>pt.
           if length pt < 16 then Inl CiphertextTooShort else Inr (take 16 pt)))"

definition decrypt_legacy_random ::
  "aes_gcm \<Rightarrow> b256 \<Rightarrow> bytes \<Rightarrow> bytes \<Rightarrow> note_error + bytes" where
  "decrypt_legacy_random aes iv_tag data viewing_private_key =
     (let (iv, tag) = split_iv_tag (fb32_bytes iv_tag)
      in bind_result (map_note_error (decrypt_in_place_16b_iv aes viewing_private_key iv tag data)) (\<lambda>pt.
           if length pt < 16 then Inl CiphertextTooShort else Inr (take 16 pt)))"

section \<open>Shared keys\<close>

text \<open>
  The third-party curve and digests: \<open>point_mul\<close> multiplies by the scalar its byte string spells
  (\<open>Scalar::from_bytes_mod_order\<close>), \<open>verifying_key\<close> is the public key of an Ed25519 seed.
\<close>

record 'p curve =
  decompress :: "bytes \<Rightarrow> 'p option"
  compress :: "'p \<Rightarrow> bytes"
  point_mul :: "'p \<Rightarrow> bytes \<Rightarrow> 'p"
  verifying_key :: "bytes \<Rightarrow> bytes"
  sha256 :: "bytes \<Rightarrow> bytes"
  sha512 :: "bytes \<Rightarrow> bytes"

datatype key_error = InvalidEd25519Pubkey

definition clamp25519 :: "bytes \<Rightarrow> bytes" where
  "clamp25519 bytes =
     (let bytes = bytes[0 := (bytes ! 0) AND 0xF8];
          bytes = bytes[31 := (bytes ! 31) AND 0x7F]
      in bytes[31 := (bytes ! 31) OR 0x40])"

definition ed25519_private_scalar_bytes :: "'p curve \<Rightarrow> bytes \<Rightarrow> bytes" where
  "ed25519_private_scalar_bytes cv seed32 = clamp25519 (take 32 (sha512 cv seed32))"

definition shared_symmetric_key_legacy :: "'p curve \<Rightarrow> bytes \<Rightarrow> bytes \<Rightarrow> key_error + bytes" where
  "shared_symmetric_key_legacy cv viewing_private_key blinded_public_key =
     bind_result (ok_or (decompress cv blinded_public_key) InvalidEd25519Pubkey) (\<lambda>point.
       Inr (compress cv (point_mul cv point (ed25519_private_scalar_bytes cv viewing_private_key))))"

definition shared_symmetric_key :: "'p curve \<Rightarrow> bytes \<Rightarrow> bytes \<Rightarrow> key_error + bytes" where
  "shared_symmetric_key cv viewing_private_key blinded_public_key =
     bind_result (ok_or (decompress cv blinded_public_key) InvalidEd25519Pubkey) (\<lambda>point.
       let shared_point = compress cv (point_mul cv point (ed25519_private_scalar_bytes cv viewing_private_key));
           digest = sha256 cv shared_point
       in Inr (take 32 digest))"

definition ED25519_ORDER :: nat where
  "ED25519_ORDER = 0x1000000000000000000000000000000014def9dea2f79cd65812631a5cf5d3ed"

definition seed_to_scalar :: "'p curve \<Rightarrow> bytes \<Rightarrow> bytes" where
  "seed_to_scalar cv seed =
     (let hash_val = from_be (sha512 cv seed);
          scalar = hash_val mod ED25519_ORDER;
          scalar = (if scalar = 0 then 1 else scalar)
      in take 32 (rev (be_bytes 64 scalar)))"

definition blinding_scalar :: "'p curve \<Rightarrow> bytes \<Rightarrow> bytes \<Rightarrow> bytes" where
  "blinding_scalar cv shared_random sender_random =
     (let shared = replicate 16 0 @ shared_random;
          sender = replicate 17 0 @ sender_random;
          final_val = u256_from_be_slice shared XOR u256_from_be_slice sender
      in seed_to_scalar cv (u256_to_be_bytes final_val))"

definition note_blinding_keys ::
  "'p curve \<Rightarrow> bytes \<Rightarrow> bytes \<Rightarrow> bytes \<Rightarrow> bytes \<Rightarrow> key_error + (bytes \<times> bytes)" where
  "note_blinding_keys cv sender_viewing_pubkey receiver_viewing_pubkey shared_random sender_random =
     (let s = blinding_scalar cv shared_random sender_random
      in bind_result (ok_or (decompress cv sender_viewing_pubkey) InvalidEd25519Pubkey) (\<lambda>sender_point.
         bind_result (ok_or (decompress cv receiver_viewing_pubkey) InvalidEd25519Pubkey) (\<lambda>receiver_point.
           Inr (compress cv (point_mul cv sender_point s), compress cv (point_mul cv receiver_point s)))))"

subsection \<open>Wallet keys\<close>

record address_data =
  ad_master_public_key :: u256
  ad_viewing_public_key :: bytes

record viewing_key_data =
  vk_viewing_private_key :: bytes
  vk_viewing_public_key :: bytes
  vk_nullifying_key :: u256
  vk_master_public_key :: u256

definition derive_viewing_public_key :: "'p curve \<Rightarrow> bytes \<Rightarrow> bytes" where
  "derive_viewing_public_key cv viewing_private_key = verifying_key cv viewing_private_key"

definition derive_nullifying_key :: "hash_fn \<Rightarrow> bytes \<Rightarrow> u256" where
  "derive_nullifying_key hash viewing_private_key = poseidon hash [u256_from_be_slice viewing_private_key]"

definition derive_master_public_key :: "hash_fn \<Rightarrow> u256 \<times> u256 \<Rightarrow> u256 \<Rightarrow> u256" where
  "derive_master_public_key hash spending_public_key nullifying_key =
     poseidon hash [fst spending_public_key, snd spending_public_key, nullifying_key]"

definition from_spending_public_key ::
  "'p curve \<Rightarrow> hash_fn \<Rightarrow> bytes \<Rightarrow> u256 \<times> u256 \<Rightarrow> viewing_key_data" where
  "from_spending_public_key cv hash viewing_private_key spending_public_key =
     (let viewing_public_key = derive_viewing_public_key cv viewing_private_key;
          nullifying_key = derive_nullifying_key hash viewing_private_key;
          master_public_key = derive_master_public_key hash spending_public_key nullifying_key
      in \<lparr>vk_viewing_private_key = viewing_private_key, vk_viewing_public_key = viewing_public_key,
          vk_nullifying_key = nullifying_key, vk_master_public_key = master_public_key\<rparr>)"

definition address_data :: "viewing_key_data \<Rightarrow> address_data" where
  "address_data k =
     \<lparr>ad_master_public_key = vk_master_public_key k, ad_viewing_public_key = vk_viewing_public_key k\<rparr>"

section \<open>Note ciphertexts\<close>

record note_ciphertext =
  nc_ciphertext :: "b256 list"
  nc_blinded_sender_viewing_key :: b256
  nc_blinded_receiver_viewing_key :: b256
  nc_annotation_data :: bytes
  nc_memo :: bytes

definition MEMO_SENDER_RANDOM_NULL :: bytes where
  "MEMO_SENDER_RANDOM_NULL = replicate 15 0"

definition encrypt_v2_payload ::
  "aes_gcm \<Rightarrow> bytes option \<Rightarrow> bytes \<Rightarrow> u256 \<Rightarrow> u256 \<Rightarrow> bytes \<Rightarrow> u256 \<Rightarrow>
     note_error + (bytes \<times> bytes list \<times> bytes)" where
  "encrypt_v2_payload aes rng shared_key encoded_mpk token_hash random v =
     (let pt = u256_to_be_bytes encoded_mpk @ u256_to_be_bytes token_hash @ random
               @ drop 16 (u256_to_be_bytes v)
      in case encrypt_in_place_16b_iv aes rng shared_key pt of
           Inl AesInvalidKey \<Rightarrow> Inl NoteInvalidKey
         | Inl _ \<Rightarrow> Inl NoteEncryptFailed
         | Inr (ct, iv_tag) \<Rightarrow>
             Inr (iv_tag, [take 32 ct, take 32 (drop 32 ct), take 32 (drop 64 ct)], []))"

definition map_key_error :: "key_error + 'a \<Rightarrow> note_error + 'a" where
  "map_key_error r = (case r of Inl _ \<Rightarrow> Inl InvalidViewingKey | Inr a \<Rightarrow> Inr a)"

definition try_from_note ::
  "aes_gcm \<Rightarrow> 'p curve \<Rightarrow> bytes option \<Rightarrow> bytes \<Rightarrow> railgun_note \<Rightarrow> address_data \<Rightarrow> address_data \<Rightarrow> bytes \<Rightarrow>
     note_error + note_ciphertext" where
  "try_from_note aes cv rng sender_random n sender receiver sender_viewing_private_key =
     bind_result (map_key_error (note_blinding_keys cv (ad_viewing_public_key sender)
         (ad_viewing_public_key receiver) (note_random n) sender_random)) (\<lambda>(blinded_sender, blinded_receiver).
     bind_result (map_key_error (shared_symmetric_key cv sender_viewing_private_key blinded_receiver)) (\<lambda>shared_key.
       let encoded_mpk = (if sender_random = MEMO_SENDER_RANDOM_NULL
                          then ad_master_public_key receiver XOR ad_master_public_key sender
                          else ad_master_public_key receiver)
       in bind_result (encrypt_v2_payload aes rng shared_key encoded_mpk (note_token_hash n)
              (note_random n) (note_value n)) (\<lambda>(iv_tag, ct_blocks, memo).
            Inr \<lparr>nc_ciphertext = [fb32 iv_tag, fb32 (ct_blocks ! 0), fb32 (ct_blocks ! 1), fb32 (ct_blocks ! 2)],
                 nc_blinded_sender_viewing_key = fb32 blinded_sender,
                 nc_blinded_receiver_viewing_key = fb32 blinded_receiver,
                 nc_annotation_data = [], nc_memo = memo\<rparr>)))"

text \<open>The two candidates of the receiver key, tried in the order of the source.\<close>

definition sender_note_for :: "hash_fn \<Rightarrow> u256 \<Rightarrow> u256 \<Rightarrow> bytes \<Rightarrow> u256 \<Rightarrow> railgun_note" where
  "sender_note_for hash token_hash v random receiver_mpk =
     \<lparr>note_token_hash = token_hash, note_value = v, note_random = random,
      note_npk = npk_for hash receiver_mpk random\<rparr>"

definition decrypt_sender_note ::
  "aes_gcm \<Rightarrow> 'p curve \<Rightarrow> hash_fn \<Rightarrow> note_ciphertext \<Rightarrow> u256 \<Rightarrow> viewing_key_data \<Rightarrow> railgun_note option" where
  "decrypt_sender_note aes cv hash ciphertext expected_commitment scan_keys =
     (if nc_blinded_receiver_viewing_key ciphertext = 0 then None
      else (case shared_symmetric_key cv (vk_viewing_private_key scan_keys)
                   (fb32_bytes (nc_blinded_receiver_viewing_key ciphertext)) of
        Inl _ \<Rightarrow> None
      | Inr shared_key \<Rightarrow>
          let (iv, tag) = split_iv_tag (fb32_bytes (nc_ciphertext ciphertext ! 0));
              ct = fb32_bytes (nc_ciphertext ciphertext ! 1) @ fb32_bytes (nc_ciphertext ciphertext ! 2)
                   @ fb32_bytes (nc_ciphertext ciphertext ! 3) @ nc_memo ciphertext
          in (case decrypt_in_place_16b_iv aes shared_key iv tag ct of
                Inl _ \<Rightarrow> None
              | Inr plaintext \<Rightarrow>
                  if length plaintext < 96 then None
                  else
                    let encoded_mpk = u256_from_be_slice (take 32 plaintext);
                        token_hash = u256_from_be_slice (take 32 (drop 32 plaintext));
                        random = take 16 (drop 64 plaintext);
                        v = u256_from_be_slice (take 16 (drop 80 plaintext))
                    in find (\<lambda>n. commitment hash n = expected_commitment)
                         (map (sender_note_for hash token_hash v random)
                            [encoded_mpk XOR vk_master_public_key scan_keys, encoded_mpk]))))"

lemma map_error_Inr [simp]:
  "map_key_error r = Inr a \<longleftrightarrow> r = Inr a" "map_note_error q = Inr b \<longleftrightarrow> q = Inr b"
  by (auto simp: map_key_error_def map_note_error_def split: sum.splits)

section \<open>Laws of the third-party code\<close>

text \<open>
  Compression is injective with \<open>decompress\<close> its inverse, multiplication by scalars commutes, a
  public key is the base point times the clamped scalar of its seed, and digests have their length.
\<close>

definition curve_ok :: "'p curve \<Rightarrow> 'p \<Rightarrow> bool" where
  "curve_ok cv base \<longleftrightarrow>
     (\<forall>p. decompress cv (compress cv p) = Some p \<and> length (compress cv p) = 32) \<and>
     (\<forall>p s t. point_mul cv (point_mul cv p s) t = point_mul cv (point_mul cv p t) s) \<and>
     (\<forall>seed. verifying_key cv seed = compress cv (point_mul cv base (ed25519_private_scalar_bytes cv seed))) \<and>
     (\<forall>x. length (sha256 cv x) = 32)"


lemma curve_okD:
  assumes "curve_ok cv base"
  shows "decompress cv (compress cv p) = Some p" "length (compress cv p) = 32"
    "point_mul cv (point_mul cv p s) t = point_mul cv (point_mul cv p t) s"
    "verifying_key cv seed = compress cv (point_mul cv base (ed25519_private_scalar_bytes cv seed))"
    "length (sha256 cv x) = 32"
  using assms by (auto simp: curve_ok_def)

text \<open>Blinded keys of two derived public keys, in closed form.\<close>

lemma blinding_keys_derived:
  assumes "curve_ok cv base"
  defines "k \<equiv> ed25519_private_scalar_bytes cv"
  shows "note_blinding_keys cv (derive_viewing_public_key cv s) (derive_viewing_public_key cv r) x y =
    Inr (compress cv (point_mul cv (point_mul cv base (k s)) (blinding_scalar cv x y)),
         compress cv (point_mul cv (point_mul cv base (k r)) (blinding_scalar cv x y)))"
  by (simp add: note_blinding_keys_def derive_viewing_public_key_def curve_okD [OF assms(1)] k_def Let_def)

lemma shared_key_agree:
  assumes "curve_ok cv base"
    and "note_blinding_keys cv (derive_viewing_public_key cv s) (derive_viewing_public_key cv r) x y = Inr (bs, br)"
  shows "\<exists>key. shared_symmetric_key cv s br = Inr key \<and> shared_symmetric_key cv r bs = Inr key \<and>
     length key = 32 \<and> length bs = 32 \<and> length br = 32"
proof -
  let ?k = "ed25519_private_scalar_bytes cv" and ?b = "blinding_scalar cv x y"
  have b: "bs = compress cv (point_mul cv (point_mul cv base (?k s)) ?b)"
    "br = compress cv (point_mul cv (point_mul cv base (?k r)) ?b)"
    using assms(2) by (simp_all add: blinding_keys_derived [OF assms(1)])
  have "point_mul cv (point_mul cv (point_mul cv base (?k s)) ?b) (?k r) =
      point_mul cv (point_mul cv (point_mul cv base (?k r)) ?b) (?k s)"
    by (metis curve_okD(3) [OF assms(1)])
  then show ?thesis
    by (simp add: b shared_symmetric_key_def curve_okD(1,2,5) [OF assms(1)] Let_def)
qed

section \<open>Encryption round trip\<close>

text \<open>The plaintext layout of a note: the receiver key, the token, the randomness and the value.\<close>

definition v2_plaintext :: "u256 \<Rightarrow> railgun_note \<Rightarrow> bytes" where
  "v2_plaintext encoded_mpk n =
     u256_to_be_bytes encoded_mpk @ u256_to_be_bytes (note_token_hash n) @ note_random n
       @ drop 16 (u256_to_be_bytes (note_value n))"

lemma be_bytes_drop: "drop k (be_bytes (k + n) v) = be_bytes n v"
proof (induction n arbitrary: v)
  case (Suc n)
  have "drop k (be_bytes (k + Suc n) v) = drop k (be_bytes (k + n) (v div 256)) @ [word_of_nat (v mod 256)]"
    by (simp add: drop_append)
  then show ?case by (simp add: Suc.IH)
qed simp

lemma value_bytes_round_trip:
  "unat v < 2 ^ 128 \<Longrightarrow> u256_from_be_slice (drop 16 (u256_to_be_bytes v)) = v"
  using be_bytes_drop [of 16 16 "unat v"]
  by (simp add: u256_to_be_bytes_def u256_from_be_slice_def from_be_be_bytes)

definition note_ok :: "railgun_note \<Rightarrow> bool" where
  "note_ok n \<longleftrightarrow> length (note_random n) = 16 \<and> unat (note_value n) < 2 ^ 128"

lemma v2_plaintext_parts:
  assumes "note_ok n"
  shows "length (v2_plaintext m n) = 96"
    "u256_from_be_slice (take 32 (v2_plaintext m n)) = m"
    "u256_from_be_slice (take 32 (drop 32 (v2_plaintext m n))) = note_token_hash n"
    "take 16 (drop 64 (v2_plaintext m n)) = note_random n"
    "u256_from_be_slice (take 16 (drop 80 (v2_plaintext m n))) = note_value n"
    "u256_from_be_slice (drop 80 (v2_plaintext m n)) = note_value n"
  using assms value_bytes_round_trip [of "note_value n"]
  by (simp_all add: note_ok_def v2_plaintext_def from_be_u256)

lemma three_blocks:
  assumes "length ct = 96"
  shows "take 32 ct @ take 32 (drop 32 ct) @ take 32 (drop 64 ct) = ct"
proof -
  have "drop 64 ct = drop 32 (drop 32 ct)" by simp
  then have "take 32 (drop 32 ct) @ drop 64 ct = drop 32 ct" by (simp only: append_take_drop_id)
  moreover have "take 32 (drop 64 ct) = drop 64 ct" using assms by simp
  ultimately show ?thesis by (simp only: append_take_drop_id)
qed

text \<open>
  The four blocks of a ciphertext spell the nonce, the tag and the encrypted layout, so decrypting
  them under the same key gives the layout back.
\<close>

lemma encrypt_payload_blocks:
  assumes "aead_ok aes" "note_ok n" "length key = 32" "\<And>iv. rng = Some iv \<Longrightarrow> length iv = 16"
    and "encrypt_v2_payload aes rng key m (note_token_hash n) (note_random n) (note_value n) =
      Inr (iv_tag, blocks, memo)"
  shows "memo = []" and "length iv_tag = 32" and "\<And>i. i < 3 \<Longrightarrow> length (blocks ! i) = 32"
    and "decrypt_in_place_16b_iv aes key (take 16 iv_tag) (drop 16 iv_tag)
       (blocks ! 0 @ blocks ! 1 @ blocks ! 2) = Inr (v2_plaintext m n)"
proof -
  have pt: "u256_to_be_bytes m @ u256_to_be_bytes (note_token_hash n) @ note_random n
      @ drop 16 (u256_to_be_bytes (note_value n)) = v2_plaintext m n"
    by (simp add: v2_plaintext_def)
  from assms(3,5) obtain iv ct tag where
    rng: "rng = Some iv" and enc: "aead_encrypt aes key iv (v2_plaintext m n) = Some (ct, tag)"
    and parts: "iv_tag = iv @ tag" "blocks = [take 32 ct, take 32 (drop 32 ct), take 32 (drop 64 ct)]" "memo = []"
    unfolding encrypt_v2_payload_def pt encrypt_in_place_16b_iv_def encrypt_in_place_with_iv_def Let_def
    by (auto split: option.splits sum.splits aes_gcm_error.splits prod.splits)
  from assms(1) enc have dec: "aead_decrypt aes key iv tag ct = Some (v2_plaintext m n)"
    and len: "length ct = length (v2_plaintext m n)" "length tag = 16"
    by (auto simp: aead_ok_def)
  have ct: "length ct = 96" using len(1) v2_plaintext_parts(1) [OF assms(2)] by simp
  have iv: "length iv = 16" using assms(4) rng by blast
  show "memo = []" by (rule parts)
  show "length iv_tag = 32" by (simp add: parts iv len)
  show "length (blocks ! i) = 32" if "i < 3" for i
    using that ct by (auto simp: parts less_Suc_eq numeral_3_eq_3)
  have "blocks ! 0 @ blocks ! 1 @ blocks ! 2 = ct"
    using three_blocks [OF ct] by (simp add: parts)
  with dec show "decrypt_in_place_16b_iv aes key (take 16 iv_tag) (drop 16 iv_tag)
      (blocks ! 0 @ blocks ! 1 @ blocks ! 2) = Inr (v2_plaintext m n)"
    by (simp add: decrypt_in_place_16b_iv_def parts iv assms(3))
qed


text \<open>What a sender hands out, opened: both parties hold the key, and it decrypts to the layout.\<close>

lemma try_from_note_opened:
  assumes ok: "aead_ok aes" "curve_ok cv base" "note_ok n" "\<And>iv. rng = Some iv \<Longrightarrow> length iv = 16"
    and sender: "ad_viewing_public_key sender = derive_viewing_public_key cv s"
    and receiver: "ad_viewing_public_key receiver = derive_viewing_public_key cv r"
    and enc: "try_from_note aes cv rng sender_random n sender receiver s = Inr c"
  obtains key m where
    "shared_symmetric_key cv s (fb32_bytes (nc_blinded_receiver_viewing_key c)) = Inr key"
    "shared_symmetric_key cv r (fb32_bytes (nc_blinded_sender_viewing_key c)) = Inr key"
    "decrypt_in_place_16b_iv aes key (take 16 (fb32_bytes (nc_ciphertext c ! 0)))
       (drop 16 (fb32_bytes (nc_ciphertext c ! 0)))
       (fb32_bytes (nc_ciphertext c ! 1) @ fb32_bytes (nc_ciphertext c ! 2)
          @ fb32_bytes (nc_ciphertext c ! 3) @ nc_memo c) = Inr (v2_plaintext m n)"
    "m = (if sender_random = MEMO_SENDER_RANDOM_NULL
          then ad_master_public_key receiver XOR ad_master_public_key sender
          else ad_master_public_key receiver)"
proof -
  define m where "m = (if sender_random = MEMO_SENDER_RANDOM_NULL
          then ad_master_public_key receiver XOR ad_master_public_key sender
          else ad_master_public_key receiver)"
  from enc obtain bs br key iv_tag blocks memo where
    keys: "note_blinding_keys cv (derive_viewing_public_key cv s) (derive_viewing_public_key cv r)
      (note_random n) sender_random = Inr (bs, br)"
    and key: "shared_symmetric_key cv s br = Inr key"
    and pay: "encrypt_v2_payload aes rng key m (note_token_hash n) (note_random n) (note_value n) =
      Inr (iv_tag, blocks, memo)"
    and c: "c = \<lparr>nc_ciphertext = [fb32 iv_tag, fb32 (blocks ! 0), fb32 (blocks ! 1), fb32 (blocks ! 2)],
        nc_blinded_sender_viewing_key = fb32 bs, nc_blinded_receiver_viewing_key = fb32 br,
        nc_annotation_data = [], nc_memo = memo\<rparr>"
    unfolding try_from_note_def sender receiver m_def [symmetric] Let_def
    by auto
  from shared_key_agree [OF ok(2) keys] key have agree:
    "shared_symmetric_key cv r bs = Inr key" "length key = 32" "length bs = 32" "length br = 32" by auto
  note blocks = encrypt_payload_blocks [OF ok(1,3) agree(2) ok(4) pay]
  show ?thesis
  proof (rule that [of key m])
    show "shared_symmetric_key cv s (fb32_bytes (nc_blinded_receiver_viewing_key c)) = Inr key"
      by (simp add: c fb32_bytes_fb32 agree(4) key)
    show "shared_symmetric_key cv r (fb32_bytes (nc_blinded_sender_viewing_key c)) = Inr key"
      by (simp add: c fb32_bytes_fb32 agree)
    show "decrypt_in_place_16b_iv aes key (take 16 (fb32_bytes (nc_ciphertext c ! 0)))
       (drop 16 (fb32_bytes (nc_ciphertext c ! 0)))
       (fb32_bytes (nc_ciphertext c ! 1) @ fb32_bytes (nc_ciphertext c ! 2)
          @ fb32_bytes (nc_ciphertext c ! 3) @ nc_memo c) = Inr (v2_plaintext m n)"
      using blocks(4) by (simp add: c fb32_bytes_fb32 blocks(1,2,3))
  qed (rule m_def)
qed

section \<open>Properties\<close>

text \<open>
  Claim C33. Sender and receiver derive the same symmetric key: from its own viewing seed and the other
  side's blinded key each gets the key the other gets, whatever the blinding randomness, under the
  group laws of the curve.
\<close>

theorem shared_key_agreement:
  assumes "curve_ok cv base"
    and "note_blinding_keys cv (derive_viewing_public_key cv s) (derive_viewing_public_key cv r) x y = Inr (bs, br)"
  shows "shared_symmetric_key cv s br = shared_symmetric_key cv r bs \<and>
     shared_symmetric_key cv s br \<noteq> Inl InvalidEd25519Pubkey"
  using shared_key_agree [OF assms] by auto

text \<open>
  An instance of the third-party code that satisfies the laws: points are 256-bit words, a scalar
  acts by multiplication with its length, the cipher is transparent.
\<close>

definition word_curve :: "256 word curve" where
  "word_curve =
     \<lparr>decompress = (\<lambda>bs. Some (fb32 bs)), compress = fb32_bytes,
      point_mul = (\<lambda>p s. p * word_of_nat (length s)), verifying_key = (\<lambda>seed. fb32_bytes 96),
      sha256 = (\<lambda>_. replicate 32 7), sha512 = (\<lambda>_. replicate 64 9)\<rparr>"

definition clear_aead :: aes_gcm where
  "clear_aead =
     \<lparr>aead_encrypt = (\<lambda>key iv pt. Some (pt, replicate 16 0)),
      aead_decrypt = (\<lambda>key iv tag ct. Some ct)\<rparr>"

lemma fb32_fb32_bytes: "fb32 (fb32_bytes w) = w"
  using from_be_u256 [of w] by (simp add: fb32_def fb32_bytes_def u256_from_be_slice_def u256_to_be_bytes_def)

lemma word_curve_ok: "curve_ok word_curve 3"
  by (simp add: curve_ok_def word_curve_def fb32_fb32_bytes ed25519_private_scalar_bytes_def clamp25519_def
      Let_def mult_ac)

lemma clear_aead_ok: "aead_ok clear_aead"
  by (simp add: aead_ok_def clear_aead_def)

lemma shared_key_agreement_witness:
  "\<exists>bs br. note_blinding_keys word_curve (derive_viewing_public_key word_curve [1])
       (derive_viewing_public_key word_curve [2]) [5] [6] = Inr (bs, br) \<and>
     shared_symmetric_key word_curve [1] br = shared_symmetric_key word_curve [2] bs"
  using shared_key_agreement [OF word_curve_ok] blinding_keys_derived [OF word_curve_ok] by blast

text \<open>
  Claim C15. Note encryption round trip: what a sender encrypts for a receiver decrypts, under the key
  the receiver derives from its own viewing seed, to exactly the note, if the note is addressed to
  the receiver's master key and its value fits the 16 bytes the layout stores.
\<close>

theorem note_round_trip:
  assumes "aead_ok aes" "curve_ok cv base" "note_ok n" "length iv = 16"
    and "ad_viewing_public_key sender = derive_viewing_public_key cv s"
    and "ad_viewing_public_key receiver = derive_viewing_public_key cv r"
    and "note_npk n = npk_for hash (ad_master_public_key receiver) (note_random n)"
    and "try_from_note aes cv (Some iv) sender_random n sender receiver s = Inr c"
  shows "\<exists>key. shared_symmetric_key cv r (fb32_bytes (nc_blinded_sender_viewing_key c)) = Inr key \<and>
     decrypt_v2 aes hash (nc_ciphertext c) (nc_memo c) key (ad_master_public_key receiver) = Inr n"
proof -
  obtain key m where key: "shared_symmetric_key cv r (fb32_bytes (nc_blinded_sender_viewing_key c)) = Inr key"
    and dec: "decrypt_in_place_16b_iv aes key (take 16 (fb32_bytes (nc_ciphertext c ! 0)))
       (drop 16 (fb32_bytes (nc_ciphertext c ! 0)))
       (fb32_bytes (nc_ciphertext c ! 1) @ fb32_bytes (nc_ciphertext c ! 2)
          @ fb32_bytes (nc_ciphertext c ! 3) @ nc_memo c) = Inr (v2_plaintext m n)"
    by (rule try_from_note_opened [OF assms(1,2,3) _ assms(5,6,8)]) (use assms(4) in auto)
  have "decrypt_v2 aes hash (nc_ciphertext c) (nc_memo c) key (ad_master_public_key receiver) = Inr n"
    using assms(7)
    by (simp add: decrypt_v2_def split_iv_tag_def Let_def dec [simplified] v2_plaintext_parts [OF assms(3)])
  with key show ?thesis by blast
qed

text \<open>
  Claim C32. Senders can recover what they sent: with its own viewing seed the sender finds a note of the
  expected commitment with the token, value and randomness of the note it encrypted, both when the
  memo randomness hides the sender and when it does not.
\<close>

theorem sender_note_round_trip:
  assumes "aead_ok aes" "curve_ok cv base" "note_ok n" "length iv = 16"
    and "s = vk_viewing_private_key keys" "ad_viewing_public_key sender = derive_viewing_public_key cv s"
    and "ad_master_public_key sender = vk_master_public_key keys"
    and "ad_viewing_public_key receiver = derive_viewing_public_key cv r"
    and "note_npk n = npk_for hash (ad_master_public_key receiver) (note_random n)"
    and "try_from_note aes cv (Some iv) sender_random n sender receiver s = Inr c"
    and "nc_blinded_receiver_viewing_key c \<noteq> 0"
  shows "\<exists>n'. decrypt_sender_note aes cv hash c (commitment hash n) keys = Some n' \<and>
     commitment hash n' = commitment hash n \<and> note_token_hash n' = note_token_hash n \<and>
     note_value n' = note_value n \<and> note_random n' = note_random n"
proof -
  obtain key m where key: "shared_symmetric_key cv s (fb32_bytes (nc_blinded_receiver_viewing_key c)) = Inr key"
    and dec: "decrypt_in_place_16b_iv aes key (take 16 (fb32_bytes (nc_ciphertext c ! 0)))
       (drop 16 (fb32_bytes (nc_ciphertext c ! 0)))
       (fb32_bytes (nc_ciphertext c ! 1) @ fb32_bytes (nc_ciphertext c ! 2)
          @ fb32_bytes (nc_ciphertext c ! 3) @ nc_memo c) = Inr (v2_plaintext m n)"
    and m: "m = (if sender_random = MEMO_SENDER_RANDOM_NULL
          then ad_master_public_key receiver XOR ad_master_public_key sender
          else ad_master_public_key receiver)"
    by (rule try_from_note_opened [OF assms(1,2,3) _ assms(6,8,10)]) (use assms(4) in auto)
  define cand where "cand = sender_note_for hash (note_token_hash n) (note_value n) (note_random n)"
  have found: "decrypt_sender_note aes cv hash c (commitment hash n) keys =
      find (\<lambda>x. commitment hash x = commitment hash n) (map cand [m XOR vk_master_public_key keys, m])"
    using assms(11) key
    by (simp add: decrypt_sender_note_def assms(5) split_iv_tag_def Let_def dec [simplified]
        v2_plaintext_parts [OF assms(3)] cand_def)
  have "cand (ad_master_public_key receiver) = n"
    using assms(9) by (simp add: cand_def sender_note_for_def)
  moreover have "m XOR vk_master_public_key keys = ad_master_public_key receiver \<or> m = ad_master_public_key receiver"
    by (simp add: m assms(7) xor.assoc)
  ultimately have "commitment hash (cand (m XOR vk_master_public_key keys)) = commitment hash n \<or>
      commitment hash (cand m) = commitment hash n" by metis
  then show ?thesis
    unfolding found by (auto simp: cand_def sender_note_for_def)
qed

definition sample_keys :: "bytes \<Rightarrow> u256 \<Rightarrow> viewing_key_data" where
  "sample_keys seed mpk =
     \<lparr>vk_viewing_private_key = seed, vk_viewing_public_key = derive_viewing_public_key word_curve seed,
      vk_nullifying_key = 0, vk_master_public_key = mpk\<rparr>"

definition sample_note :: railgun_note where
  "sample_note =
     \<lparr>note_token_hash = 17, note_value = 1000, note_random = replicate 16 4,
      note_npk = npk_for sum_list 22 (replicate 16 4)\<rparr>"

lemma sample_blinding:
  "note_blinding_keys word_curve (derive_viewing_public_key word_curve [1])
     (derive_viewing_public_key word_curve [2]) x y = Inr (fb32_bytes 3072, fb32_bytes 3072)"
  unfolding blinding_keys_derived [OF word_curve_ok]
  by (simp add: word_curve_def blinding_scalar_def seed_to_scalar_def
      ed25519_private_scalar_bytes_def clamp25519_def Let_def)

lemma sample_encryption:
  "\<exists>c. try_from_note clear_aead word_curve (Some (replicate 16 0)) MEMO_SENDER_RANDOM_NULL sample_note
     (address_data (sample_keys [1] 21)) (address_data (sample_keys [2] 22)) [1] = Inr c \<and>
     nc_blinded_receiver_viewing_key c \<noteq> 0"
proof -
  obtain key where "shared_symmetric_key word_curve [1] (fb32_bytes 3072) = Inr key" "length key = 32"
    using shared_key_agree [OF word_curve_ok sample_blinding] by blast
  then show ?thesis
    by (simp add: try_from_note_def address_data_def sample_keys_def sample_blinding map_key_error_def
        encrypt_v2_payload_def encrypt_in_place_16b_iv_def encrypt_in_place_with_iv_def clear_aead_def
        fb32_fb32_bytes Let_def)
qed

lemma sample_note_ok: "note_ok sample_note"
  by (simp add: note_ok_def sample_note_def)

lemma note_round_trip_witness:
  "\<exists>c key. try_from_note clear_aead word_curve (Some (replicate 16 0)) MEMO_SENDER_RANDOM_NULL sample_note
     (address_data (sample_keys [1] 21)) (address_data (sample_keys [2] 22)) [1] = Inr c \<and>
     decrypt_v2 clear_aead sum_list (nc_ciphertext c) (nc_memo c) key 22 = Inr sample_note"
proof -
  obtain c where c: "try_from_note clear_aead word_curve (Some (replicate 16 0)) MEMO_SENDER_RANDOM_NULL
      sample_note (address_data (sample_keys [1] 21)) (address_data (sample_keys [2] 22)) [1] = Inr c"
    using sample_encryption by blast
  from note_round_trip [OF clear_aead_ok word_curve_ok sample_note_ok _ _ _ _ c, of "[2]" sum_list] c
  show ?thesis by (auto simp: address_data_def sample_keys_def sample_note_def)
qed

lemma sender_note_round_trip_witness:
  "\<exists>c n'. try_from_note clear_aead word_curve (Some (replicate 16 0)) MEMO_SENDER_RANDOM_NULL sample_note
     (address_data (sample_keys [1] 21)) (address_data (sample_keys [2] 22)) [1] = Inr c \<and>
     decrypt_sender_note clear_aead word_curve sum_list c (commitment sum_list sample_note)
       (sample_keys [1] 21) = Some n' \<and> note_value n' = 1000"
proof -
  obtain c where c: "try_from_note clear_aead word_curve (Some (replicate 16 0)) MEMO_SENDER_RANDOM_NULL
      sample_note (address_data (sample_keys [1] 21)) (address_data (sample_keys [2] 22)) [1] = Inr c"
    "nc_blinded_receiver_viewing_key c \<noteq> 0" using sample_encryption by blast
  have v: "note_value sample_note = 1000" by (simp add: sample_note_def)
  from sender_note_round_trip [OF clear_aead_ok word_curve_ok sample_note_ok _ _ _ _ _ _ c(1) c(2),
      of "sample_keys [1] 21" "[2]" sum_list] c(1) v
  show ?thesis by (auto simp: address_data_def sample_keys_def) (auto simp: sample_note_def)
qed

end
