(* ===== verification/Utxo.thy ===== *)
theory Utxo
  imports NoteCrypto
begin

text \<open>
  \<open>core/src/utxo.rs\<close>: unspent notes with their tree position, nullifier and proof-of-innocence
  (POI) metadata. The lemmas describe the status map after a refresh and count its changes.
\<close>

section \<open>Data\<close>

record utxo_source =
  src_tx_hash :: b256
  src_block_number :: u64
  src_block_timestamp :: u64

datatype utxo_commitment_kind = ShieldCommitment | TransactCommitment

datatype poi_status = Valid | ShieldBlocked | ProofSubmitted | Missing | Unknown

definition is_recoverable :: "poi_status \<Rightarrow> bool" where
  "is_recoverable s = (case s of Missing \<Rightarrow> True | ProofSubmitted \<Rightarrow> True | Unknown \<Rightarrow> True | _ \<Rightarrow> False)"

record utxo_poi_metadata =
  poi_commitment_kind :: utxo_commitment_kind
  poi_commitment :: b256
  poi_npk :: b256
  poi_blinded_commitment :: b256
  poi_statuses :: "(b256, poi_status) btree_map"
  poi_refreshed_at :: "u64 option"

record utxo =
  utxo_note :: railgun_note
  utxo_tree :: u32
  utxo_position :: u64
  utxo_source :: utxo_source
  utxo_poi :: utxo_poi_metadata

record wallet_utxo =
  wu_utxo :: utxo
  wu_spent :: "utxo_source option"

section \<open>Operations\<close>

definition blinded_commitment_for :: "hash_fn \<Rightarrow> b256 \<Rightarrow> b256 \<Rightarrow> u32 \<Rightarrow> u64 \<Rightarrow> b256" where
  "blinded_commitment_for hash c npk tree position =
     (let global_tree_position = ucast tree * TREE_LEAF_COUNT_U256 + ucast position
      in poseidon hash [c, npk, global_tree_position])"

definition from_note :: "hash_fn \<Rightarrow> utxo_commitment_kind \<Rightarrow> railgun_note \<Rightarrow> u32 \<Rightarrow> u64 \<Rightarrow> utxo_poi_metadata" where
  "from_note hash kind n tree position =
     (let c = fb32 (u256_to_be_bytes (commitment hash n));
          npk = fb32 (u256_to_be_bytes (note_npk n))
      in \<lparr>poi_commitment_kind = kind, poi_commitment = c, poi_npk = npk,
          poi_blinded_commitment = blinded_commitment_for hash c npk tree position,
          poi_statuses = [], poi_refreshed_at = None\<rparr>)"

definition utxo_new ::
  "hash_fn \<Rightarrow> railgun_note \<Rightarrow> u32 \<Rightarrow> u64 \<Rightarrow> utxo_source \<Rightarrow> utxo_commitment_kind \<Rightarrow> utxo" where
  "utxo_new hash n tree position source kind =
     \<lparr>utxo_note = n, utxo_tree = tree, utxo_position = position, utxo_source = source,
      utxo_poi = from_note hash kind n tree position\<rparr>"

definition nullifier :: "hash_fn \<Rightarrow> u256 \<Rightarrow> utxo \<Rightarrow> u256" where
  "nullifier hash nullifying_key u = poseidon hash [nullifying_key, ucast (utxo_position u)]"

definition utxo_token_address :: "utxo \<Rightarrow> address" where
  "utxo_token_address u =
     (let token_bytes = u256_to_be_bytes (note_token_hash (utxo_note u))
      in word_of_nat (from_be (take 20 (drop 12 token_bytes))))"

definition wallet_utxo_new :: "utxo \<Rightarrow> wallet_utxo" where
  "wallet_utxo_new u = \<lparr>wu_utxo = u, wu_spent = None\<rparr>"

definition is_spent :: "wallet_utxo \<Rightarrow> bool" where
  "is_spent w \<longleftrightarrow> wu_spent w \<noteq> None"

definition is_valid_for_lists :: "utxo_poi_metadata \<Rightarrow> b256 list \<Rightarrow> bool" where
  "is_valid_for_lists p list_keys =
     list_all (\<lambda>k. case bt_get (poi_statuses p) k of None \<Rightarrow> False | Some s \<Rightarrow> s = Valid) list_keys"

definition has_recoverable_status_for_lists :: "utxo_poi_metadata \<Rightarrow> b256 list \<Rightarrow> bool" where
  "has_recoverable_status_for_lists p list_keys =
     list_ex (\<lambda>k. case bt_get (poi_statuses p) k of None \<Rightarrow> True | Some s \<Rightarrow> is_recoverable s) list_keys"

text \<open>The loop over the list keys shared by the two updates: the map and the number of changes.\<close>

fun set_statuses ::
  "(b256 \<Rightarrow> poi_status) \<Rightarrow> b256 list \<Rightarrow> (b256, poi_status) btree_map \<Rightarrow> nat \<Rightarrow> (b256, poi_status) btree_map \<times> nat" where
  "set_statuses f [] m changes = (m, changes)"
| "set_statuses f (k # ks) m changes =
     (let changes' = (if bt_get m k \<noteq> Some (f k) then changes + 1 else changes)
      in set_statuses f ks (bt_insert k (f k) m) changes')"

definition refreshed_status :: "(b256, poi_status) btree_map option \<Rightarrow> b256 \<Rightarrow> poi_status" where
  "refreshed_status statuses list_key =
     (case Option.bind statuses (\<lambda>per_list. bt_get per_list list_key) of Some s \<Rightarrow> s | None \<Rightarrow> Missing)"

definition apply_status_refresh ::
  "utxo_poi_metadata \<Rightarrow> b256 list \<Rightarrow> (b256, poi_status) btree_map option \<Rightarrow> u64 \<Rightarrow> utxo_poi_metadata \<times> nat" where
  "apply_status_refresh p list_keys statuses refreshed_at =
     (let old_refreshed_at = poi_refreshed_at p;
          (m, status_changes) = set_statuses (refreshed_status statuses) list_keys (poi_statuses p) 0;
          p' = p\<lparr>poi_statuses := m, poi_refreshed_at := Some refreshed_at\<rparr>
      in (p', if old_refreshed_at \<noteq> Some refreshed_at then status_changes + 1 else status_changes))"

definition mark_statuses_unknown_for_lists ::
  "utxo_poi_metadata \<Rightarrow> b256 list \<Rightarrow> utxo_poi_metadata \<times> nat" where
  "mark_statuses_unknown_for_lists p list_keys =
     (case set_statuses (\<lambda>_. Unknown) list_keys (poi_statuses p) 0 of
        (m, status_changes) \<Rightarrow> (p\<lparr>poi_statuses := m\<rparr>, status_changes))"

section \<open>Status updates\<close>

lemma set_statuses_get:
  "bt_get (fst (set_statuses f ks m c)) k = (if k \<in> set ks then Some (f k) else bt_get m k)"
  by (induction ks arbitrary: m c) (auto simp: Let_def)

lemma set_statuses_inv: "bt_inv m \<Longrightarrow> bt_inv (fst (set_statuses f ks m c))"
  by (induction ks arbitrary: m c) (auto simp: Let_def)

text \<open>Each key is counted at its first occurrence, when its status differs.\<close>

lemma set_statuses_changes:
  "snd (set_statuses f ks m c) = c + card {k \<in> set ks. bt_get m k \<noteq> Some (f k)}"
proof (induction ks arbitrary: m c)
  case (Cons k ks)
  define T where "T = {x \<in> set ks. bt_get m x \<noteq> Some (f x)} - {k}"
  have T: "{x \<in> set ks. bt_get (bt_insert k (f k) m) x \<noteq> Some (f x)} = T" by (auto simp: T_def)
  have "finite T" "k \<notin> T" by (simp_all add: T_def)
  then have card: "card (insert k T) = Suc (card T)" by (rule card_insert_disjoint)
  have "{x \<in> set (k # ks). bt_get m x \<noteq> Some (f x)} = (if bt_get m k \<noteq> Some (f k) then insert k T else T)"
    by (auto simp: T_def)
  then show ?case
    unfolding set_statuses.simps Let_def Cons.IH T by (simp add: card)
qed simp

lemma refresh_get:
  "bt_get (poi_statuses (fst (apply_status_refresh p ks statuses t))) k =
     (if k \<in> set ks then Some (refreshed_status statuses k) else bt_get (poi_statuses p) k)"
  using set_statuses_get [of "refreshed_status statuses" ks "poi_statuses p" 0 k]
  by (simp add: apply_status_refresh_def Let_def case_prod_beta)

lemma refresh_changes:
  "snd (apply_status_refresh p ks statuses t) =
     card {k \<in> set ks. bt_get (poi_statuses p) k \<noteq> Some (refreshed_status statuses k)} +
     (if poi_refreshed_at p = Some t then 0 else 1)"
  using set_statuses_changes [of "refreshed_status statuses" ks "poi_statuses p" 0]
  by (simp add: apply_status_refresh_def Let_def case_prod_beta)

lemma refresh_time: "poi_refreshed_at (fst (apply_status_refresh p ks statuses t)) = Some t"
  by (simp add: apply_status_refresh_def Let_def case_prod_beta)

lemma mark_unknown_get:
  "bt_get (poi_statuses (fst (mark_statuses_unknown_for_lists p ks))) k =
     (if k \<in> set ks then Some Unknown else bt_get (poi_statuses p) k)"
  using set_statuses_get [of "\<lambda>_. Unknown" ks "poi_statuses p" 0 k]
  by (simp add: mark_statuses_unknown_for_lists_def case_prod_beta)

lemma mark_unknown_changes:
  "snd (mark_statuses_unknown_for_lists p ks) = card {k \<in> set ks. bt_get (poi_statuses p) k \<noteq> Some Unknown}"
  "poi_refreshed_at (fst (mark_statuses_unknown_for_lists p ks)) = poi_refreshed_at p"
  using set_statuses_changes [of "\<lambda>_. Unknown" ks "poi_statuses p" 0]
  by (simp_all add: mark_statuses_unknown_for_lists_def case_prod_beta)

section \<open>Properties\<close>

text \<open>
  Claim C39. A status refresh sets every requested list to the reported status (\<open>Missing\<close> where none is
  reported), leaves the other lists alone, and returns the number of lists whose status changed
  plus one if the refresh time changed; in particular repeating it reports no change.
\<close>

theorem apply_status_refresh_effect:
  "bt_get (poi_statuses (fst (apply_status_refresh p ks statuses t))) k =
       (if k \<in> set ks then Some (refreshed_status statuses k) else bt_get (poi_statuses p) k) \<and>
     snd (apply_status_refresh p ks statuses t) =
       card {k \<in> set ks. bt_get (poi_statuses p) k \<noteq> Some (refreshed_status statuses k)} +
       (if poi_refreshed_at p = Some t then 0 else 1) \<and>
     snd (apply_status_refresh (fst (apply_status_refresh p ks statuses t)) ks statuses t) = 0"
  by (simp add: refresh_get refresh_changes refresh_time)

text \<open>
  Claim C38. Marking the statuses unknown applies to every requested list: none of them counts as
  valid afterwards and each is recoverable, whatever its status was, while every other list keeps its
  status and so its validity; the number of changes is the number of requested lists that were not
  unknown, and the time of the last refresh stays. Until the next refresh the note is valid for the
  requested lists only if none was requested; the refresh makes it valid for all of them exactly when
  it reports \<open>Valid\<close> for each.
\<close>

theorem mark_unknown_blocks_until_refresh:
  fixes p ks
  defines "q \<equiv> fst (mark_statuses_unknown_for_lists p ks)"
  shows "(is_valid_for_lists q [k] \<longleftrightarrow> k \<notin> set ks \<and> is_valid_for_lists p [k]) \<and>
     (has_recoverable_status_for_lists q [k] \<longleftrightarrow> k \<in> set ks \<or> has_recoverable_status_for_lists p [k]) \<and>
     bt_get (poi_statuses q) k = (if k \<in> set ks then Some Unknown else bt_get (poi_statuses p) k) \<and>
     snd (mark_statuses_unknown_for_lists p ks) = card {k \<in> set ks. bt_get (poi_statuses p) k \<noteq> Some Unknown} \<and>
     poi_refreshed_at q = poi_refreshed_at p \<and>
     (is_valid_for_lists q ks \<longleftrightarrow> ks = []) \<and>
     (is_valid_for_lists (fst (apply_status_refresh q ks statuses t)) ks \<longleftrightarrow>
       list_all (\<lambda>k. refreshed_status statuses k = Valid) ks)"
  by (cases ks) (auto simp: q_def is_valid_for_lists_def has_recoverable_status_for_lists_def
      mark_unknown_get mark_unknown_changes refresh_get is_recoverable_def list_all_iff)

lemma mark_unknown_blocks_until_refresh_witness:
  "\<not> is_valid_for_lists (fst (mark_statuses_unknown_for_lists
      (fst (apply_status_refresh (from_note sum_list ShieldCommitment sample_note 0 0) [5, 6] (Some [(5, Valid), (6, Valid)]) 9)) [5, 6])) [6] \<and>
   is_valid_for_lists (fst (apply_status_refresh (fst (mark_statuses_unknown_for_lists
      (from_note sum_list ShieldCommitment sample_note 0 0) [5])) [5] (Some [(5, Valid)]) 9)) [5]"
  using mark_unknown_blocks_until_refresh [of _ "[5, 6]" 6]
    mark_unknown_blocks_until_refresh [of "from_note sum_list ShieldCommitment sample_note 0 0" "[5]" 5 "Some [(5, Valid)]" 9]
  by (simp add: refreshed_status_def bt_get_def)

text \<open>
  The token of a note built for a token address reads back as that address, for unshield and
  change notes alike.
\<close>

theorem token_address_round_trip:
  "utxo_token_address (utxo_new hash (new_unshield to a v) tree pos source kind) = a \<and>
   utxo_token_address (utxo_new hash (new_change hash mpk a v random) tree pos source kind) = a"
proof -
  have a: "unat a < 2 ^ 160" using unsigned_less [of a] by simp
  have "from_be (address_bytes a) = unat a"
    using a by (simp add: address_bytes_def from_be_be_bytes)
  moreover have "unat (word_of_nat x :: u256) = x" if "x < 2 ^ 160" for x
    using that by (simp add: unat_of_nat)
  ultimately have th: "unat (u256_from_be_slice (address_bytes a)) = unat a"
    using a by (simp only: u256_from_be_slice_def)
  have "take 20 (drop 12 (u256_to_be_bytes (u256_from_be_slice (address_bytes a)))) = be_bytes 20 (unat a)"
    using be_bytes_drop [of 12 20 "unat a"] by (simp add: u256_to_be_bytes_def th)
  then have "word_of_nat (from_be (take 20 (drop 12 (u256_to_be_bytes (u256_from_be_slice (address_bytes a)))))) = a"
    using a by (simp add: from_be_be_bytes)
  then show ?thesis
    by (simp add: utxo_token_address_def utxo_new_def new_unshield_def new_change_def Let_def)
qed

end
