(* ===== verification/SelectionSearch.thy ===== *)
theory SelectionSearch
  imports Utxo
begin

text \<open>
  \<open>SelectionSearch\<close> of \<open>railgun-wallet/src/tx/builder/selection.rs\<close> with the orders it uses: a
  depth-first search for a fixed number of notes of one tree that cover an amount with the least
  excess. The fields of the struct that never change during a search form a record of their own;
  the others are the search state. The lemmas show that a result is a choice of distinct notes
  the signature admits; for a tree of at most 13 notes, that its total is the least possible; and for
  a tree of any size, that a result is found whenever some choice with room for a change output
  covers the amount.
\<close>

section \<open>Limits\<close>

definition MAX_CIRCUIT_INPUTS :: nat where
  "MAX_CIRCUIT_INPUTS = 13"

definition MAX_SIGNATURE_INPUTS :: nat where
  "MAX_SIGNATURE_INPUTS = 16"

definition MAX_BATCH_TRANSACTIONS :: nat where
  "MAX_BATCH_TRANSACTIONS = 8"

definition MAX_ALTERNATE_BATCH_CANDIDATES :: nat where
  "MAX_ALTERNATE_BATCH_CANDIDATES = 1024"

definition MAX_PARTIAL_SELECTION_CANDIDATES_PER_TREE :: nat where
  "MAX_PARTIAL_SELECTION_CANDIDATES_PER_TREE = 32"

definition MAX_SELECTION_SEARCH_VISITS :: nat where
  "MAX_SELECTION_SEARCH_VISITS = 2 ^ MAX_CIRCUIT_INPUTS"

definition MAX_MULTI_TRANSACTION_SEARCH_NODES :: nat where
  "MAX_MULTI_TRANSACTION_SEARCH_NODES = MAX_ALTERNATE_BATCH_CANDIDATES"

definition max_inputs_for_base_outputs :: "nat \<Rightarrow> nat" where
  "max_inputs_for_base_outputs base_output_count =
     (let signature_room = MAX_SIGNATURE_INPUTS - (2 + base_output_count)
      in if signature_room < MAX_CIRCUIT_INPUTS then signature_room else MAX_CIRCUIT_INPUTS)"

section \<open>Selections and their orders\<close>

record utxo_selection =
  sel_utxos :: "utxo list"
  sel_total :: u256

definition utxo_key :: "utxo \<Rightarrow> u32 \<times> u64" where
  "utxo_key u = (utxo_tree u, utxo_position u)"

definition utxo_value :: "utxo \<Rightarrow> u256" where
  "utxo_value u = note_value (utxo_note u)"

definition position_key :: "utxo_selection \<Rightarrow> (u32 \<times> u64) list" where
  "position_key s = map utxo_key (sel_utxos s)"

definition is_better_for_amount_than :: "utxo_selection \<Rightarrow> utxo_selection \<Rightarrow> u256 \<Rightarrow> bool" where
  "is_better_for_amount_than s best amount =
     (case cmp (length (sel_utxos s)) (length (sel_utxos best)) of
        Less \<Rightarrow> True
      | Greater \<Rightarrow> False
      | Equal \<Rightarrow>
          (case cmp (sel_total s - amount) (sel_total best - amount) of
             Less \<Rightarrow> True
           | Greater \<Rightarrow> False
           | Equal \<Rightarrow> position_key s < position_key best))"

definition is_better_max_than :: "utxo_selection \<Rightarrow> utxo_selection \<Rightarrow> bool" where
  "is_better_max_than s best =
     (case cmp (sel_total s) (sel_total best) of
        Greater \<Rightarrow> True
      | Less \<Rightarrow> False
      | Equal \<Rightarrow>
          (case cmp (length (sel_utxos s)) (length (sel_utxos best)) of
             Less \<Rightarrow> True
           | Greater \<Rightarrow> False
           | Equal \<Rightarrow> position_key s < position_key best))"

definition selection_amount_order :: "u256 \<Rightarrow> utxo_selection \<Rightarrow> utxo_selection \<Rightarrow> ordering" where
  "selection_amount_order amount a b =
     then_with (then_with (cmp (length (sel_utxos a)) (length (sel_utxos b)))
         (cmp (sel_total a - amount) (sel_total b - amount)))
       (cmp (position_key a) (position_key b))"

definition selection_max_order :: "utxo_selection \<Rightarrow> utxo_selection \<Rightarrow> ordering" where
  "selection_max_order a b =
     then_with (then_with (cmp (sel_total b) (sel_total a))
         (cmp (length (sel_utxos a)) (length (sel_utxos b))))
       (cmp (position_key a) (position_key b))"

definition search_candidate_order :: "utxo \<Rightarrow> utxo \<Rightarrow> ordering" where
  "search_candidate_order a b =
     then_with (then_with (cmp (utxo_value b) (utxo_value a)) (cmp (utxo_tree a) (utxo_tree b)))
       (cmp (utxo_position a) (utxo_position b))"

definition sort_search_candidates :: "utxo list \<Rightarrow> utxo list" where
  "sort_search_candidates candidates = sort_by search_candidate_order candidates"

definition normalize_selection :: "utxo list \<Rightarrow> utxo list" where
  "normalize_selection utxos = sort_by (\<lambda>a b. cmp (utxo_key a) (utxo_key b)) utxos"

definition value_sum :: "utxo list \<Rightarrow> u256" where
  "value_sum us = foldl (\<lambda>s u. s + utxo_value u) 0 us"

definition max_possible_from :: "utxo list \<Rightarrow> nat \<Rightarrow> nat \<Rightarrow> u256" where
  "max_possible_from candidates start remaining = value_sum (take remaining (drop start candidates))"

definition min_possible_from :: "utxo list \<Rightarrow> nat \<Rightarrow> u256" where
  "min_possible_from candidates remaining = value_sum (drop (length candidates - remaining) candidates)"

section \<open>\<open>SelectionSearch\<close>\<close>

record selection_search =
  ss_candidates :: "utxo list"
  ss_amount :: u256
  ss_target_count :: nat
  ss_base_output_count :: nat

record selection_state =
  st_selected :: "nat list"
  st_best :: "utxo_selection option"
  st_visits_left :: nat

definition exact_only :: "selection_search \<Rightarrow> bool" where
  "exact_only s \<longleftrightarrow> MAX_SIGNATURE_INPUTS < 2 + ss_target_count s + ss_base_output_count s + 1"

definition best_total_at_most :: "selection_state \<Rightarrow> u256 \<Rightarrow> bool" where
  "best_total_at_most st tot = (case st_best st of None \<Rightarrow> False | Some best \<Rightarrow> sel_total best \<le> tot)"

definition record_if_valid :: "selection_search \<Rightarrow> u256 \<Rightarrow> selection_state \<Rightarrow> selection_state" where
  "record_if_valid s tot st =
     (if tot < ss_amount s then st
      else
        let output_count = ss_base_output_count s + (if ss_amount s < tot then 1 else 0)
        in if MAX_SIGNATURE_INPUTS < 2 + ss_target_count s + output_count then st
           else
             let utxos = normalize_selection (map (\<lambda>i. ss_candidates s ! i) (st_selected st));
                 selection = \<lparr>sel_utxos = utxos, sel_total = tot\<rparr>
             in if (case st_best st of None \<Rightarrow> True
                    | Some best \<Rightarrow> is_better_for_amount_than selection best (ss_amount s))
                then st\<lparr>st_best := Some selection\<rparr> else st)"

text \<open>
  \<open>search\<close> and its loop over the next index; \<open>continue\<close> and \<open>return\<close> inside the loop are the
  branches that go on with the next index and that hand back the state.
\<close>

function ss_search :: "selection_search \<Rightarrow> nat \<Rightarrow> nat \<Rightarrow> u256 \<Rightarrow> selection_state \<Rightarrow> selection_state"
  and ss_loop :: "selection_search \<Rightarrow> nat \<Rightarrow> nat \<Rightarrow> nat \<Rightarrow> u256 \<Rightarrow> selection_state \<Rightarrow> selection_state" where
  "ss_search s start remaining tot st =
     (if remaining = 0 then record_if_valid s tot st
      else if length (ss_candidates s) - start < remaining then st
      else if exact_only s \<and> ss_amount s < tot + min_possible_from (ss_candidates s) remaining then st
      else if \<not> exact_only s \<and> best_total_at_most st tot then st
      else if tot + max_possible_from (ss_candidates s) start remaining < ss_amount s then st
      else if \<not> exact_only s \<and> best_total_at_most st (tot + min_possible_from (ss_candidates s) remaining)
        then st
      else ss_loop s start start remaining tot st)"
| "ss_loop s start index remaining tot st =
     (if length (ss_candidates s) - remaining < index then st
      else if start < index \<and>
          utxo_value (ss_candidates s ! index) = utxo_value (ss_candidates s ! (index - 1))
        then ss_loop s start (index + 1) remaining tot st
      else if st_visits_left st = 0 then st
      else
        let st1 = st\<lparr>st_visits_left := st_visits_left st - 1\<rparr>;
            next_total = tot + utxo_value (ss_candidates s ! index)
        in if exact_only s \<and> ss_amount s < next_total
             then ss_loop s start (index + 1) remaining tot st1
           else if \<not> exact_only s \<and> best_total_at_most st1 next_total
             then ss_loop s start (index + 1) remaining tot st1
           else
             let st2 = ss_search s (index + 1) (remaining - 1) next_total
                         (st1\<lparr>st_selected := st_selected st1 @ [index]\<rparr>);
                 st3 = st2\<lparr>st_selected := butlast (st_selected st2)\<rparr>
             in ss_loop s start (index + 1) remaining tot st3)"
  by pat_completeness auto
termination
  by (relation "measure (\<lambda>x. case x of
        Inl (s, start, remaining, tot, st) \<Rightarrow> 2 * (length (ss_candidates s) + 1 - start) + 1
      | Inr (s, start, index, remaining, tot, st) \<Rightarrow> 2 * (length (ss_candidates s) + 1 - index))") auto

declare ss_search.simps [simp del] ss_loop.simps [simp del]

definition ss_new :: "utxo list \<Rightarrow> u256 \<Rightarrow> nat \<Rightarrow> nat \<Rightarrow> selection_search" where
  "ss_new candidates amount target_count base_output_count =
     \<lparr>ss_candidates = candidates, ss_amount = amount, ss_target_count = target_count,
      ss_base_output_count = base_output_count\<rparr>"

definition ss_start :: selection_state where
  "ss_start = \<lparr>st_selected = [], st_best = None, st_visits_left = MAX_SELECTION_SEARCH_VISITS\<rparr>"

definition ss_run :: "selection_search \<Rightarrow> selection_state" where
  "ss_run s = ss_search s 0 (ss_target_count s) 0 ss_start"

section \<open>Orders\<close>

lemma total_cmp_search_candidate_order: "total_cmp search_candidate_order"
  unfolding search_candidate_order_def
  by (intro total_cmp_then total_cmp_key total_cmp_key_rev)

lemma total_cmp_selection_max_order: "total_cmp selection_max_order"
  unfolding selection_max_order_def
  by (intro total_cmp_then total_cmp_key total_cmp_key_rev)

lemma total_cmp_selection_amount_order: "total_cmp (selection_amount_order amount)"
  unfolding selection_amount_order_def
  by (intro total_cmp_then total_cmp_key)

interpretation candidate_order: total_cmp search_candidate_order
  by (rule total_cmp_search_candidate_order)

interpretation max_order: total_cmp selection_max_order
  by (rule total_cmp_selection_max_order)

interpretation amount_order: total_cmp "selection_amount_order amount" for amount
  by (rule total_cmp_selection_amount_order)

text \<open>Candidates in search order have descending values.\<close>

definition descending :: "utxo list \<Rightarrow> bool" where
  "descending us \<longleftrightarrow> sorted_wrt (\<lambda>a b. utxo_value b \<le> utxo_value a) us"

lemma descending_sort: "descending (sort_search_candidates us)"
  unfolding descending_def sort_search_candidates_def
  by (rule sorted_wrt_mono_rel [OF _ candidate_order.sorted_sort_by])
     (auto simp: search_candidate_order_def not_less)

lemma set_sort_search_candidates [simp]:
  "set (sort_search_candidates us) = set us" "mset (sort_search_candidates us) = mset us"
  "length (sort_search_candidates us) = length us"
  by (simp_all add: sort_search_candidates_def)

lemma set_normalize_selection [simp]:
  "set (normalize_selection us) = set us" "mset (normalize_selection us) = mset us"
  "length (normalize_selection us) = length us"
  by (simp_all add: normalize_selection_def)

section \<open>Sums\<close>

definition val :: "utxo \<Rightarrow> nat" where
  "val u = unat (utxo_value u)"

definition nat_sum :: "utxo list \<Rightarrow> nat" where
  "nat_sum us = sum_list (map val us)"

lemma nat_sum_simps [simp]:
  "nat_sum [] = 0" "nat_sum (u # us) = val u + nat_sum us" "nat_sum (us @ vs) = nat_sum us + nat_sum vs"
  by (simp_all add: nat_sum_def)

lemma value_sum_snoc [simp]:
  "value_sum [] = 0" "value_sum (us @ [u]) = value_sum us + utxo_value u"
  by (simp_all add: value_sum_def)

lemma unat_value_sum: "nat_sum us < 2 ^ 256 \<Longrightarrow> unat (value_sum us) = nat_sum us"
proof (induction us rule: rev_induct)
  case (snoc u us)
  then have "unat (value_sum us) = nat_sum us" by simp
  then show ?case
    using snoc.prems by (simp add: unat_add_no_overflow val_def)
qed simp

lemma nat_sum_mset: "mset us = mset vs \<Longrightarrow> nat_sum us = nat_sum vs"
  unfolding nat_sum_def by (metis mset_map sum_mset_sum_list)

lemma nat_sum_submset: "mset us \<subseteq># mset vs \<Longrightarrow> nat_sum us \<le> nat_sum vs"
proof -
  assume "mset us \<subseteq># mset vs"
  then obtain M where "mset vs = mset us + M" by (metis subset_mset.add_diff_inverse)
  then have "nat_sum vs = nat_sum us + sum_mset (image_mset val M)"
    unfolding nat_sum_def by (metis image_mset_union mset_map sum_mset.union sum_mset_sum_list)
  then show ?thesis by simp
qed

lemma nat_sum_take_drop: "nat_sum (take k us) + nat_sum (drop k us) = nat_sum us"
  by (metis append_take_drop_id nat_sum_simps(3))

text \<open>All totals of \<open>k\<close> notes: the specification the searches are measured against.\<close>

fun pick_sums :: "nat list \<Rightarrow> nat \<Rightarrow> nat set" where
  "pick_sums vs 0 = {0}"
| "pick_sums [] (Suc k) = {}"
| "pick_sums (v # vs) (Suc k) = (\<lambda>x. v + x) ` pick_sums vs k \<union> pick_sums vs (Suc k)"

lemma pick_sums_Cons_mono: "pick_sums vs k \<subseteq> pick_sums (v # vs) k"
  by (cases k) auto

lemma pick_sums_short: "length vs < k \<Longrightarrow> pick_sums vs k = {}"
  by (induction vs k rule: pick_sums.induct) auto

lemma pick_sums_drop:
  "i < length vs \<Longrightarrow> pick_sums (drop i vs) (Suc k) =
     (\<lambda>x. vs ! i + x) ` pick_sums (drop (Suc i) vs) k \<union> pick_sums (drop (Suc i) vs) (Suc k)"
  by (simp flip: Cons_nth_drop_Suc)

lemma pick_sums_drop_mono: "pick_sums (drop (Suc i) vs) k \<subseteq> pick_sums (drop i vs) k"
  by (cases "i < length vs") (simp_all add: pick_sums_Cons_mono flip: Cons_nth_drop_Suc)

lemma pick_sums_le_sum: "x \<in> pick_sums vs k \<Longrightarrow> x \<le> sum_list vs"
  by (induction vs k arbitrary: x rule: pick_sums.induct) (auto, fastforce)

lemma sum_take_Suc_le:
  fixes v :: nat
  assumes "\<forall>x \<in> set vs. x \<le> v"
  shows "sum_list (take (Suc k) vs) \<le> v + sum_list (take k vs)"
proof (cases "k < length vs")
  case True
  then have "vs ! k \<le> v" using assms by simp
  with True show ?thesis by (simp add: take_Suc_conv_app_nth)
qed simp

lemma pick_sums_le_max:
  "sorted_wrt (\<ge>) vs \<Longrightarrow> x \<in> pick_sums vs k \<Longrightarrow> x \<le> sum_list (take k vs)"
proof (induction vs k arbitrary: x rule: pick_sums.induct)
  case (3 v vs k)
  then have vs: "sorted_wrt (\<ge>) vs" "\<forall>y \<in> set vs. y \<le> v" by auto
  from 3(4) consider y where "x = v + y" "y \<in> pick_sums vs k" | "x \<in> pick_sums vs (Suc k)" by auto
  then show ?case
  proof cases
    case 1
    then show ?thesis using 3(1) [OF vs(1)] by simp
  next
    case 2
    then show ?thesis using 3(2) [OF vs(1)] sum_take_Suc_le [OF vs(2), of k] by fastforce
  qed
qed auto

lemma pick_sums_ge_min:
  "sorted_wrt (\<ge>) vs \<Longrightarrow> x \<in> pick_sums vs k \<Longrightarrow> sum_list (drop (length vs - k) vs) \<le> x"
proof (induction vs k arbitrary: x rule: pick_sums.induct)
  case (3 v vs k)
  then have vs: "sorted_wrt (\<ge>) vs" "\<forall>y \<in> set vs. y \<le> v" by auto
  from 3(4) consider (pick) y where "x = v + y" "y \<in> pick_sums vs k" | (skip) "x \<in> pick_sums vs (Suc k)" by auto
  then show ?case
  proof cases
    case pick
    then have k: "k \<le> length vs" using pick_sums_short [of vs k] by force
    have y: "sum_list (drop (length vs - k) vs) \<le> y" using 3(1) [OF vs(1)] pick by simp
    show ?thesis
    proof (cases "k = length vs")
      case True
      then show ?thesis using y pick by simp
    next
      case False
      with k have i: "length vs - k = Suc (length vs - Suc k)" "length vs - Suc k < length vs" by simp_all
      then have "drop (length vs - Suc k) vs = vs ! (length vs - Suc k) # drop (length vs - k) vs"
        by (metis Cons_nth_drop_Suc)
      moreover have "vs ! (length vs - Suc k) \<le> v" using i vs(2) by simp
      ultimately show ?thesis using y pick i by simp
    qed
  next
    case skip
    then have "Suc k \<le> length vs" using pick_sums_short [of vs "Suc k"] by force
    then have "length (v # vs) - Suc k = Suc (length vs - Suc k)" by simp
    then show ?thesis using 3(2) [OF vs(1) skip] by simp
  qed
qed auto

lemma pick_sums_ge_min_from:
  assumes "sorted_wrt (\<ge>) vs" "x \<in> pick_sums (drop start vs) k"
  shows "sum_list (drop (length vs - k) vs) \<le> x"
proof -
  have k: "k \<le> length vs - start" using assms(2) pick_sums_short [of "drop start vs" k] by force
  have "sorted_wrt (\<ge>) (drop start vs)" using assms(1) by (simp add: sorted_wrt_drop)
  from pick_sums_ge_min [OF this assms(2)]
  have "sum_list (drop (length vs - start - k) (drop start vs)) \<le> x" by simp
  moreover have "drop (length vs - start - k) (drop start vs) = drop (length vs - k) vs \<or> k = 0"
    using k by (cases "k = 0") (auto simp: algebra_simps)
  ultimately show ?thesis by auto
qed

section \<open>Least elements\<close>

definition min_set :: "nat set \<Rightarrow> nat set" where
  "min_set A = {a \<in> A. \<forall>b \<in> A. a \<le> b}"

lemma min_set_absorb:
  assumes "\<And>b. b \<in> B \<Longrightarrow> \<exists>a \<in> A. a \<le> b"
  shows "min_set (A \<union> B) = min_set A"
proof (intro set_eqI iffI)
  fix x assume x: "x \<in> min_set (A \<union> B)"
  then have "x \<in> A"
    using assms [of x] by (auto simp: min_set_def) (metis UnI1 le_antisym)
  with x show "x \<in> min_set A" by (simp add: min_set_def)
next
  fix x assume x: "x \<in> min_set A"
  then have "x \<le> b" if "b \<in> B" for b
    using assms [OF that] by (auto simp: min_set_def intro: le_trans)
  with x show "x \<in> min_set (A \<union> B)" by (auto simp: min_set_def)
qed

lemma min_set_dominates: "b \<in> A \<Longrightarrow> \<exists>a \<in> min_set A. a \<le> b"
proof -
  assume "b \<in> A"
  then have "(LEAST x. x \<in> A) \<in> min_set A"
    by (auto simp: min_set_def intro: LeastI Least_le)
  moreover have "(LEAST x. x \<in> A) \<le> b" using \<open>b \<in> A\<close> by (rule Least_le)
  ultimately show ?thesis by blast
qed

lemma min_set_min_set: "min_set (min_set A \<union> B) = min_set (A \<union> B)"
proof -
  have "min_set ((min_set A \<union> B) \<union> A) = min_set (min_set A \<union> B)"
    by (rule min_set_absorb) (use min_set_dominates in fastforce)
  moreover have "(min_set A \<union> B) \<union> A = A \<union> B" by (auto simp: min_set_def)
  ultimately show ?thesis by simp
qed

lemma min_set_single [simp]: "min_set {a} = {a}" "min_set {} = {}"
  by (auto simp: min_set_def)

lemma min_set_idem [simp]: "min_set (min_set A) = min_set A"
  by (auto simp: min_set_def)

section \<open>Soundness of \<open>SelectionSearch\<close>\<close>

definition picked :: "utxo list \<Rightarrow> nat list \<Rightarrow> utxo list" where
  "picked cs is = map (\<lambda>i. cs ! i) is"

lemma picked_snoc [simp]: "picked cs (is @ [i]) = picked cs is @ [cs ! i]" "picked cs [] = []"
  by (simp_all add: picked_def)

lemma length_picked [simp]: "length (picked cs is) = length is"
  by (simp add: picked_def)

text \<open>Increasing indices below a bound: a choice of notes, each at most once.\<close>

definition indices_below :: "nat \<Rightarrow> nat list \<Rightarrow> bool" where
  "indices_below n is \<longleftrightarrow> sorted_wrt (<) is \<and> (\<forall>i \<in> set is. i < n)"

lemma indices_below_snoc:
  "indices_below n is \<Longrightarrow> n \<le> i \<Longrightarrow> i < m \<Longrightarrow> indices_below m (is @ [i])"
  by (auto simp: indices_below_def sorted_wrt_append)

lemma indices_below_mono: "indices_below n is \<Longrightarrow> n \<le> m \<Longrightarrow> indices_below m is"
  by (auto simp: indices_below_def)

lemma picked_submset: "indices_below (length cs) is \<Longrightarrow> mset (picked cs is) \<subseteq># mset cs"
proof -
  assume idx: "indices_below (length cs) is"
  then have "distinct is" by (simp add: indices_below_def strict_sorted_iff)
  moreover have "set is \<subseteq> set [0 ..< length cs]" using idx by (auto simp: indices_below_def)
  ultimately have "mset is \<subseteq># mset [0 ..< length cs]"
    by (metis distinct_upt finite_set mset_set_set subset_imp_msubset_mset_set)
  then have "image_mset (\<lambda>i. cs ! i) (mset is) \<subseteq># image_mset (\<lambda>i. cs ! i) (mset [0 ..< length cs])"
    by (rule image_mset_subseteq_mono)
  moreover have "image_mset (\<lambda>i. cs ! i) (mset [0 ..< length cs]) = mset cs"
    by (metis map_nth mset_map)
  ultimately show ?thesis by (simp add: picked_def)
qed

lemma picked_nat_sum: "indices_below (length cs) is \<Longrightarrow> nat_sum (picked cs is) \<le> nat_sum cs"
  by (intro nat_sum_submset picked_submset)

text \<open>What a recorded selection is.\<close>

definition sel_ok :: "selection_search \<Rightarrow> utxo_selection \<Rightarrow> bool" where
  "sel_ok s b \<longleftrightarrow>
     (\<exists>is. indices_below (length (ss_candidates s)) is \<and> length is = ss_target_count s \<and>
        sel_utxos b = normalize_selection (picked (ss_candidates s) is) \<and>
        sel_total b = value_sum (picked (ss_candidates s) is)) \<and>
     ss_amount s \<le> sel_total b \<and>
     2 + ss_target_count s + ss_base_output_count s + (if ss_amount s < sel_total b then 1 else 0)
       \<le> MAX_SIGNATURE_INPUTS"

definition best_ok :: "selection_search \<Rightarrow> selection_state \<Rightarrow> bool" where
  "best_ok s st \<longleftrightarrow> (\<forall>b. st_best st = Some b \<longrightarrow> sel_ok s b)"

text \<open>The state in which \<open>search\<close> is entered: the chosen indices, how many are missing, their total.\<close>

definition sel_pre :: "selection_search \<Rightarrow> nat \<Rightarrow> nat \<Rightarrow> u256 \<Rightarrow> selection_state \<Rightarrow> bool" where
  "sel_pre s start remaining tot st \<longleftrightarrow>
     indices_below start (st_selected st) \<and> start \<le> length (ss_candidates s) \<and>
     length (st_selected st) + remaining = ss_target_count s \<and>
     tot = value_sum (picked (ss_candidates s) (st_selected st))"

lemma sel_pre_next:
  assumes "sel_pre s start remaining tot st" "start \<le> index" "index < length (ss_candidates s)" "0 < remaining"
  shows "sel_pre s (index + 1) (remaining - 1) (tot + utxo_value (ss_candidates s ! index))
     (st\<lparr>st_visits_left := v, st_selected := st_selected st @ [index]\<rparr>)"
  using assms indices_below_snoc [of start "st_selected st" index "index + 1"]
  by (auto simp: sel_pre_def)

lemma record_sound:
  assumes "sel_pre s start 0 tot st" "best_ok s st"
  shows "st_selected (record_if_valid s tot st) = st_selected st" "best_ok s (record_if_valid s tot st)"
    "st_visits_left (record_if_valid s tot st) = st_visits_left st"
proof -
  let ?b = "\<lparr>sel_utxos = normalize_selection (picked (ss_candidates s) (st_selected st)), sel_total = tot\<rparr>"
  have "sel_ok s ?b" if "\<not> tot < ss_amount s"
    "\<not> MAX_SIGNATURE_INPUTS < 2 + ss_target_count s + (ss_base_output_count s + (if ss_amount s < tot then 1 else 0))"
  proof -
    have "indices_below (length (ss_candidates s)) (st_selected st)"
      using assms(1) by (auto simp: sel_pre_def intro: indices_below_mono)
    moreover have "length (st_selected st) = ss_target_count s"
      "tot = value_sum (picked (ss_candidates s) (st_selected st))"
      using assms(1) by (simp_all add: sel_pre_def)
    ultimately show ?thesis using that unfolding sel_ok_def by auto
  qed
  then show "best_ok s (record_if_valid s tot st)"
    using assms(2) by (auto simp: record_if_valid_def best_ok_def picked_def Let_def split: if_splits)
qed (simp_all add: record_if_valid_def Let_def)

text \<open>
  The structure of the search, for the proofs: when it is cut off, what one visit of the loop
  does, and the induction over the remaining candidates.
\<close>

definition ss_cut :: "selection_search \<Rightarrow> nat \<Rightarrow> nat \<Rightarrow> u256 \<Rightarrow> selection_state \<Rightarrow> bool" where
  "ss_cut s start remaining tot st \<longleftrightarrow>
     length (ss_candidates s) - start < remaining \<or>
     exact_only s \<and> ss_amount s < tot + min_possible_from (ss_candidates s) remaining \<or>
     \<not> exact_only s \<and> best_total_at_most st tot \<or>
     tot + max_possible_from (ss_candidates s) start remaining < ss_amount s \<or>
     \<not> exact_only s \<and> best_total_at_most st (tot + min_possible_from (ss_candidates s) remaining)"

definition ss_skip :: "selection_search \<Rightarrow> u256 \<Rightarrow> selection_state \<Rightarrow> bool" where
  "ss_skip s next_total st \<longleftrightarrow>
     exact_only s \<and> ss_amount s < next_total \<or> \<not> exact_only s \<and> best_total_at_most st next_total"

definition ss_visit :: "selection_search \<Rightarrow> nat \<Rightarrow> nat \<Rightarrow> u256 \<Rightarrow> selection_state \<Rightarrow> selection_state" where
  "ss_visit s index remaining tot st =
     (let st1 = st\<lparr>st_visits_left := st_visits_left st - 1\<rparr>;
          next_total = tot + utxo_value (ss_candidates s ! index)
      in if ss_skip s next_total st then st1
         else
           let st2 = ss_search s (index + 1) (remaining - 1) next_total
                       (st1\<lparr>st_selected := st_selected st1 @ [index]\<rparr>)
           in st2\<lparr>st_selected := butlast (st_selected st2)\<rparr>)"

definition repeats :: "selection_search \<Rightarrow> nat \<Rightarrow> nat \<Rightarrow> bool" where
  "repeats s start index \<longleftrightarrow>
     start < index \<and> utxo_value (ss_candidates s ! index) = utxo_value (ss_candidates s ! (index - 1))"

lemma ss_search_cases:
  "ss_search s start remaining tot st =
     (if remaining = 0 then record_if_valid s tot st
      else if ss_cut s start remaining tot st then st
      else ss_loop s start start remaining tot st)"
  by (subst ss_search.simps) (auto simp: ss_cut_def)

lemma ss_loop_cases:
  "ss_loop s start index remaining tot st =
     (if length (ss_candidates s) - remaining < index then st
      else if repeats s start index then ss_loop s start (index + 1) remaining tot st
      else if st_visits_left st = 0 then st
      else ss_loop s start (index + 1) remaining tot (ss_visit s index remaining tot st))"
  by (subst ss_loop.simps) (auto simp: repeats_def ss_visit_def ss_skip_def best_total_at_most_def Let_def)

lemma ss_loop_induct:
  assumes "0 < remaining" "remaining \<le> length (ss_candidates s)" "start \<le> index" "Q index st"
    and last: "\<And>index st. Q index st \<Longrightarrow> start \<le> index \<Longrightarrow>
      length (ss_candidates s) - remaining < index \<Longrightarrow> R st"
    and rep: "\<And>index st. Q index st \<Longrightarrow> start \<le> index \<Longrightarrow> index < length (ss_candidates s) \<Longrightarrow>
      repeats s start index \<Longrightarrow> Q (index + 1) st"
    and stop: "\<And>index st. Q index st \<Longrightarrow> start \<le> index \<Longrightarrow> index < length (ss_candidates s) \<Longrightarrow>
      \<not> repeats s start index \<Longrightarrow> st_visits_left st = 0 \<Longrightarrow> R st"
    and visit: "\<And>index st. Q index st \<Longrightarrow> start \<le> index \<Longrightarrow> index < length (ss_candidates s) \<Longrightarrow>
      \<not> repeats s start index \<Longrightarrow> 0 < st_visits_left st \<Longrightarrow> Q (index + 1) (ss_visit s index remaining tot st)"
  shows "R (ss_loop s start index remaining tot st)"
  using assms(3,4)
proof (induction "length (ss_candidates s) + 1 - index" arbitrary: index st rule: less_induct)
  case less
  show ?case
  proof (cases "length (ss_candidates s) - remaining < index")
    case True
    then show ?thesis using last [OF less(3,2)] by (subst ss_loop_cases) simp
  next
    case False
    with assms(1,2) have index: "index < length (ss_candidates s)" by simp
    then have small: "length (ss_candidates s) + 1 - (index + 1) < length (ss_candidates s) + 1 - index" by simp
    have cont: "R (ss_loop s start (index + 1) remaining tot st')" if "Q (index + 1) st'" for st'
      using less(1) [OF small _ that] less(2) by simp
    show ?thesis
      using False rep [OF less(3,2) index] stop [OF less(3,2) index] visit [OF less(3,2) index] cont
      by (subst ss_loop_cases) auto
  qed
qed

lemma ss_sound:
  assumes "sel_pre s start remaining tot st" "best_ok s st"
  shows "st_selected (ss_search s start remaining tot st) = st_selected st \<and>
     best_ok s (ss_search s start remaining tot st)"
  using assms
proof (induction "length (ss_candidates s) - start" arbitrary: start remaining tot st rule: less_induct)
  case less
  show ?case
  proof (cases "remaining = 0 \<or> ss_cut s start remaining tot st")
    case True
    then show ?thesis using record_sound [of s start tot st] less(2,3) by (auto simp: ss_search_cases)
  next
    case False
    then have rem: "0 < remaining" "remaining \<le> length (ss_candidates s)" by (auto simp: ss_cut_def)
    let ?Q = "\<lambda>st'. st_selected st' = st_selected st \<and> best_ok s st'"
    have visit: "?Q (ss_visit s index remaining tot st')"
      if "?Q st'" "start \<le> index" "index < length (ss_candidates s)" for index st'
    proof -
      let ?st1 = "st'\<lparr>st_visits_left := st_visits_left st' - 1, st_selected := st_selected st' @ [index]\<rparr>"
      have "sel_pre s start remaining tot st'" using less(2) that(1) by (simp add: sel_pre_def)
      from sel_pre_next [OF this that(2,3) rem(1)]
      have "sel_pre s (index + 1) (remaining - 1) (tot + utxo_value (ss_candidates s ! index)) ?st1" .
      moreover have "best_ok s ?st1" using that(1) by (simp add: best_ok_def)
      ultimately show ?thesis
        using less(1) [of "index + 1" "remaining - 1" "tot + utxo_value (ss_candidates s ! index)" ?st1] that
        by (auto simp: ss_visit_def Let_def best_ok_def)
    qed
    have "?Q (ss_loop s start start remaining tot st)"
      by (rule ss_loop_induct [where Q = "\<lambda>_. ?Q", OF rem]) (use visit less(3) in auto)
    with False show ?thesis by (simp add: ss_search_cases)
  qed
qed

lemma ss_run_sound: "st_best (ss_run s) = Some b \<Longrightarrow> sel_ok s b"
  using ss_sound [of s 0 "ss_target_count s" 0 ss_start]
  by (simp add: ss_run_def sel_pre_def ss_start_def best_ok_def indices_below_def)

section \<open>Optimality of \<open>SelectionSearch\<close>\<close>

text \<open>
  The totals a search may record: at least the amount, and exactly the amount where the signature
  leaves no room for a change output.
\<close>

definition feasible :: "selection_search \<Rightarrow> nat \<Rightarrow> bool" where
  "feasible s x \<longleftrightarrow> unat (ss_amount s) \<le> x \<and> (exact_only s \<longrightarrow> x = unat (ss_amount s))"

definition vals :: "utxo list \<Rightarrow> nat list" where
  "vals cs = map val cs"

definition tots :: "utxo_selection option \<Rightarrow> nat set" where
  "tots b = (case b of None \<Rightarrow> {} | Some b \<Rightarrow> {unat (sel_total b)})"

definition reach :: "selection_search \<Rightarrow> nat \<Rightarrow> nat \<Rightarrow> nat \<Rightarrow> nat set" where
  "reach s start remaining t =
     {x. (\<exists>y \<in> pick_sums (drop start (vals (ss_candidates s))) remaining. x = t + y) \<and> feasible s x}"

text \<open>Candidates in search order whose values do not overflow, and a count the signature admits.\<close>

definition search_ok :: "selection_search \<Rightarrow> bool" where
  "search_ok s \<longleftrightarrow>
     descending (ss_candidates s) \<and> nat_sum (ss_candidates s) < 2 ^ 256 \<and>
     2 + ss_target_count s + ss_base_output_count s \<le> MAX_SIGNATURE_INPUTS"

lemma min_set_tots [simp]: "min_set (tots b) = tots b"
  by (simp add: tots_def split: option.splits)

lemma vals_simps [simp]:
  "length (vals cs) = length cs" "sum_list (vals cs) = nat_sum cs"
  "take k (vals cs) = vals (take k cs)" "drop k (vals cs) = vals (drop k cs)"
  "i < length cs \<Longrightarrow> vals cs ! i = val (cs ! i)"
  by (simp_all add: vals_def nat_sum_def take_map drop_map)

lemma descending_vals: "descending cs \<Longrightarrow> sorted_wrt (\<ge>) (vals cs)"
  by (simp add: descending_def vals_def sorted_wrt_map val_def word_le_nat_alt)

lemma picked_nat_sum_take:
  assumes "indices_below start is" "start \<le> length cs"
  shows "nat_sum (picked cs is) + nat_sum (drop start cs) \<le> nat_sum cs"
proof -
  have "picked cs is = picked (take start cs) is"
    using assms(1) by (simp add: picked_def indices_below_def)
  moreover have "nat_sum (picked (take start cs) is) \<le> nat_sum (take start cs)"
    using assms by (intro picked_nat_sum) (simp add: min_absorb2)
  ultimately show ?thesis using nat_sum_take_drop [of start cs] by simp
qed

lemma sel_pre_total:
  assumes "search_ok s" "sel_pre s start remaining tot st"
  shows "unat tot + nat_sum (drop start (ss_candidates s)) < 2 ^ 256"
    "unat tot = nat_sum (picked (ss_candidates s) (st_selected st))"
proof -
  have sum: "nat_sum (picked (ss_candidates s) (st_selected st)) + nat_sum (drop start (ss_candidates s))
      \<le> nat_sum (ss_candidates s)"
    using assms(2) by (intro picked_nat_sum_take) (auto simp: sel_pre_def)
  then show "unat tot = nat_sum (picked (ss_candidates s) (st_selected st))"
    using assms by (auto simp: sel_pre_def search_ok_def intro!: unat_value_sum)
  with sum show "unat tot + nat_sum (drop start (ss_candidates s)) < 2 ^ 256"
    using assms(1) by (simp add: search_ok_def)
qed

lemma unat_add_value_sum:
  assumes "unat tot + nat_sum us < 2 ^ 256"
  shows "unat (tot + value_sum us) = unat tot + nat_sum us"
proof -
  have "unat (value_sum us) = nat_sum us" using assms by (intro unat_value_sum) simp
  then show ?thesis using assms by (simp add: unat_add_no_overflow)
qed

lemma nat_sum_drop_le: "start \<le> k \<Longrightarrow> nat_sum (drop k cs) \<le> nat_sum (drop start cs)"
proof -
  assume "start \<le> k"
  then have "drop k cs = drop (k - start) (drop start cs)" by simp
  then show ?thesis using nat_sum_take_drop [of "k - start" "drop start cs"] by simp
qed

lemma nat_sum_take_le: "nat_sum (take k cs) \<le> nat_sum cs"
  using nat_sum_take_drop [of k cs] by simp

text \<open>The two bounds of the search bound every total it could still reach.\<close>

lemma reach_bounds:
  assumes "search_ok s" "sel_pre s start remaining tot st" "remaining \<le> length (ss_candidates s) - start"
    and "x \<in> reach s start remaining (unat tot)"
  shows "unat tot \<le> x"
    and "unat (tot + min_possible_from (ss_candidates s) remaining) \<le> x"
    and "x \<le> unat (tot + max_possible_from (ss_candidates s) start remaining)"
proof -
  let ?cs = "ss_candidates s"
  note room = sel_pre_total(1) [OF assms(1,2)]
  have sorted: "sorted_wrt (\<ge>) (vals ?cs)" using assms(1) by (simp add: search_ok_def descending_vals)
  obtain y where y: "y \<in> pick_sums (drop start (vals ?cs)) remaining" "x = unat tot + y"
    using assms(4) by (auto simp: reach_def)
  then show "unat tot \<le> x" by simp
  have "start \<le> length ?cs - remaining" using assms(2,3) by (auto simp: sel_pre_def)
  from nat_sum_drop_le [OF this, of ?cs] room
  have "unat (tot + min_possible_from ?cs remaining) = unat tot + nat_sum (drop (length ?cs - remaining) ?cs)"
    unfolding min_possible_from_def by (intro unat_add_value_sum) simp
  moreover have "nat_sum (drop (length ?cs - remaining) ?cs) \<le> y"
    using pick_sums_ge_min_from [OF sorted y(1)] by simp
  ultimately show "unat (tot + min_possible_from ?cs remaining) \<le> x" using y by simp
  have "unat (tot + max_possible_from ?cs start remaining) = unat tot + nat_sum (take remaining (drop start ?cs))"
    unfolding max_possible_from_def using room nat_sum_take_le [of remaining "drop start ?cs"]
    by (intro unat_add_value_sum) simp
  moreover have "y \<le> nat_sum (take remaining (drop start ?cs))"
  proof -
    have "sorted_wrt (\<ge>) (drop start (vals ?cs))" using sorted by (rule sorted_wrt_drop)
    from pick_sums_le_max [OF this y(1)] show ?thesis by simp
  qed
  ultimately show "x \<le> unat (tot + max_possible_from ?cs start remaining)" using y by simp
qed

lemma best_total_at_mostD: "best_total_at_most st t \<Longrightarrow> \<exists>a \<in> tots (st_best st). a \<le> unat t"
  by (auto simp: best_total_at_most_def tots_def word_le_nat_alt split: option.splits)

lemma reach_cut:
  assumes "search_ok s" "sel_pre s start remaining tot st" "ss_cut s start remaining tot st"
  shows "min_set (tots (st_best st) \<union> reach s start remaining (unat tot)) = tots (st_best st)"
proof (cases "length (ss_candidates s) - start < remaining")
  case True
  then have "reach s start remaining (unat tot) = {}" by (simp add: reach_def pick_sums_short)
  then show ?thesis by simp
next
  case False
  then have rem: "remaining \<le> length (ss_candidates s) - start" by simp
  have "\<exists>a \<in> tots (st_best st). a \<le> x" if x: "x \<in> reach s start remaining (unat tot)" for x
  proof -
    note bounds = reach_bounds [OF assms(1,2) rem x]
    have feas: "feasible s x" using x by (simp add: reach_def)
    from assms(3) False consider
      (exact) "exact_only s" "ss_amount s < tot + min_possible_from (ss_candidates s) remaining"
      | (best) t where "best_total_at_most st t" "unat t \<le> x"
      | (low) "tot + max_possible_from (ss_candidates s) start remaining < ss_amount s"
      using bounds unfolding ss_cut_def by blast
    then show ?thesis
    proof cases
      case exact
      then show ?thesis using bounds(2) feas by (simp add: feasible_def word_less_nat_alt)
    next
      case best
      then show ?thesis using best_total_at_mostD le_trans by blast
    next
      case low
      then show ?thesis using bounds(3) feas by (simp add: feasible_def word_less_nat_alt)
    qed
  qed
  then have "min_set (tots (st_best st) \<union> reach s start remaining (unat tot)) = min_set (tots (st_best st))"
    by (rule min_set_absorb)
  then show ?thesis by simp
qed

lemma sel_ok_facts:
  "sel_ok s b \<Longrightarrow> length (sel_utxos b) = ss_target_count s \<and> ss_amount s \<le> sel_total b"
  by (auto simp: sel_ok_def)

text \<open>Among selections of one size that cover the amount, the preferred one has the smaller total.\<close>

lemma better_for_amount_total:
  assumes "length (sel_utxos a) = length (sel_utxos b)" "amount \<le> sel_total a" "amount \<le> sel_total b"
  shows "is_better_for_amount_than a b amount \<Longrightarrow> sel_total a \<le> sel_total b"
    and "\<not> is_better_for_amount_than a b amount \<Longrightarrow> sel_total b \<le> sel_total a"
proof -
  have "unat (sel_total a - amount) = unat (sel_total a) - unat amount"
    "unat (sel_total b - amount) = unat (sel_total b) - unat amount"
    using assms(2,3) by (simp_all add: unat_sub word_le_nat_alt)
  then have "sel_total a - amount < sel_total b - amount \<longleftrightarrow> sel_total a < sel_total b"
    "sel_total b - amount < sel_total a - amount \<longleftrightarrow> sel_total b < sel_total a"
    using assms(2,3) by (auto simp: word_less_nat_alt word_le_nat_alt)
  then show "is_better_for_amount_than a b amount \<Longrightarrow> sel_total a \<le> sel_total b"
    "\<not> is_better_for_amount_than a b amount \<Longrightarrow> sel_total b \<le> sel_total a"
    using assms(1) by (auto simp: is_better_for_amount_than_def cmp_def split: if_splits)
qed

lemma record_optimal:
  assumes "search_ok s" "sel_pre s start 0 tot st" "best_ok s st"
  shows "tots (st_best (record_if_valid s tot st)) = min_set (tots (st_best st) \<union> reach s start 0 (unat tot))"
proof -
  let ?b = "\<lparr>sel_utxos = normalize_selection (picked (ss_candidates s) (st_selected st)), sel_total = tot\<rparr>"
  have reach: "reach s start 0 (unat tot) = (if feasible s (unat tot) then {unat tot} else {})"
    by (auto simp: reach_def)
  have feas: "feasible s (unat tot) \<longleftrightarrow> \<not> tot < ss_amount s \<and>
      \<not> MAX_SIGNATURE_INPUTS < 2 + ss_target_count s + (ss_base_output_count s + (if ss_amount s < tot then 1 else 0))"
    using assms(1) by (auto simp: feasible_def search_ok_def exact_only_def word_less_nat_alt word_le_nat_alt
        dest: unsigned_word_eqI)
  show ?thesis
  proof (cases "feasible s (unat tot)")
    case False
    then have "record_if_valid s tot st = st" using feas by (auto simp: record_if_valid_def Let_def)
    with False show ?thesis by (simp add: reach)
  next
    case True
    then have rec: "st_best (record_if_valid s tot st) =
        (if (case st_best st of None \<Rightarrow> True | Some best \<Rightarrow> is_better_for_amount_than ?b best (ss_amount s))
         then Some ?b else st_best st)"
      using feas unfolding record_if_valid_def picked_def Let_def by auto
    show ?thesis
    proof (cases "st_best st")
      case None
      then show ?thesis using True by (simp add: rec reach tots_def)
    next
      case (Some best)
      then have best: "length (sel_utxos best) = ss_target_count s" "ss_amount s \<le> sel_total best"
        using assms(3) sel_ok_facts by (auto simp: best_ok_def)
      have "length (sel_utxos ?b) = ss_target_count s" "ss_amount s \<le> sel_total ?b"
        using assms(2) True by (simp_all add: sel_pre_def feasible_def word_le_nat_alt)
      then have "is_better_for_amount_than ?b best (ss_amount s) \<Longrightarrow> unat tot \<le> unat (sel_total best)"
        "\<not> is_better_for_amount_than ?b best (ss_amount s) \<Longrightarrow> unat (sel_total best) \<le> unat tot"
        using better_for_amount_total [of ?b best "ss_amount s"] best by (auto simp: word_le_nat_alt)
      then show ?thesis
        using True Some by (auto simp: rec reach tots_def min_set_def)
    qed
  qed
qed


lemma reach_step:
  assumes "index < length (ss_candidates s)"
  shows "reach s index (Suc k) t =
     reach s (index + 1) k (t + val (ss_candidates s ! index)) \<union> reach s (index + 1) (Suc k) t"
  using pick_sums_drop [of index "vals (ss_candidates s)" k] assms
  by (auto simp: reach_def add.assoc simp del: vals_simps(4))

lemma reach_mono: "reach s (index + 1) k t \<subseteq> reach s index k t"
  using pick_sums_drop_mono [of index "vals (ss_candidates s)" k] by (auto simp: reach_def simp del: vals_simps(4))

text \<open>
  What the loop keeps while it runs through the indices: the best total found so far and the
  totals still ahead have the minimum of the whole task; every total that starts with the
  previous note is covered, so that a repeated value can be skipped; and the budget spent.
\<close>

definition loop_inv ::
  "selection_search \<Rightarrow> nat \<Rightarrow> nat \<Rightarrow> nat \<Rightarrow> selection_state \<Rightarrow> nat \<Rightarrow> selection_state \<Rightarrow> bool" where
  "loop_inv s start k t st index st' \<longleftrightarrow>
     st_selected st' = st_selected st \<and> best_ok s st' \<and> index \<le> length (ss_candidates s) \<and>
     min_set (tots (st_best st') \<union> reach s index (Suc k) t) =
       min_set (tots (st_best st) \<union> reach s start (Suc k) t) \<and>
     (start < index \<longrightarrow>
       (\<forall>x \<in> reach s index k (t + val (ss_candidates s ! (index - 1))). \<exists>a \<in> tots (st_best st'). a \<le> x)) \<and>
     st_visits_left st + 2 ^ (length (ss_candidates s) - index)
       \<le> st_visits_left st' + 2 ^ (length (ss_candidates s) - start)"

lemma loop_inv_budget:
  assumes "loop_inv s start k t st index st'"
  shows "st_visits_left st < st_visits_left st' + 2 ^ (length (ss_candidates s) - start)"
proof -
  have "(0::nat) < 2 ^ (length (ss_candidates s) - index)" by simp
  then show ?thesis using assms unfolding loop_inv_def by linarith
qed

lemma loop_inv_repeat:
  assumes "loop_inv s start k t st index st'" "index < length (ss_candidates s)" "repeats s start index"
  shows "loop_inv s start k t st (index + 1) st'"
proof -
  let ?F = "reach s (index + 1) k (t + val (ss_candidates s ! index))"
  have v: "val (ss_candidates s ! (index - 1)) = val (ss_candidates s ! index)" "start < index"
    using assms(3) by (auto simp: repeats_def val_def)
  have dom: "\<exists>a \<in> tots (st_best st'). a \<le> x" if "x \<in> ?F" for x
    using assms(1) that v reach_mono [of s index k "t + val (ss_candidates s ! index)"]
    by (auto simp: loop_inv_def)
  have "min_set ((tots (st_best st') \<union> reach s (index + 1) (Suc k) t) \<union> ?F) =
      min_set (tots (st_best st') \<union> reach s (index + 1) (Suc k) t)"
    by (rule min_set_absorb) (use dom in blast)
  then have "min_set (tots (st_best st') \<union> reach s (index + 1) (Suc k) t) =
      min_set (tots (st_best st') \<union> reach s index (Suc k) t)"
    by (simp add: reach_step [OF assms(2)] Un_ac)
  moreover have "(2::nat) ^ (length (ss_candidates s) - (index + 1)) \<le> 2 ^ (length (ss_candidates s) - index)"
    by (rule power_increasing) auto
  then have "st_visits_left st + 2 ^ (length (ss_candidates s) - (index + 1))
      \<le> st_visits_left st' + 2 ^ (length (ss_candidates s) - start)"
    using assms(1) unfolding loop_inv_def by linarith
  ultimately show ?thesis
    using assms(1,2) dom unfolding loop_inv_def by auto
qed

text \<open>A visit: the notes that start with the candidate at \<open>index\<close> are covered afterwards.\<close>

lemma loop_inv_visit:
  assumes inv: "loop_inv s start k t st index st'" and index: "index < length (ss_candidates s)"
    and cover: "tots (st_best st'') = min_set (tots (st_best st') \<union>
      reach s (index + 1) k (t + val (ss_candidates s ! index)))"
    and keep: "st_selected st'' = st_selected st'" "best_ok s st''"
    and used: "st_visits_left st' \<le> st_visits_left st'' + 2 ^ (length (ss_candidates s) - (index + 1))"
  shows "loop_inv s start k t st (index + 1) st''"
proof -
  let ?F = "reach s (index + 1) k (t + val (ss_candidates s ! index))"
  let ?R = "reach s (index + 1) (Suc k) t"
  have "min_set (tots (st_best st'') \<union> ?R) = min_set (tots (st_best st') \<union> ?F \<union> ?R)"
    by (simp only: cover min_set_min_set)
  also have "\<dots> = min_set (tots (st_best st') \<union> reach s index (Suc k) t)"
    by (simp add: reach_step [OF index] Un_ac)
  finally have "min_set (tots (st_best st'') \<union> ?R) = min_set (tots (st_best st) \<union> reach s start (Suc k) t)"
    using inv by (simp add: loop_inv_def)
  moreover have "\<exists>a \<in> tots (st_best st''). a \<le> x" if "x \<in> ?F" for x
    unfolding cover by (rule min_set_dominates) (use that in simp)
  moreover have "(2::nat) ^ (length (ss_candidates s) - index) =
      2 * 2 ^ (length (ss_candidates s) - (index + 1))"
    using index by (simp add: Suc_diff_Suc flip: power_Suc)
  ultimately show ?thesis
    using inv index keep used unfolding loop_inv_def by auto
qed

lemma unat_next_total:
  assumes "search_ok s" "sel_pre s start remaining tot st" "start \<le> index" "index < length (ss_candidates s)"
  shows "unat (tot + utxo_value (ss_candidates s ! index)) = unat tot + val (ss_candidates s ! index)"
proof -
  have "drop index (ss_candidates s) = ss_candidates s ! index # drop (Suc index) (ss_candidates s)"
    using assms(4) by (rule Cons_nth_drop_Suc [symmetric])
  then have "unat tot + val (ss_candidates s ! index) < 2 ^ 256"
    using sel_pre_total(1) [OF assms(1,2)] nat_sum_drop_le [OF assms(3), of "ss_candidates s"] by simp
  then show ?thesis by (simp add: unat_add_no_overflow val_def)
qed

lemma skip_covers:
  assumes "search_ok s" "sel_pre s start (Suc k) tot st'" "start \<le> index" "index < length (ss_candidates s)"
    and "ss_skip s (tot + utxo_value (ss_candidates s ! index)) st'"
  shows "tots (st_best st') = min_set (tots (st_best st') \<union>
      reach s (index + 1) k (unat tot + val (ss_candidates s ! index)))"
proof -
  note t = unat_next_total [OF assms(1,2,3,4)]
  have "\<exists>a \<in> tots (st_best st'). a \<le> x"
    if x: "x \<in> reach s (index + 1) k (unat tot + val (ss_candidates s ! index))" for x
  proof -
    have le: "unat (tot + utxo_value (ss_candidates s ! index)) \<le> x" using x by (auto simp: t reach_def)
    from assms(5) consider (exact) "exact_only s" "ss_amount s < tot + utxo_value (ss_candidates s ! index)"
      | (best) "best_total_at_most st' (tot + utxo_value (ss_candidates s ! index))"
      by (auto simp: ss_skip_def)
    then show ?thesis
    proof cases
      case exact
      then show ?thesis using x le by (auto simp: reach_def feasible_def word_less_nat_alt)
    next
      case best
      then show ?thesis using best_total_at_mostD le le_trans by blast
    qed
  qed
  then have "min_set (tots (st_best st') \<union> reach s (index + 1) k (unat tot + val (ss_candidates s ! index))) =
      min_set (tots (st_best st'))"
    by (rule min_set_absorb)
  then show ?thesis by simp
qed

lemma ss_visit_inv:
  assumes ok: "search_ok s" and pre: "sel_pre s start (Suc k) tot st'"
    and Q: "loop_inv s start k (unat tot) st index st'"
    and i: "start \<le> index" "index < length (ss_candidates s)" and left: "0 < st_visits_left st'"
    and budget: "2 ^ (length (ss_candidates s) - index) \<le> st_visits_left st'"
    and IH: "\<And>tot' st1. sel_pre s (index + 1) k tot' st1 \<Longrightarrow> best_ok s st1 \<Longrightarrow>
      2 ^ (length (ss_candidates s) - (index + 1)) \<le> st_visits_left st1 \<Longrightarrow>
      tots (st_best (ss_search s (index + 1) k tot' st1)) =
        min_set (tots (st_best st1) \<union> reach s (index + 1) k (unat tot')) \<and>
      st_visits_left st1 < st_visits_left (ss_search s (index + 1) k tot' st1)
        + 2 ^ (length (ss_candidates s) - (index + 1))"
  shows "loop_inv s start k (unat tot) st (index + 1) (ss_visit s index (Suc k) tot st')"
proof -
  let ?n = "length (ss_candidates s)"
  let ?st1 = "st'\<lparr>st_visits_left := st_visits_left st' - 1, st_selected := st_selected st' @ [index]\<rparr>"
  let ?nt = "tot + utxo_value (ss_candidates s ! index)"
  have best: "best_ok s st'" using Q by (simp add: loop_inv_def)
  have one: "(1::nat) \<le> 2 ^ (?n - (index + 1))" by simp
  show ?thesis
  proof (cases "ss_skip s ?nt st'")
    case True
    have "st_visits_left st' \<le> st_visits_left st' - 1 + 2 ^ (?n - (index + 1))" using one by linarith
    then have "loop_inv s start k (unat tot) st (index + 1) (st'\<lparr>st_visits_left := st_visits_left st' - 1\<rparr>)"
      using skip_covers [OF ok pre i True] best
      by (intro loop_inv_visit [OF Q i(2)]) (auto simp: best_ok_def)
    then show ?thesis using True by (simp add: ss_visit_def)
  next
    case new: False
    have "(2::nat) ^ (?n - index) = 2 * 2 ^ (?n - (index + 1))"
      using i by (simp add: Suc_diff_Suc flip: power_Suc)
    with one budget have budget1: "2 ^ (?n - (index + 1)) \<le> st_visits_left ?st1" by simp
    have pre1: "sel_pre s (index + 1) k ?nt ?st1" using sel_pre_next [OF pre i] by simp
    have best1: "best_ok s ?st1" using best by (simp add: best_ok_def)
    define st2 where "st2 = ss_search s (index + 1) k ?nt ?st1"
    have "tots (st_best st2) = min_set (tots (st_best st') \<union> reach s (index + 1) k (unat ?nt))"
      "st_visits_left ?st1 < st_visits_left st2 + 2 ^ (?n - (index + 1))"
      using IH [OF pre1 best1 budget1] by (auto simp: st2_def)
    moreover have "st_selected st2 = st_selected st' @ [index]" "best_ok s st2"
      using ss_sound [OF pre1 best1] by (auto simp: st2_def)
    ultimately have "loop_inv s start k (unat tot) st (index + 1) (st2\<lparr>st_selected := butlast (st_selected st2)\<rparr>)"
      using left by (intro loop_inv_visit [OF Q i(2)]) (auto simp: unat_next_total [OF ok pre i] best_ok_def)
    then show ?thesis using new by (simp add: ss_visit_def Let_def st2_def)
  qed
qed

theorem ss_optimal:
  assumes "search_ok s" "sel_pre s start remaining tot st" "best_ok s st"
    and "2 ^ (length (ss_candidates s) - start) \<le> st_visits_left st"
  shows "tots (st_best (ss_search s start remaining tot st)) =
       min_set (tots (st_best st) \<union> reach s start remaining (unat tot)) \<and>
     st_visits_left st < st_visits_left (ss_search s start remaining tot st) + 2 ^ (length (ss_candidates s) - start)"
  using assms(2-4)
proof (induction "length (ss_candidates s) - start" arbitrary: start remaining tot st rule: less_induct)
  case less
  let ?n = "length (ss_candidates s)"
  show ?case
  proof (cases "remaining = 0 \<or> ss_cut s start remaining tot st")
    case True
    then show ?thesis
      using record_optimal [OF assms(1), of start tot st] record_sound(3) [of s start tot st]
        reach_cut [OF assms(1) less(2)] less(2,3) by (auto simp: ss_search_cases)
  next
    case False
    then obtain k where rem: "remaining = Suc k" by (cases remaining) auto
    have room: "0 < remaining" "remaining \<le> ?n" using False by (auto simp: ss_cut_def)
    have start: "start \<le> ?n" using less(2) by (simp add: sel_pre_def)
    let ?Q = "loop_inv s start k (unat tot) st"
    let ?R = "\<lambda>st'. tots (st_best st') = min_set (tots (st_best st) \<union> reach s start remaining (unat tot)) \<and>
        st_visits_left st < st_visits_left st' + 2 ^ (?n - start)"
    have visit: "?Q (index + 1) (ss_visit s index remaining tot st')"
      if Q: "?Q index st'" and i: "start \<le> index" "index < ?n" and left: "0 < st_visits_left st'" for index st'
    proof -
      have "sel_pre s start (Suc k) tot st'" using less(2) Q rem by (simp add: sel_pre_def loop_inv_def)
      moreover have "2 ^ (?n - index) \<le> st_visits_left st'" using Q less(4) by (auto simp: loop_inv_def)
      ultimately show ?thesis
        unfolding rem using less(1) [of "index + 1" k] i
        by (intro ss_visit_inv [OF assms(1) _ Q i left]) auto
    qed
    have "?R (ss_loop s start start remaining tot st)"
    proof (rule ss_loop_induct [where Q = ?Q, OF room])
      show "?Q start st" using less(3) start by (simp add: loop_inv_def)
    next
      fix index st' assume Q: "?Q index st'" and "?n - remaining < index"
      then have "reach s index (Suc k) (unat tot) = {}" by (simp add: reach_def pick_sums_short rem)
      then show "?R st'" using Q loop_inv_budget [OF Q] by (auto simp: loop_inv_def rem)
    next
      fix index st' assume Q: "?Q index st'" and "st_visits_left st' = 0"
      then show "?R st'" using less(4) loop_inv_budget [OF Q] by simp
    qed (use loop_inv_repeat visit in auto)
    with False show ?thesis by (simp add: ss_search_cases)
  qed
qed

text \<open>The whole run, on a tree of at most \<open>MAX_CIRCUIT_INPUTS\<close> notes.\<close>

lemma ss_run_optimal:
  assumes "search_ok s" "length (ss_candidates s) \<le> MAX_CIRCUIT_INPUTS"
  shows "tots (st_best (ss_run s)) =
     min_set {x \<in> pick_sums (vals (ss_candidates s)) (ss_target_count s). feasible s x}"
proof -
  have "(2::nat) ^ length (ss_candidates s) \<le> MAX_SELECTION_SEARCH_VISITS"
    unfolding MAX_SELECTION_SEARCH_VISITS_def using assms(2) by (intro power_increasing) auto
  moreover have "sel_pre s 0 (ss_target_count s) 0 ss_start" "best_ok s ss_start"
    by (simp_all add: sel_pre_def ss_start_def indices_below_def best_ok_def)
  ultimately have "tots (st_best (ss_run s)) =
      min_set (tots (st_best ss_start) \<union> reach s 0 (ss_target_count s) (unat (0 :: u256)))"
    using ss_optimal [OF assms(1), of 0 "ss_target_count s" 0 ss_start]
    by (simp add: ss_run_def ss_start_def)
  moreover have "reach s 0 (ss_target_count s) (unat (0 :: u256)) =
      {x \<in> pick_sums (vals (ss_candidates s)) (ss_target_count s). feasible s x}"
    by (auto simp: reach_def)
  ultimately show ?thesis by (simp add: ss_start_def tots_def)
qed

section \<open>The first path of the search\<close>

text \<open>A recorded selection is only replaced, so the search never loses what it has.\<close>

lemma record_keeps: "st_best st \<noteq> None \<Longrightarrow> st_best (record_if_valid s tot st) \<noteq> None"
  by (simp add: record_if_valid_def Let_def)

lemma ss_visit_keeps:
  assumes "\<And>remaining tot st. st_best st \<noteq> None \<Longrightarrow> st_best (ss_search s (index + 1) remaining tot st) \<noteq> None" "st_best st \<noteq> None"
  shows "st_best (ss_visit s index remaining tot st) \<noteq> None"
  using assms(2) assms(1) [of "st\<lparr>st_visits_left := st_visits_left st - 1, st_selected := st_selected st @ [index]\<rparr>"]
  by (simp add: ss_visit_def Let_def)

lemma ss_search_keeps: "st_best st \<noteq> None \<Longrightarrow> st_best (ss_search s start remaining tot st) \<noteq> None"
proof (induction "length (ss_candidates s) - start" arbitrary: start remaining tot st rule: less_induct)
  case less
  show ?case
  proof (cases "remaining = 0 \<or> ss_cut s start remaining tot st")
    case True
    then show ?thesis using record_keeps less(2) by (auto simp: ss_search_cases)
  next
    case False
    then have rem: "0 < remaining" "remaining \<le> length (ss_candidates s)" by (auto simp: ss_cut_def)
    have "st_best (ss_loop s start start remaining tot st) \<noteq> None"
    proof (rule ss_loop_induct [where Q = "\<lambda>_ st'. st_best st' \<noteq> None", OF rem])
      fix index and st' :: selection_state assume st': "st_best st' \<noteq> None" and i: "start \<le> index" "index < length (ss_candidates s)"
      show "st_best (ss_visit s index remaining tot st') \<noteq> None"
        by (rule ss_visit_keeps [OF less(1) st']) (use i in auto)
    qed (use less(2) in auto)
    with False show ?thesis by (simp add: ss_search_cases)
  qed
qed

lemma ss_loop_keeps:
  assumes "0 < remaining" "remaining \<le> length (ss_candidates s)" "start \<le> index" "st_best st \<noteq> None"
  shows "st_best (ss_loop s start index remaining tot st) \<noteq> None"
  by (rule ss_loop_induct [where Q = "\<lambda>_ st'. st_best st' \<noteq> None", OF assms]) (use ss_visit_keeps ss_search_keeps in blast)+

text \<open>
  Where a change output has room, the greatest notes are the first choice the search visits, and it
  records them when they cover the amount: no visit limit can prevent it.
\<close>

lemma ss_finds:
  assumes "search_ok s" "\<not> exact_only s" "sel_pre s start remaining tot st"
    and "start + remaining \<le> length (ss_candidates s)" "remaining \<le> st_visits_left st"
    and "unat (ss_amount s) \<le> unat tot + nat_sum (take remaining (drop start (ss_candidates s)))"
  shows "st_best (ss_search s start remaining tot st) \<noteq> None"
  using assms(3-6)
proof (induction remaining arbitrary: start tot st)
  case 0
  then have "ss_amount s \<le> tot" by (simp add: word_le_nat_alt)
  with assms(2) show ?case
    by (auto simp: ss_search_cases record_if_valid_def Let_def exact_only_def not_less not_le split: option.splits)
next
  case (Suc k)
  let ?cs = "ss_candidates s" let ?st1 = "st\<lparr>st_visits_left := st_visits_left st - 1, st_selected := st_selected st @ [start]\<rparr>"
  show ?case
  proof (cases "st_best st")
    case (Some b)
    then show ?thesis using ss_search_keeps [of st] by simp
  next
    case None
    have start: "start < length ?cs" using Suc.prems(2) by simp
    then have drop: "drop start ?cs = ?cs ! start # drop (start + 1) ?cs" by (simp add: Cons_nth_drop_Suc)
    note tot = sel_pre_total [OF assms(1) Suc.prems(1)]
    have "nat_sum (take (Suc k) (drop start ?cs)) \<le> nat_sum (drop start ?cs)" by (rule nat_sum_take_le)
    then have "unat (tot + max_possible_from ?cs start (Suc k)) = unat tot + nat_sum (take (Suc k) (drop start ?cs))"
      unfolding max_possible_from_def using tot(1) by (intro unat_add_value_sum) simp
    then have cut: "\<not> ss_cut s start (Suc k) tot st"
      using Suc.prems(2,4) None assms(2) by (simp add: ss_cut_def best_total_at_most_def word_less_nat_alt)
    have next_tot: "unat (tot + utxo_value (?cs ! start)) = unat tot + val (?cs ! start)"
      using tot(1) by (simp add: drop unat_add_no_overflow val_def)
    have "st_best (ss_search s (start + 1) k (tot + utxo_value (?cs ! start)) ?st1) \<noteq> None"
    proof (rule Suc.IH)
      show "sel_pre s (start + 1) k (tot + utxo_value (?cs ! start)) ?st1"
        using sel_pre_next [OF Suc.prems(1) _ start, of "st_visits_left st - 1"] by simp
    qed (use Suc.prems next_tot in \<open>simp_all add: drop\<close>)
    then have "st_best (ss_visit s start (Suc k) tot st) \<noteq> None"
      using None assms(2) by (simp add: ss_visit_def ss_skip_def best_total_at_most_def Let_def)
    then have "st_best (ss_loop s start (start + 1) (Suc k) tot (ss_visit s start (Suc k) tot st)) \<noteq> None"
      using Suc.prems(2) by (intro ss_loop_keeps) simp_all
    then have "st_best (ss_loop s start start (Suc k) tot st) \<noteq> None"
      using Suc.prems(2,3) by (subst ss_loop_cases) (auto simp: repeats_def)
    with cut show ?thesis by (simp add: ss_search_cases)
  qed
qed

lemma ss_run_finds:
  assumes "search_ok s" "\<not> exact_only s" "x \<in> pick_sums (vals (ss_candidates s)) (ss_target_count s)" "unat (ss_amount s) \<le> x"
  shows "st_best (ss_run s) \<noteq> None"
  unfolding ss_run_def
proof (rule ss_finds [OF assms(1,2)])
  have "x \<le> nat_sum (take (ss_target_count s) (ss_candidates s))"
    using pick_sums_le_max [OF descending_vals assms(3)] assms(1) by (simp add: search_ok_def)
  then show "unat (ss_amount s) \<le> unat (0 :: u256) + nat_sum (take (ss_target_count s) (drop 0 (ss_candidates s)))"
    using assms(4) by simp
  show "0 + ss_target_count s \<le> length (ss_candidates s)"
    using assms(3) pick_sums_short [of "vals (ss_candidates s)" "ss_target_count s"] by (cases "ss_target_count s \<le> length (ss_candidates s)") auto
  show "ss_target_count s \<le> st_visits_left ss_start"
    using assms(1) by (simp add: search_ok_def ss_start_def MAX_SELECTION_SEARCH_VISITS_def MAX_CIRCUIT_INPUTS_def MAX_SIGNATURE_INPUTS_def)
qed (simp add: sel_pre_def ss_start_def indices_below_def)

end
