(* ===== verification/PartialSearch.thy ===== *)
theory PartialSearch
  imports SelectionSearch
begin

text \<open>
  \<open>PartialSelectionSearch\<close> of \<open>railgun-wallet/src/tx/builder/selection.rs\<close>: notes of one tree whose
  total stays below an amount, the best one and an ordered list of alternatives. As for
  \<open>SelectionSearch\<close>, the constant fields and the search state are separate records. The lemmas
  show what a recorded selection is, that the list is ordered, free of repetitions and headed by
  the best selection and, for a tree of at most 13 notes, that its total is the greatest possible.
\<close>

section \<open>\<open>PartialSelectionSearch\<close>\<close>

record partial_search =
  ps_candidates :: "utxo list"
  ps_amount :: u256
  ps_max_input_count :: nat
  ps_selection_limit :: nat

record partial_state =
  pt_selected :: "nat list"
  pt_best :: "utxo_selection option"
  pt_selections :: "utxo_selection list"
  pt_visits_left :: nat

definition push_unique_selection_candidate ::
  "utxo_selection list \<Rightarrow> utxo_selection \<Rightarrow> nat \<Rightarrow> utxo_selection list" where
  "push_unique_selection_candidate candidates candidate limit =
     (if limit \<le> length candidates \<and> candidates \<noteq> [] \<and> selection_max_order candidate (last candidates) \<noteq> Less
      then candidates
      else if limit = 0 \<or> list_ex (\<lambda>existing. position_key existing = position_key candidate) candidates
      then candidates
      else take limit (sort_by selection_max_order (candidates @ [candidate])))"

definition partial_record :: "partial_search \<Rightarrow> u256 \<Rightarrow> partial_state \<Rightarrow> partial_state" where
  "partial_record s tot st =
     (let utxos = normalize_selection (map (\<lambda>i. ps_candidates s ! i) (pt_selected st));
          selection = \<lparr>sel_utxos = utxos, sel_total = tot\<rparr>;
          st1 = (if (case pt_best st of None \<Rightarrow> True | Some best \<Rightarrow> is_better_max_than selection best)
                 then st\<lparr>pt_best := Some selection\<rparr> else st)
      in st1\<lparr>pt_selections :=
           push_unique_selection_candidate (pt_selections st1) selection (ps_selection_limit s)\<rparr>)"

definition cannot_beat_best :: "partial_search \<Rightarrow> partial_state \<Rightarrow> u256 \<Rightarrow> bool" where
  "cannot_beat_best s st reachable =
     (case pt_best st of None \<Rightarrow> False
      | Some best \<Rightarrow> ps_selection_limit s \<le> 1 \<and> reachable \<le> sel_total best)"

definition cannot_enter_list :: "partial_search \<Rightarrow> partial_state \<Rightarrow> u256 \<Rightarrow> bool" where
  "cannot_enter_list s st reachable \<longleftrightarrow>
     1 < ps_selection_limit s \<and> ps_selection_limit s \<le> length (pt_selections st) \<and>
     pt_selections st \<noteq> [] \<and> reachable < sel_total (last (pt_selections st))"

function ps_search :: "partial_search \<Rightarrow> nat \<Rightarrow> u256 \<Rightarrow> partial_state \<Rightarrow> partial_state"
  and ps_loop :: "partial_search \<Rightarrow> nat \<Rightarrow> u256 \<Rightarrow> partial_state \<Rightarrow> partial_state" where
  "ps_search s start tot st =
     (if length (pt_selected st) = ps_max_input_count s \<or> length (ps_candidates s) \<le> start then st
      else
        let remaining_slots = ps_max_input_count s - length (pt_selected st);
            reachable = tot + max_possible_from (ps_candidates s) start remaining_slots
        in if cannot_beat_best s st reachable then st
           else if cannot_enter_list s st reachable then st
           else ps_loop s start tot st)"
| "ps_loop s index tot st =
     (if length (ps_candidates s) \<le> index then st
      else if pt_visits_left st = 0 then st
      else
        let st1 = st\<lparr>pt_visits_left := pt_visits_left st - 1\<rparr>;
            next_total = tot + utxo_value (ps_candidates s ! index)
        in if ps_amount s \<le> next_total then ps_loop s (index + 1) tot st1
           else
             let st2 = partial_record s next_total (st1\<lparr>pt_selected := pt_selected st1 @ [index]\<rparr>);
                 st3 = ps_search s (index + 1) next_total st2;
                 st4 = st3\<lparr>pt_selected := butlast (pt_selected st3)\<rparr>
             in ps_loop s (index + 1) tot st4)"
  by pat_completeness auto
termination
  by (relation "measure (\<lambda>x. case x of
        Inl (s, start, tot, st) \<Rightarrow> 2 * (length (ps_candidates s) + 1 - start) + 1
      | Inr (s, index, tot, st) \<Rightarrow> 2 * (length (ps_candidates s) + 1 - index))") auto

declare ps_search.simps [simp del] ps_loop.simps [simp del]

definition ps_new :: "utxo list \<Rightarrow> u256 \<Rightarrow> nat \<Rightarrow> nat \<Rightarrow> partial_search" where
  "ps_new candidates amount max_input_count selection_limit =
     \<lparr>ps_candidates = candidates, ps_amount = amount, ps_max_input_count = max_input_count,
      ps_selection_limit = selection_limit\<rparr>"

definition ps_start :: partial_state where
  "ps_start = \<lparr>pt_selected = [], pt_best = None, pt_selections = [],
     pt_visits_left = MAX_SELECTION_SEARCH_VISITS\<rparr>"

definition ps_run :: "partial_search \<Rightarrow> partial_state" where
  "ps_run s = ps_search s 0 0 ps_start"

section \<open>Soundness of \<open>PartialSelectionSearch\<close>\<close>

text \<open>A recorded selection: some notes of the tree, at most the limit, with a total below the amount.\<close>

definition psel_ok :: "partial_search \<Rightarrow> utxo_selection \<Rightarrow> bool" where
  "psel_ok s b \<longleftrightarrow>
     (\<exists>is. indices_below (length (ps_candidates s)) is \<and> is \<noteq> [] \<and> length is \<le> ps_max_input_count s \<and>
        sel_utxos b = normalize_selection (picked (ps_candidates s) is) \<and>
        sel_total b = value_sum (picked (ps_candidates s) is)) \<and>
     sel_total b < ps_amount s"

lemma better_max_order: "is_better_max_than a b \<longleftrightarrow> selection_max_order a b = Less"
  by (auto simp: is_better_max_than_def selection_max_order_def then_with_def cmp_def)

lemma max_order_Equal: "selection_max_order a b = Equal \<Longrightarrow> position_key a = position_key b"
  by (auto simp: selection_max_order_def then_with_def split: if_splits)

lemma max_order_total: "selection_max_order a b \<noteq> Greater \<Longrightarrow> sel_total b \<le> sel_total a"
  by (auto simp: selection_max_order_def then_with_def cmp_def split: if_splits)

lemma value_sum_eq_sum: "value_sum us = sum_list (map utxo_value us)"
  by (induction us rule: rev_induct) simp_all

lemma value_sum_mset: "mset us = mset vs \<Longrightarrow> value_sum us = value_sum vs"
  unfolding value_sum_eq_sum by (metis mset_map sum_mset_sum_list)

lemma set_picked: "indices_below (length cs) is \<Longrightarrow> set (picked cs is) \<subseteq> set cs"
  by (auto simp: picked_def indices_below_def)

lemma psel_ok_utxos:
  assumes "psel_ok s b"
  shows "set (sel_utxos b) \<subseteq> set (ps_candidates s)" "sel_total b = value_sum (sel_utxos b)"
proof -
  from assms obtain "is" where idx: "indices_below (length (ps_candidates s)) is"
    "sel_utxos b = normalize_selection (picked (ps_candidates s) is)"
    "sel_total b = value_sum (picked (ps_candidates s) is)" by (auto simp: psel_ok_def)
  then show "set (sel_utxos b) \<subseteq> set (ps_candidates s)" by (simp add: set_picked)
  show "sel_total b = value_sum (sel_utxos b)"
    unfolding idx by (rule value_sum_mset) simp
qed

text \<open>Where the positions of a tree are distinct, the positions determine the selection.\<close>

lemma psel_ok_key_inj:
  assumes "distinct (map utxo_key (ps_candidates s))" "psel_ok s a" "psel_ok s b"
    and "position_key a = position_key b"
  shows "a = b"
proof -
  have "inj_on utxo_key (set (ps_candidates s))" using assms(1) by (simp add: distinct_map)
  then have "inj_on utxo_key (set (sel_utxos a) \<union> set (sel_utxos b))"
    using psel_ok_utxos(1) [OF assms(2)] psel_ok_utxos(1) [OF assms(3)] by (meson inj_on_subset Un_least)
  then have "sel_utxos a = sel_utxos b"
    using assms(4) by (simp add: position_key_def map_inj_on)
  then show ?thesis
    using psel_ok_utxos(2) [OF assms(2)] psel_ok_utxos(2) [OF assms(3)] by simp
qed

text \<open>The list of recorded selections: ordered, without repetition, headed by the best one.\<close>

definition list_inv :: "partial_search \<Rightarrow> partial_state \<Rightarrow> bool" where
  "list_inv s st \<longleftrightarrow>
     sorted_wrt (\<lambda>a b. selection_max_order a b \<noteq> Greater) (pt_selections st) \<and>
     length (pt_selections st) \<le> ps_selection_limit s \<and>
     distinct (map position_key (pt_selections st)) \<and>
     (\<forall>x \<in> set (pt_selections st). psel_ok s x) \<and>
     (\<forall>b. pt_best st = Some b \<longrightarrow> psel_ok s b) \<and>
     (0 < ps_selection_limit s \<longrightarrow>
       (case pt_best st of None \<Rightarrow> pt_selections st = []
        | Some b \<Rightarrow> pt_selections st \<noteq> [] \<and> hd (pt_selections st) = b))"

lemma sorted_hd_le:
  assumes "sorted_wrt (\<lambda>a b. selection_max_order a b \<noteq> Greater) xs" "x \<in> set xs"
  shows "selection_max_order (hd xs) x \<noteq> Greater"
  using assms max_order.le_refl by (cases xs) auto

lemma hd_sort_max_order:
  assumes "\<And>y. y \<in> set xs \<Longrightarrow> selection_max_order x y \<noteq> Greater" "x \<in> set xs"
    and "\<And>y. y \<in> set xs \<Longrightarrow> position_key y = position_key x \<Longrightarrow> y = x"
  shows "hd (sort_by selection_max_order xs) = x"
proof -
  let ?h = "hd (sort_by selection_max_order xs)"
  have "sort_by selection_max_order xs \<noteq> []" using assms(2) by auto
  then have "?h \<in> set xs" by (metis hd_in_set set_sort_by)
  moreover have "selection_max_order ?h x \<noteq> Greater" by (rule max_order.hd_sort_by_le [OF assms(2)])
  ultimately show ?thesis
    using assms(1,3) max_order_Equal max_order.cmp_flip by (metis ordering.exhaust)
qed

lemma push_head:
  assumes "0 < limit" "xs \<noteq> []" "hd xs = b" "sorted_wrt (\<lambda>a b. selection_max_order a b \<noteq> Greater) xs"
    and "distinct (map position_key xs)" "\<And>x. x \<in> set xs \<Longrightarrow> position_key x = position_key c \<Longrightarrow> x = c"
  shows "push_unique_selection_candidate xs c limit \<noteq> [] \<and>
     hd (push_unique_selection_candidate xs c limit) = (if is_better_max_than c b then c else b)"
proof -
  have le: "selection_max_order b x \<noteq> Greater" if "x \<in> set xs" for x
    using sorted_hd_le [OF assms(4) that] assms(3) by simp
  have b: "b \<in> set xs" using assms(2,3) by auto
  have nb: "\<not> is_better_max_than c b" if "selection_max_order x c \<noteq> Greater" "x \<in> set xs" for x
    using max_order.cmp_le_trans [OF le [OF that(2)] that(1)] max_order.cmp_flip [of b c]
    by (simp add: better_max_order)
  consider (full) "limit \<le> length xs" "selection_max_order c (last xs) \<noteq> Less"
    | (dup) "\<not> (limit \<le> length xs \<and> selection_max_order c (last xs) \<noteq> Less)" "c \<in> set xs"
    | (push) "\<not> (limit \<le> length xs \<and> selection_max_order c (last xs) \<noteq> Less)"
        "\<forall>x \<in> set xs. position_key x \<noteq> position_key c"
    using assms(6) by blast
  then show ?thesis
  proof cases
    case full
    then have "\<not> is_better_max_than c b"
      using nb [of "last xs"] max_order.cmp_flip [of "last xs" c] assms(2) by auto
    with full assms(2,3) show ?thesis by (simp add: push_unique_selection_candidate_def)
  next
    case dup
    then have "\<not> is_better_max_than c b" using nb [of c] max_order.le_refl by auto
    with dup assms(1,2,3) show ?thesis
      by (auto simp: push_unique_selection_candidate_def list_ex_iff)
  next
    case push
    then have new: "push_unique_selection_candidate xs c limit = take limit (sort_by selection_max_order (xs @ [c]))"
      using assms(1,2) by (auto simp: push_unique_selection_candidate_def list_ex_iff)
    have "hd (sort_by selection_max_order (xs @ [c])) = (if is_better_max_than c b then c else b)"
    proof (rule hd_sort_max_order)
      fix y assume y: "y \<in> set (xs @ [c])"
      show "selection_max_order (if is_better_max_than c b then c else b) y \<noteq> Greater"
        using y le [of y] max_order.cmp_le_trans [of c b y] max_order.le_refl max_order.cmp_flip [of b c]
        by (auto simp: better_max_order)
      show "y = (if is_better_max_than c b then c else b)"
        if "position_key y = position_key (if is_better_max_than c b then c else b)"
        using that y push(2) b assms(5) by (auto simp: distinct_map inj_on_def split: if_splits)
    qed (use b in auto)
    moreover have "sort_by selection_max_order (xs @ [c]) \<noteq> []" by simp
    ultimately show ?thesis
      using new assms(1) by (cases "sort_by selection_max_order (xs @ [c])") (auto simp: take_Cons')
  qed
qed

lemma push_list:
  fixes xs :: "utxo_selection list" and c :: utxo_selection
  assumes "sorted_wrt (\<lambda>a b. selection_max_order a b \<noteq> Greater) xs" "length xs \<le> limit"
    and "distinct (map position_key xs)"
  defines "ys \<equiv> push_unique_selection_candidate xs c limit"
  shows "sorted_wrt (\<lambda>a b. selection_max_order a b \<noteq> Greater) ys" "length ys \<le> limit"
    "distinct (map position_key ys)" "set ys \<subseteq> insert c (set xs)"
proof -
  let ?zs = "sort_by selection_max_order (xs @ [c])"
  have cases: "ys = xs \<or> ys = take limit ?zs \<and> (\<forall>x \<in> set xs. position_key x \<noteq> position_key c)"
    by (auto simp: ys_def push_unique_selection_candidate_def list_ex_iff)
  have "sorted_wrt (\<lambda>a b. selection_max_order a b \<noteq> Greater) (take limit ?zs)"
    by (intro sorted_wrt_take max_order.sorted_sort_by)
  then show "sorted_wrt (\<lambda>a b. selection_max_order a b \<noteq> Greater) ys" using cases assms(1) by auto
  show "length ys \<le> limit" using cases assms(2) by auto
  have "distinct (map position_key ?zs)" if "\<forall>x \<in> set xs. position_key x \<noteq> position_key c"
    using that assms(3) by auto
  then show "distinct (map position_key ys)"
    using cases assms(3) by (auto simp: distinct_take simp flip: take_map)
  show "set ys \<subseteq> insert c (set xs)"
    using cases set_take_subset [of limit ?zs] by auto
qed

definition ps_pre :: "partial_search \<Rightarrow> nat \<Rightarrow> u256 \<Rightarrow> partial_state \<Rightarrow> bool" where
  "ps_pre s start tot st \<longleftrightarrow>
     indices_below start (pt_selected st) \<and> start \<le> length (ps_candidates s) \<and>
     length (pt_selected st) \<le> ps_max_input_count s \<and>
     tot = value_sum (picked (ps_candidates s) (pt_selected st))"

lemma ps_pre_next:
  assumes "ps_pre s start tot st" "start \<le> index" "index < length (ps_candidates s)"
    and "length (pt_selected st) < ps_max_input_count s"
  shows "ps_pre s (index + 1) (tot + utxo_value (ps_candidates s ! index))
     (st\<lparr>pt_visits_left := v, pt_selected := pt_selected st @ [index]\<rparr>)"
  using assms indices_below_snoc [of start "pt_selected st" index "index + 1"] by (auto simp: ps_pre_def)

lemma list_inv_frame [simp]:
  "list_inv s (st\<lparr>pt_visits_left := v\<rparr>) = list_inv s st" "list_inv s (st\<lparr>pt_selected := w\<rparr>) = list_inv s st"
  by (simp_all add: list_inv_def cong: option.case_cong)

lemma partial_record_simps [simp]:
  "pt_selected (partial_record s tot st) = pt_selected st"
  "pt_visits_left (partial_record s tot st) = pt_visits_left st"
  by (simp_all add: partial_record_def Let_def)

lemma partial_record_list_inv:
  assumes "distinct (map utxo_key (ps_candidates s))" "ps_pre s start tot st" "pt_selected st \<noteq> []"
    and "tot < ps_amount s" "list_inv s st"
  shows "list_inv s (partial_record s tot st)"
    and "pt_best (partial_record s tot st) =
      (let c = \<lparr>sel_utxos = normalize_selection (picked (ps_candidates s) (pt_selected st)), sel_total = tot\<rparr>
       in case pt_best st of None \<Rightarrow> Some c | Some b \<Rightarrow> Some (if is_better_max_than c b then c else b))"
proof -
  define c where "c = \<lparr>sel_utxos = normalize_selection (picked (ps_candidates s) (pt_selected st)), sel_total = tot\<rparr>"
  have best: "pt_best (partial_record s tot st) =
      (case pt_best st of None \<Rightarrow> Some c | Some b \<Rightarrow> Some (if is_better_max_than c b then c else b))"
    and sels: "pt_selections (partial_record s tot st) =
      push_unique_selection_candidate (pt_selections st) c (ps_selection_limit s)"
    unfolding partial_record_def Let_def c_def picked_def by (auto split: option.splits)
  show "pt_best (partial_record s tot st) =
      (let c = \<lparr>sel_utxos = normalize_selection (picked (ps_candidates s) (pt_selected st)), sel_total = tot\<rparr>
       in case pt_best st of None \<Rightarrow> Some c | Some b \<Rightarrow> Some (if is_better_max_than c b then c else b))"
    unfolding Let_def c_def [symmetric] by (rule best)
  have "indices_below (length (ps_candidates s)) (pt_selected st)"
    using assms(2) by (auto simp: ps_pre_def intro: indices_below_mono)
  then have c: "psel_ok s c"
    using assms(2,3,4) unfolding psel_ok_def c_def by (auto simp: ps_pre_def)
  have inj: "x = c" if "x \<in> set (pt_selections st)" "position_key x = position_key c" for x
    using psel_ok_key_inj [OF assms(1) _ c that(2)] that(1) assms(5) by (auto simp: list_inv_def)
  note list = push_list [of "pt_selections st" "ps_selection_limit s" c]
  have "case pt_best (partial_record s tot st) of None \<Rightarrow> pt_selections (partial_record s tot st) = []
      | Some b \<Rightarrow> pt_selections (partial_record s tot st) \<noteq> [] \<and> hd (pt_selections (partial_record s tot st)) = b"
    if limit: "0 < ps_selection_limit s"
  proof (cases "pt_best st")
    case None
    then have "pt_selections st = []" using assms(5) limit by (simp add: list_inv_def)
    then show ?thesis using None limit by (simp add: best sels push_unique_selection_candidate_def)
  next
    case (Some b)
    then have "pt_selections st \<noteq> []" "hd (pt_selections st) = b" using assms(5) limit by (auto simp: list_inv_def)
    then show ?thesis
      using Some push_head [OF limit, of "pt_selections st" b c] inj assms(5)
      by (simp add: best sels list_inv_def)
  qed
  moreover have "\<forall>b. pt_best (partial_record s tot st) = Some b \<longrightarrow> psel_ok s b"
    using c assms(5) by (auto simp: best list_inv_def split: option.splits)
  ultimately show "list_inv s (partial_record s tot st)"
    using list c assms(5) unfolding list_inv_def sels by blast
qed

definition ps_cut :: "partial_search \<Rightarrow> nat \<Rightarrow> u256 \<Rightarrow> partial_state \<Rightarrow> bool" where
  "ps_cut s start tot st \<longleftrightarrow>
     (let reachable = tot + max_possible_from (ps_candidates s) start (ps_max_input_count s - length (pt_selected st))
      in length (pt_selected st) = ps_max_input_count s \<or> length (ps_candidates s) \<le> start \<or>
         cannot_beat_best s st reachable \<or> cannot_enter_list s st reachable)"

definition ps_visit :: "partial_search \<Rightarrow> nat \<Rightarrow> u256 \<Rightarrow> partial_state \<Rightarrow> partial_state" where
  "ps_visit s index tot st =
     (let st1 = st\<lparr>pt_visits_left := pt_visits_left st - 1\<rparr>;
          next_total = tot + utxo_value (ps_candidates s ! index)
      in if ps_amount s \<le> next_total then st1
         else
           let st2 = partial_record s next_total (st1\<lparr>pt_selected := pt_selected st1 @ [index]\<rparr>);
               st3 = ps_search s (index + 1) next_total st2
           in st3\<lparr>pt_selected := butlast (pt_selected st3)\<rparr>)"

lemma ps_search_cases:
  "ps_search s start tot st = (if ps_cut s start tot st then st else ps_loop s start tot st)"
  by (subst ps_search.simps) (auto simp: ps_cut_def Let_def)

lemma ps_loop_cases:
  "ps_loop s index tot st =
     (if length (ps_candidates s) \<le> index \<or> pt_visits_left st = 0 then st
      else ps_loop s (index + 1) tot (ps_visit s index tot st))"
  by (subst ps_loop.simps) (auto simp: ps_visit_def Let_def)

lemma ps_loop_induct:
  assumes "start \<le> index" "Q index st"
    and last: "\<And>index st. Q index st \<Longrightarrow> start \<le> index \<Longrightarrow>
      length (ps_candidates s) \<le> index \<or> pt_visits_left st = 0 \<Longrightarrow> R st"
    and visit: "\<And>index st. Q index st \<Longrightarrow> start \<le> index \<Longrightarrow> index < length (ps_candidates s) \<Longrightarrow>
      0 < pt_visits_left st \<Longrightarrow> Q (index + 1) (ps_visit s index tot st)"
  shows "R (ps_loop s index tot st)"
  using assms(1,2)
proof (induction "length (ps_candidates s) - index" arbitrary: index st rule: less_induct)
  case less
  show ?case
  proof (cases "length (ps_candidates s) \<le> index \<or> pt_visits_left st = 0")
    case True
    then show ?thesis using last [OF less(3,2)] by (subst ps_loop_cases) simp
  next
    case False
    then have i: "index < length (ps_candidates s)" "0 < pt_visits_left st" by auto
    then have "R (ps_loop s (index + 1) tot (ps_visit s index tot st))"
      using less(1) [OF _ _ visit [OF less(3,2) i]] less(2) by simp
    with False show ?thesis by (subst ps_loop_cases) simp
  qed
qed

lemma ps_sound:
  assumes "distinct (map utxo_key (ps_candidates s))" "ps_pre s start tot st" "list_inv s st"
  shows "pt_selected (ps_search s start tot st) = pt_selected st \<and> list_inv s (ps_search s start tot st)"
  using assms(2,3)
proof (induction "length (ps_candidates s) - start" arbitrary: start tot st rule: less_induct)
  case less
  show ?case
  proof (cases "ps_cut s start tot st")
    case True
    then show ?thesis using less(3) by (simp add: ps_search_cases)
  next
    case False
    then have room: "length (pt_selected st) < ps_max_input_count s"
      using less(2) by (auto simp: ps_cut_def ps_pre_def Let_def)
    let ?Q = "\<lambda>st'. pt_selected st' = pt_selected st \<and> list_inv s st'"
    have visit: "?Q (ps_visit s index tot st')"
      if Q: "?Q st'" and i: "start \<le> index" "index < length (ps_candidates s)" for index st'
    proof -
      let ?nt = "tot + utxo_value (ps_candidates s ! index)"
      let ?st1 = "st'\<lparr>pt_visits_left := pt_visits_left st' - 1, pt_selected := pt_selected st' @ [index]\<rparr>"
      have "ps_pre s start tot st'" using less(2) Q by (simp add: ps_pre_def)
      moreover have "length (pt_selected st') < ps_max_input_count s" using room Q by simp
      ultimately have pre: "ps_pre s (index + 1) ?nt ?st1" by (rule ps_pre_next [OF _ i])
      have inv: "list_inv s ?st1" using Q by simp
      show ?thesis
      proof (cases "ps_amount s \<le> ?nt")
        case True
        then show ?thesis using Q by (simp add: ps_visit_def)
      next
        case False
        then have "list_inv s (partial_record s ?nt ?st1)"
          using partial_record_list_inv(1) [OF assms(1) pre _ _ inv] by (simp add: not_le)
        moreover have "ps_pre s (index + 1) ?nt (partial_record s ?nt ?st1)" using pre by (simp add: ps_pre_def)
        ultimately show ?thesis
          using less(1) [of "index + 1" ?nt "partial_record s ?nt ?st1"] i False Q
          by (auto simp: ps_visit_def Let_def)
      qed
    qed
    have "?Q (ps_loop s start tot st)"
      by (rule ps_loop_induct [where Q = "\<lambda>_. ?Q" and start = start]) (use visit less(3) in auto)
    with False show ?thesis by (simp add: ps_search_cases)
  qed
qed

lemma ps_run_sound:
  assumes "distinct (map utxo_key (ps_candidates s))"
  shows "list_inv s (ps_run s)"
  using ps_sound [OF assms, of 0 0 ps_start]
  by (simp add: ps_run_def ps_pre_def ps_start_def list_inv_def indices_below_def)

section \<open>Optimality of \<open>PartialSelectionSearch\<close>\<close>

definition max_set :: "nat set \<Rightarrow> nat set" where
  "max_set A = {a \<in> A. \<forall>b \<in> A. b \<le> a}"

lemma max_set_absorb:
  assumes "\<And>b. b \<in> B \<Longrightarrow> \<exists>a \<in> A. b \<le> a"
  shows "max_set (A \<union> B) = max_set A"
proof (intro set_eqI iffI)
  fix x assume x: "x \<in> max_set (A \<union> B)"
  then have "x \<in> A" using assms [of x] by (auto simp: max_set_def) (metis UnI1 le_antisym)
  with x show "x \<in> max_set A" by (simp add: max_set_def)
next
  fix x assume x: "x \<in> max_set A"
  then have "b \<le> x" if "b \<in> B" for b
    using assms [OF that] by (auto simp: max_set_def intro: le_trans)
  with x show "x \<in> max_set (A \<union> B)" by (auto simp: max_set_def)
qed

lemma max_set_dominates:
  assumes "finite A" "b \<in> A"
  shows "\<exists>a \<in> max_set A. b \<le> a"
proof
  show "Max A \<in> max_set A" using assms by (auto simp: max_set_def intro: Max_in)
qed (use assms in simp)

lemma max_set_max_set: "finite A \<Longrightarrow> max_set (max_set A \<union> B) = max_set (A \<union> B)"
proof -
  assume fin: "finite A"
  have "max_set ((max_set A \<union> B) \<union> A) = max_set (max_set A \<union> B)"
    by (rule max_set_absorb) (use max_set_dominates [OF fin] in fastforce)
  moreover have "(max_set A \<union> B) \<union> A = A \<union> B" by (auto simp: max_set_def)
  ultimately show ?thesis by simp
qed

lemma max_set_tots [simp]: "max_set (tots b) = tots b"
  by (auto simp: tots_def max_set_def split: option.splits)

lemma finite_tots [simp]: "finite (tots b)"
  by (simp add: tots_def split: option.splits)

text \<open>The totals below the amount that at most \<open>slots\<close> further notes can reach.\<close>

definition preach :: "partial_search \<Rightarrow> nat \<Rightarrow> nat \<Rightarrow> nat \<Rightarrow> nat set" where
  "preach s start slots t =
     {x. (\<exists>j \<in> {1 .. slots}. \<exists>y \<in> pick_sums (drop start (vals (ps_candidates s))) j. x = t + y) \<and>
         x < unat (ps_amount s)}"

lemma finite_preach [simp]: "finite (preach s start slots t)"
  by (rule finite_subset [of _ "{..< unat (ps_amount s)}"]) (auto simp: preach_def)

definition partial_ok :: "partial_search \<Rightarrow> bool" where
  "partial_ok s \<longleftrightarrow>
     descending (ps_candidates s) \<and> nat_sum (ps_candidates s) < 2 ^ 256 \<and>
     distinct (map utxo_key (ps_candidates s))"

lemma ps_pre_total:
  assumes "partial_ok s" "ps_pre s start tot st"
  shows "unat tot + nat_sum (drop start (ps_candidates s)) < 2 ^ 256"
proof -
  have sum: "nat_sum (picked (ps_candidates s) (pt_selected st)) + nat_sum (drop start (ps_candidates s))
      \<le> nat_sum (ps_candidates s)"
    using assms(2) by (intro picked_nat_sum_take) (auto simp: ps_pre_def)
  then have "unat tot = nat_sum (picked (ps_candidates s) (pt_selected st))"
    using assms by (auto simp: ps_pre_def partial_ok_def intro!: unat_value_sum)
  with sum show ?thesis using assms(1) by (simp add: partial_ok_def)
qed

lemma ps_next_total:
  assumes "partial_ok s" "ps_pre s start tot st" "start \<le> index" "index < length (ps_candidates s)"
  shows "unat (tot + utxo_value (ps_candidates s ! index)) = unat tot + val (ps_candidates s ! index)"
proof -
  have "drop index (ps_candidates s) = ps_candidates s ! index # drop (Suc index) (ps_candidates s)"
    using assms(4) by (rule Cons_nth_drop_Suc [symmetric])
  then have "unat tot + val (ps_candidates s ! index) < 2 ^ 256"
    using ps_pre_total [OF assms(1,2)] nat_sum_drop_le [OF assms(3), of "ps_candidates s"] by simp
  then show ?thesis by (simp add: unat_add_no_overflow val_def)
qed

lemma preach_bound:
  assumes "partial_ok s" "ps_pre s start tot st" "x \<in> preach s start slots (unat tot)"
  shows "x \<le> unat (tot + max_possible_from (ps_candidates s) start slots)"
proof -
  let ?cs = "drop start (ps_candidates s)"
  obtain j y where y: "y \<in> pick_sums (vals ?cs) j" "j \<le> slots" "x = unat tot + y"
    using assms(3) by (auto simp: preach_def)
  have "sorted_wrt (\<ge>) (vals ?cs)"
    using assms(1) descending_vals [of "ps_candidates s"]
    by (simp add: partial_ok_def sorted_wrt_drop flip: vals_simps(4))
  from pick_sums_le_max [OF this y(1)] have "y \<le> nat_sum (take j ?cs)" by simp
  also have "\<dots> \<le> nat_sum (take slots ?cs)"
    using y(2) nat_sum_take_le [of j "take slots ?cs"] by (simp add: min_absorb1)
  finally have "x \<le> unat tot + nat_sum (take slots ?cs)" using y(3) by simp
  moreover have "unat (tot + max_possible_from (ps_candidates s) start slots) = unat tot + nat_sum (take slots ?cs)"
    unfolding max_possible_from_def using ps_pre_total [OF assms(1,2)] nat_sum_take_le [of slots ?cs]
    by (intro unat_add_value_sum) simp
  ultimately show ?thesis by simp
qed

lemma preach_cut:
  assumes "partial_ok s" "ps_pre s start tot st" "list_inv s st" "ps_cut s start tot st"
  shows "max_set (tots (pt_best st) \<union> preach s start (ps_max_input_count s - length (pt_selected st)) (unat tot)) =
     tots (pt_best st)"
proof -
  define slots where "slots = ps_max_input_count s - length (pt_selected st)"
  define r where "r = tot + max_possible_from (ps_candidates s) start slots"
  have "\<exists>a \<in> tots (pt_best st). x \<le> a" if x: "x \<in> preach s start slots (unat tot)" for x
  proof -
    have le: "x \<le> unat r" unfolding r_def by (rule preach_bound [OF assms(1,2) x])
    have "slots \<noteq> 0" using x by (auto simp: preach_def)
    moreover have "\<not> length (ps_candidates s) \<le> start"
      using x by (auto simp: preach_def pick_sums_short)
    ultimately consider "cannot_beat_best s st r" | "cannot_enter_list s st r"
      using assms(4) by (auto simp: ps_cut_def Let_def r_def slots_def)
    then show ?thesis
    proof cases
      case 1
      then show ?thesis using le by (auto simp: cannot_beat_best_def tots_def word_le_nat_alt split: option.splits)
    next
      case 2
      then obtain b where b: "pt_best st = Some b" "hd (pt_selections st) = b"
        using assms(3) by (auto simp: list_inv_def cannot_enter_list_def split: option.splits)
      have "sel_total (last (pt_selections st)) \<le> sel_total b"
        using 2 b(2) assms(3) sorted_hd_le [of "pt_selections st" "last (pt_selections st)"] max_order_total
        by (auto simp: list_inv_def cannot_enter_list_def)
      then show ?thesis
        using 2 le b(1) by (auto simp: cannot_enter_list_def tots_def word_le_nat_alt word_less_nat_alt)
    qed
  qed
  then have "max_set (tots (pt_best st) \<union> preach s start slots (unat tot)) = max_set (tots (pt_best st))"
    by (rule max_set_absorb)
  then show ?thesis by (simp add: slots_def)
qed

lemma preach_step:
  assumes "index < length (ps_candidates s)"
  defines "v \<equiv> val (ps_candidates s ! index)"
  shows "preach s index (Suc m) t =
     (if t + v < unat (ps_amount s) then insert (t + v) (preach s (index + 1) m (t + v)) else {}) \<union>
     preach s (index + 1) (Suc m) t" (is "?L = ?R")
proof -
  let ?vs = "vals (ps_candidates s)"
  have step: "pick_sums (drop index ?vs) (Suc j) =
      (\<lambda>x. v + x) ` pick_sums (drop (Suc index) ?vs) j \<union> pick_sums (drop (Suc index) ?vs) (Suc j)" for j
    using pick_sums_drop [of index ?vs j] assms by simp
  have "x \<in> ?R" if x: "x \<in> ?L" for x
  proof -
    obtain j y where j: "j \<le> m" "y \<in> pick_sums (drop index ?vs) (Suc j)" "x = t + y" "x < unat (ps_amount s)"
    proof -
      from x obtain j y where "1 \<le> j" "j \<le> Suc m" "y \<in> pick_sums (drop index ?vs) j" "x = t + y"
        "x < unat (ps_amount s)" by (auto simp: preach_def)
      then show ?thesis using that by (cases j) auto
    qed
    from j(2) step consider z where "y = v + z" "z \<in> pick_sums (drop (Suc index) ?vs) j"
      | "y \<in> pick_sums (drop (Suc index) ?vs) (Suc j)" by blast
    then show ?thesis
    proof cases
      case 1
      then show ?thesis using j by (cases j) (auto simp: preach_def add.assoc)
    next
      case 2
      then show ?thesis using j by (auto simp: preach_def)
    qed
  qed
  moreover have "x \<in> ?L" if x: "x \<in> ?R" for x
  proof -
    from x consider "x = t + v" "t + v < unat (ps_amount s)"
      | "x \<in> preach s (index + 1) m (t + v)" | "x \<in> preach s (index + 1) (Suc m) t"
      by (auto split: if_splits)
    then show ?thesis
    proof cases
      case 1
      moreover have "v \<in> pick_sums (drop index ?vs) (Suc 0)" unfolding step by simp
      ultimately show ?thesis unfolding preach_def by fastforce
    next
      case 2
      then obtain j z where "1 \<le> j" "j \<le> m" "z \<in> pick_sums (drop (Suc index) ?vs) j" "x = t + v + z"
        "x < unat (ps_amount s)" by (auto simp: preach_def)
      moreover from this have "v + z \<in> pick_sums (drop index ?vs) (Suc j)" unfolding step by blast
      ultimately show ?thesis unfolding preach_def by (fastforce simp: add.assoc)
    next
      case 3
      then show ?thesis
        using pick_sums_drop_mono [of index ?vs] by (fastforce simp: preach_def simp del: vals_simps(4))
    qed
  qed
  ultimately show ?thesis by blast
qed


lemma record_max:
  assumes "distinct (map utxo_key (ps_candidates s))" "ps_pre s start tot st" "pt_selected st \<noteq> []"
    and "tot < ps_amount s" "list_inv s st"
  shows "tots (pt_best (partial_record s tot st)) = max_set (tots (pt_best st) \<union> {unat tot})"
proof (cases "pt_best st")
  case None
  then show ?thesis
    by (auto simp: partial_record_list_inv(2) [OF assms] tots_def max_set_def Let_def)
next
  case (Some b)
  let ?c = "\<lparr>sel_utxos = normalize_selection (picked (ps_candidates s) (pt_selected st)), sel_total = tot\<rparr>"
  have "is_better_max_than ?c b \<Longrightarrow> sel_total b \<le> tot" "\<not> is_better_max_than ?c b \<Longrightarrow> tot \<le> sel_total b"
    by (auto simp: is_better_max_than_def cmp_def split: if_splits)
  then show ?thesis
    using Some by (auto simp: partial_record_list_inv(2) [OF assms] tots_def max_set_def Let_def word_le_nat_alt)
qed

definition ploop_inv ::
  "partial_search \<Rightarrow> nat \<Rightarrow> nat \<Rightarrow> nat \<Rightarrow> partial_state \<Rightarrow> nat \<Rightarrow> partial_state \<Rightarrow> bool" where
  "ploop_inv s start m t st index st' \<longleftrightarrow>
     pt_selected st' = pt_selected st \<and> list_inv s st' \<and> index \<le> length (ps_candidates s) \<and>
     max_set (tots (pt_best st') \<union> preach s index (Suc m) t) =
       max_set (tots (pt_best st) \<union> preach s start (Suc m) t) \<and>
     pt_visits_left st + 2 ^ (length (ps_candidates s) - index)
       \<le> pt_visits_left st' + 2 ^ (length (ps_candidates s) - start)"

lemma ploop_inv_budget:
  assumes "ploop_inv s start m t st index st'"
  shows "pt_visits_left st < pt_visits_left st' + 2 ^ (length (ps_candidates s) - start)"
proof -
  have "(0::nat) < 2 ^ (length (ps_candidates s) - index)" by simp
  then show ?thesis using assms unfolding ploop_inv_def by linarith
qed

lemma ploop_inv_visit:
  assumes inv: "ploop_inv s start m t st index st'" and index: "index < length (ps_candidates s)"
    and cover: "tots (pt_best st'') = max_set (tots (pt_best st') \<union>
      (if t + val (ps_candidates s ! index) < unat (ps_amount s)
       then insert (t + val (ps_candidates s ! index)) (preach s (index + 1) m (t + val (ps_candidates s ! index)))
       else {}))"
    and keep: "pt_selected st'' = pt_selected st'" "list_inv s st''"
    and used: "pt_visits_left st' \<le> pt_visits_left st'' + 2 ^ (length (ps_candidates s) - (index + 1))"
  shows "ploop_inv s start m t st (index + 1) st''"
proof -
  define F where "F = (if t + val (ps_candidates s ! index) < unat (ps_amount s)
       then insert (t + val (ps_candidates s ! index)) (preach s (index + 1) m (t + val (ps_candidates s ! index)))
       else {})"
  have "finite (tots (pt_best st') \<union> F)" by (simp add: F_def)
  then have "max_set (tots (pt_best st'') \<union> preach s (index + 1) (Suc m) t) =
      max_set (tots (pt_best st') \<union> F \<union> preach s (index + 1) (Suc m) t)"
    unfolding cover F_def [symmetric] by (rule max_set_max_set)
  also have "\<dots> = max_set (tots (pt_best st') \<union> preach s index (Suc m) t)"
    by (simp add: preach_step [OF index] F_def Un_ac)
  finally have "max_set (tots (pt_best st'') \<union> preach s (index + 1) (Suc m) t) =
      max_set (tots (pt_best st) \<union> preach s start (Suc m) t)"
    using inv by (simp add: ploop_inv_def)
  moreover have "(2::nat) ^ (length (ps_candidates s) - index) =
      2 * 2 ^ (length (ps_candidates s) - (index + 1))"
    using index by (simp add: Suc_diff_Suc flip: power_Suc)
  ultimately show ?thesis
    using inv index keep used unfolding ploop_inv_def by auto
qed

lemma ps_visit_inv:
  assumes ok: "partial_ok s" and pre: "ps_pre s start tot st'"
    and slots: "ps_max_input_count s - length (pt_selected st') = Suc m"
    and Q: "ploop_inv s start m (unat tot) st index st'"
    and i: "start \<le> index" "index < length (ps_candidates s)" and left: "0 < pt_visits_left st'"
    and budget: "2 ^ (length (ps_candidates s) - index) \<le> pt_visits_left st'"
    and IH: "\<And>tot' st1. ps_pre s (index + 1) tot' st1 \<Longrightarrow> list_inv s st1 \<Longrightarrow>
      2 ^ (length (ps_candidates s) - (index + 1)) \<le> pt_visits_left st1 \<Longrightarrow>
      tots (pt_best (ps_search s (index + 1) tot' st1)) =
        max_set (tots (pt_best st1) \<union>
          preach s (index + 1) (ps_max_input_count s - length (pt_selected st1)) (unat tot')) \<and>
      pt_visits_left st1 < pt_visits_left (ps_search s (index + 1) tot' st1)
        + 2 ^ (length (ps_candidates s) - (index + 1))"
  shows "ploop_inv s start m (unat tot) st (index + 1) (ps_visit s index tot st')"
proof -
  let ?n = "length (ps_candidates s)"
  let ?st1 = "st'\<lparr>pt_visits_left := pt_visits_left st' - 1, pt_selected := pt_selected st' @ [index]\<rparr>"
  let ?nt = "tot + utxo_value (ps_candidates s ! index)"
  have inv: "list_inv s st'" using Q by (simp add: ploop_inv_def)
  have dist: "distinct (map utxo_key (ps_candidates s))" using ok by (simp add: partial_ok_def)
  have one: "(1::nat) \<le> 2 ^ (?n - (index + 1))" by simp
  note nt = ps_next_total [OF ok pre i]
  show ?thesis
  proof (cases "ps_amount s \<le> ?nt")
    case True
    then have "\<not> unat tot + val (ps_candidates s ! index) < unat (ps_amount s)"
      using nt by (simp add: word_le_nat_alt)
    moreover have "pt_visits_left st' \<le> pt_visits_left st' - 1 + 2 ^ (?n - (index + 1))" using one by linarith
    ultimately have "ploop_inv s start m (unat tot) st (index + 1) (st'\<lparr>pt_visits_left := pt_visits_left st' - 1\<rparr>)"
      using inv by (intro ploop_inv_visit [OF Q i(2)]) auto
    then show ?thesis using True by (simp add: ps_visit_def)
  next
    case new: False
    then have low: "?nt < ps_amount s" "unat tot + val (ps_candidates s ! index) < unat (ps_amount s)"
      using nt by (simp_all add: word_less_nat_alt word_le_nat_alt)
    have pre1: "ps_pre s (index + 1) ?nt ?st1" using slots by (intro ps_pre_next [OF pre i]) simp
    define st2 where "st2 = partial_record s ?nt ?st1"
    have inv1: "list_inv s ?st1" using inv by simp
    have inv2: "list_inv s st2" unfolding st2_def using partial_record_list_inv(1) [OF dist pre1 _ low(1) inv1] by simp
    have best2: "tots (pt_best st2) = max_set (tots (pt_best st') \<union> {unat ?nt})"
      unfolding st2_def using record_max [OF dist pre1 _ low(1) inv1] by simp
    have pre2: "ps_pre s (index + 1) ?nt st2" using pre1 by (simp add: st2_def ps_pre_def)
    have "(2::nat) ^ (?n - index) = 2 * 2 ^ (?n - (index + 1))"
      using i by (simp add: Suc_diff_Suc flip: power_Suc)
    with one budget have budget2: "2 ^ (?n - (index + 1)) \<le> pt_visits_left st2" by (simp add: st2_def)
    have slots2: "ps_max_input_count s - length (pt_selected st2) = m" using slots by (simp add: st2_def)
    have left2: "pt_visits_left st2 = pt_visits_left st' - 1" "pt_selected st2 = pt_selected st' @ [index]"
      by (simp_all add: st2_def)
    define st3 where "st3 = ps_search s (index + 1) ?nt st2"
    have "tots (pt_best st3) = max_set (tots (pt_best st2) \<union> preach s (index + 1) m (unat ?nt))"
      "pt_visits_left st2 < pt_visits_left st3 + 2 ^ (?n - (index + 1))"
      using IH [OF pre2 inv2 budget2] unfolding slots2 st3_def by blast+
    moreover have "max_set (tots (pt_best st2) \<union> preach s (index + 1) m (unat ?nt)) =
        max_set (tots (pt_best st') \<union> insert (unat ?nt) (preach s (index + 1) m (unat ?nt)))"
      unfolding best2 by (subst max_set_max_set) simp_all
    ultimately have "tots (pt_best st3) = max_set (tots (pt_best st') \<union> insert (unat ?nt) (preach s (index + 1) m (unat ?nt)))"
      "pt_visits_left st' \<le> pt_visits_left st3 + 2 ^ (?n - (index + 1))"
      using left left2(1) by simp_all
    moreover have "pt_selected st3 = pt_selected st' @ [index]" "list_inv s st3"
      using ps_sound [OF dist pre2 inv2] by (simp_all add: st3_def left2)
    ultimately have "ploop_inv s start m (unat tot) st (index + 1) (st3\<lparr>pt_selected := butlast (pt_selected st3)\<rparr>)"
      using low by (intro ploop_inv_visit [OF Q i(2)]) (auto simp: nt)
    then show ?thesis using new by (simp add: ps_visit_def Let_def st2_def st3_def)
  qed
qed

theorem ps_optimal:
  assumes "partial_ok s" "ps_pre s start tot st" "list_inv s st"
    and "2 ^ (length (ps_candidates s) - start) \<le> pt_visits_left st"
  shows "tots (pt_best (ps_search s start tot st)) =
       max_set (tots (pt_best st) \<union> preach s start (ps_max_input_count s - length (pt_selected st)) (unat tot)) \<and>
     pt_visits_left st < pt_visits_left (ps_search s start tot st) + 2 ^ (length (ps_candidates s) - start)"
  using assms(2-4)
proof (induction "length (ps_candidates s) - start" arbitrary: start tot st rule: less_induct)
  case less
  let ?n = "length (ps_candidates s)"
  show ?case
  proof (cases "ps_cut s start tot st")
    case True
    then show ?thesis using preach_cut [OF assms(1) less(2,3) True] by (simp add: ps_search_cases)
  next
    case False
    then have "length (pt_selected st) < ps_max_input_count s" and start: "start < ?n"
      using less(2) by (auto simp: ps_cut_def ps_pre_def Let_def)
    then obtain m where m: "ps_max_input_count s - length (pt_selected st) = Suc m"
      by (metis Suc_diff_Suc)
    let ?Q = "ploop_inv s start m (unat tot) st"
    let ?R = "\<lambda>st'. tots (pt_best st') =
        max_set (tots (pt_best st) \<union> preach s start (Suc m) (unat tot)) \<and>
        pt_visits_left st < pt_visits_left st' + 2 ^ (?n - start)"
    have visit: "?Q (index + 1) (ps_visit s index tot st')"
      if Q: "?Q index st'" and i: "start \<le> index" "index < ?n" and left: "0 < pt_visits_left st'" for index st'
    proof -
      have "ps_pre s start tot st'" "ps_max_input_count s - length (pt_selected st') = Suc m"
        using less(2) Q m by (simp_all add: ps_pre_def ploop_inv_def)
      moreover have "2 ^ (?n - index) \<le> pt_visits_left st'" using Q less(4) by (auto simp: ploop_inv_def)
      ultimately show ?thesis
        using less(1) [of "index + 1"] i by (intro ps_visit_inv [OF assms(1) _ _ Q i left]) auto
    qed
    have "?R (ps_loop s start tot st)"
    proof (rule ps_loop_induct [where Q = ?Q and start = start])
      show "?Q start st" using less(3) start by (simp add: ploop_inv_def)
    next
      fix index st' assume Q: "?Q index st'" and stop: "?n \<le> index \<or> pt_visits_left st' = 0"
      have "pt_visits_left st' \<noteq> 0" using less(4) ploop_inv_budget [OF Q] by auto
      then have "preach s index (Suc m) (unat tot) = {}" using stop by (auto simp: preach_def pick_sums_short)
      then show "?R st'" using Q ploop_inv_budget [OF Q] by (auto simp: ploop_inv_def)
    qed (use visit in auto)
    with False m show ?thesis by (simp add: ps_search_cases)
  qed
qed

lemma ps_run_optimal:
  assumes "partial_ok s" "length (ps_candidates s) \<le> MAX_CIRCUIT_INPUTS"
  shows "tots (pt_best (ps_run s)) = max_set (preach s 0 (ps_max_input_count s) 0)"
proof -
  have "(2::nat) ^ length (ps_candidates s) \<le> MAX_SELECTION_SEARCH_VISITS"
    unfolding MAX_SELECTION_SEARCH_VISITS_def using assms(2) by (intro power_increasing) auto
  then show ?thesis
    using ps_optimal [OF assms(1), of 0 0 ps_start]
    by (simp add: ps_run_def ps_start_def ps_pre_def list_inv_def indices_below_def tots_def)
qed

end
