(* ===== verification/Selection.thy ===== *)
theory Selection
  imports PartialSearch
begin

text \<open>
  The selection functions of \<open>railgun-wallet/src/tx/builder/selection.rs\<close> on top of the two
  searches: one transaction out of one tree, batches of transactions, alternative candidates
  and the summaries shown before a plan is built. The errors are those of
  \<open>railgun-wallet/src/tx/error.rs\<close>, the request types those of \<open>railgun-wallet/src/tx/types.rs\<close>.
\<close>

section \<open>Shared types\<close>

record executor_context =
  ec_chain_id :: u64
  ec_executor :: address
  ec_delegate :: address
  ec_execution_nonce :: u256

datatype composite_execution =
    Direct address
  | RelayAdaptExecution address
  | ExecutorExecution executor_context

text \<open>The counterpart of the method \<open>account\<close>.\<close>

definition execution_account :: "composite_execution \<Rightarrow> address" where
  "execution_account e =
     (case e of Direct account \<Rightarrow> account | RelayAdaptExecution account \<Rightarrow> account
      | ExecutorExecution context \<Rightarrow> ec_executor context)"

record composite_plan_shape =
  cps_execution :: composite_execution
  cps_transaction_count :: nat
  cps_input_count :: nat
  cps_private_output_count :: nat
  cps_public_output_count :: nat
  cps_relay_call_count :: nat
  cps_uses_relay_adapt :: bool

type_synonym selected_input_identity = "u32 \<times> u64"

datatype build_error =
    InsufficientBalance u256
  | InsufficientFeeTokenBalance u256
  | TooManyInputs
  | MixedTrees
  | TokenMismatch
  | SignatureInputLimit nat nat
  | MissingRoot
  | EmptyCompositeUnshieldRequest
  | EmptyMixedPrivateActionRequest
  | MissingCompositeRelayActions
  | MissingCompositeAdapter
  | UnusedRelayAdapt
  | InvalidExecutorContext
  | ConflictingExecutorActions
  | InvalidExecutorCall
  | InvalidExecutorSignature
  | TooManyBatchTransactions nat nat
  | InvalidRelayAdaptActionAmount
  | DuplicatePinnedInput u32 u64
  | PinnedInputUnavailable u32 u64
  | PinnedInputsInsufficient u256
  | PinnedInputsChanged "selected_input_identity list" "selected_input_identity list"
  | CompositePlanShapeChanged composite_plan_shape composite_plan_shape
  | MissingProof u32 u64
  | MinGasPriceTooLarge u128
  | InvalidSwapRequest
  | SwapAppDataTooLarge nat nat
  | AppData
  | Encrypt note_error
  | Prover

section \<open>One transaction\<close>

definition token_hash_of :: "address \<Rightarrow> u256" where
  "token_hash_of token_address = u256_from_be_slice (address_bytes token_address)"

definition token_utxos_by_tree :: "utxo list \<Rightarrow> address \<Rightarrow> (u32, utxo list) btree_map" where
  "token_utxos_by_tree utxos token_address =
     (let token_hash = token_hash_of token_address
      in foldl (\<lambda>by_tree u. bt_upsert (utxo_tree u) [] (\<lambda>us. us @ [u]) by_tree) []
           (filter (\<lambda>u. note_token_hash (utxo_note u) = token_hash \<and> utxo_value u \<noteq> 0) utxos))"

text \<open>The first defined result of a loop that returns as soon as it has one.\<close>

fun first_some :: "('a \<Rightarrow> 'b option) \<Rightarrow> 'a list \<Rightarrow> 'b option" where
  "first_some f [] = None"
| "first_some f (x # xs) = (case f x of Some y \<Rightarrow> Some y | None \<Rightarrow> first_some f xs)"

definition best_tree_selection :: "utxo list \<Rightarrow> u256 \<Rightarrow> nat \<Rightarrow> utxo_selection option" where
  "best_tree_selection candidates amount base_output_count =
     (let candidates = sort_search_candidates candidates
      in first_some (\<lambda>input_count. st_best (ss_run (ss_new candidates amount input_count base_output_count)))
           [1 ..< max_inputs_for_base_outputs base_output_count + 1])"

definition best_unshield_selection :: "utxo list \<Rightarrow> address \<Rightarrow> u256 \<Rightarrow> nat \<Rightarrow> utxo_selection option" where
  "best_unshield_selection utxos token_address amount base_output_count =
     foldl (\<lambda>best candidates.
         case best_tree_selection candidates amount base_output_count of
           None \<Rightarrow> best
         | Some selection \<Rightarrow>
             if (case best of None \<Rightarrow> True | Some b \<Rightarrow> is_better_for_amount_than selection b amount)
             then Some selection else best)
       None (bt_values (token_utxos_by_tree utxos token_address))"

definition max_unshield_selection_with_output_count ::
  "utxo list \<Rightarrow> address \<Rightarrow> nat \<Rightarrow> utxo_selection option" where
  "max_unshield_selection_with_output_count utxos token_address base_output_count =
     (let max_input_count = max_inputs_for_base_outputs base_output_count
      in if max_input_count = 0 then None
         else foldl (\<lambda>best candidates.
             let candidates = take max_input_count (sort_search_candidates candidates);
                 tot = value_sum candidates
             in if tot = 0 then best
                else
                  let selection = \<lparr>sel_utxos = normalize_selection candidates, sel_total = tot\<rparr>
                  in if (case best of None \<Rightarrow> True | Some b \<Rightarrow> is_better_max_than selection b)
                     then Some selection else best)
           None (bt_values (token_utxos_by_tree utxos token_address)))"

definition partial_transaction_selection_candidates ::
  "utxo list \<Rightarrow> address \<Rightarrow> u256 \<Rightarrow> nat \<Rightarrow> utxo_selection list" where
  "partial_transaction_selection_candidates utxos token_address amount base_output_count =
     (if amount \<le> 1 then []
      else
        let max_input_count = max_inputs_for_base_outputs base_output_count
        in if max_input_count = 0 then []
           else
             let selections = concat (map (\<lambda>candidates.
                   pt_selections (ps_run (ps_new (sort_search_candidates candidates) amount max_input_count
                     MAX_PARTIAL_SELECTION_CANDIDATES_PER_TREE)))
                   (bt_values (token_utxos_by_tree utxos token_address)))
             in take MAX_ALTERNATE_BATCH_CANDIDATES (sort_by selection_max_order selections))"

definition best_partial_selection_below_amount ::
  "utxo list \<Rightarrow> address \<Rightarrow> u256 \<Rightarrow> nat \<Rightarrow> utxo_selection option" where
  "best_partial_selection_below_amount utxos token_address amount base_output_count =
     (case partial_transaction_selection_candidates utxos token_address amount base_output_count of
        [] \<Rightarrow> None | selection # _ \<Rightarrow> Some selection)"

definition option_max :: "u256 option \<Rightarrow> u256 \<Rightarrow> u256 option" where
  "option_max m x = (case m of None \<Rightarrow> Some x | Some y \<Rightarrow> Some (max y x))"

definition max_tree_total_below :: "utxo list \<Rightarrow> address \<Rightarrow> u256 \<Rightarrow> nat \<Rightarrow> u256 option" where
  "max_tree_total_below utxos token_address limit max_inputs =
     foldl option_max None
       (List.map_filter (\<lambda>candidates.
           map_option sel_total (pt_best (ps_run (ps_new (sort_search_candidates candidates) limit max_inputs 1))))
         (bt_values (token_utxos_by_tree utxos token_address)))"

definition unshield_selection_candidates_for_input_count ::
  "utxo list \<Rightarrow> address \<Rightarrow> u256 \<Rightarrow> nat \<Rightarrow> nat \<Rightarrow> utxo_selection list" where
  "unshield_selection_candidates_for_input_count utxos token_address amount base_output_count input_count =
     sort_by (selection_amount_order amount)
       (List.map_filter (\<lambda>candidates.
           st_best (ss_run (ss_new (sort_search_candidates candidates) amount input_count base_output_count)))
         (bt_values (token_utxos_by_tree utxos token_address)))"

text \<open>The loop over the input counts that stops once enough candidates are collected.\<close>

fun collect_single_candidates ::
  "(nat \<Rightarrow> utxo_selection list) \<Rightarrow> nat list \<Rightarrow> utxo_selection list \<Rightarrow> utxo_selection list" where
  "collect_single_candidates f [] candidates = candidates"
| "collect_single_candidates f (input_count # counts) candidates =
     (let candidates' = candidates @ f input_count
      in if MAX_ALTERNATE_BATCH_CANDIDATES \<le> length candidates'
         then take MAX_ALTERNATE_BATCH_CANDIDATES candidates'
         else collect_single_candidates f counts candidates')"

definition single_transaction_selection_candidates ::
  "utxo list \<Rightarrow> address \<Rightarrow> u256 \<Rightarrow> nat \<Rightarrow> utxo_selection list" where
  "single_transaction_selection_candidates utxos token_address amount base_output_count =
     collect_single_candidates
       (unshield_selection_candidates_for_input_count utxos token_address amount base_output_count)
       [1 ..< max_inputs_for_base_outputs base_output_count + 1] []"

section \<open>Batches\<close>

record batch_utxo_selection =
  bs_chunks :: "utxo_selection list"
  bs_total :: u256

definition batch_input_count :: "batch_utxo_selection \<Rightarrow> nat" where
  "batch_input_count b = sum_list (map (\<lambda>chunk. length (sel_utxos chunk)) (bs_chunks b))"

definition remove_selected_utxos :: "utxo list \<Rightarrow> utxo list \<Rightarrow> utxo list" where
  "remove_selected_utxos utxos selected =
     filter (\<lambda>u. \<not> list_ex (\<lambda>s. utxo_tree s = utxo_tree u \<and> utxo_position s = utxo_position u) selected) utxos"

text \<open>\<open>fuel\<close> counts the iterations left of the loop over \<open>0..max_transactions\<close>.\<close>

fun max_batch_loop ::
  "nat \<Rightarrow> address \<Rightarrow> nat \<Rightarrow> nat \<Rightarrow> utxo list \<Rightarrow> utxo_selection list \<Rightarrow> u256 \<Rightarrow> utxo_selection list \<times> u256" where
  "max_batch_loop 0 token_address base continuation_base rem_utxos chunks tot = (chunks, tot)"
| "max_batch_loop (Suc n) token_address base continuation_base rem_utxos chunks tot =
     (case max_unshield_selection_with_output_count rem_utxos token_address base of
        None \<Rightarrow> (chunks, tot)
      | Some selection \<Rightarrow>
          if sel_total selection = 0 then (chunks, tot)
          else max_batch_loop n token_address continuation_base continuation_base
                 (remove_selected_utxos rem_utxos (sel_utxos selection)) (chunks @ [selection])
                 (tot + sel_total selection))"

definition max_batch_selection ::
  "utxo list \<Rightarrow> address \<Rightarrow> nat \<Rightarrow> nat \<Rightarrow> nat \<Rightarrow> batch_utxo_selection option" where
  "max_batch_selection utxos token_address first_base_output_count continuation_base_output_count max_transactions =
     (case max_batch_loop max_transactions token_address first_base_output_count
             continuation_base_output_count utxos [] 0 of
        (chunks, tot) \<Rightarrow> if chunks = [] then None else Some \<lparr>bs_chunks = chunks, bs_total = tot\<rparr>)"

definition max_total :: "batch_utxo_selection option \<Rightarrow> u256" where
  "max_total b = (case b of None \<Rightarrow> 0 | Some s \<Rightarrow> bs_total s)"

definition max_batch_spendable_with_limit :: "utxo list \<Rightarrow> address \<Rightarrow> nat \<Rightarrow> nat \<Rightarrow> nat \<Rightarrow> u256" where
  "max_batch_spendable_with_limit utxos token_address first_base_output_count
       continuation_base_output_count max_transactions =
     max_total (max_batch_selection utxos token_address first_base_output_count
       continuation_base_output_count max_transactions)"

definition max_batch_spendable :: "utxo list \<Rightarrow> address \<Rightarrow> nat \<Rightarrow> nat \<Rightarrow> u256" where
  "max_batch_spendable utxos token_address first_base_output_count continuation_base_output_count =
     max_batch_spendable_with_limit utxos token_address first_base_output_count
       continuation_base_output_count MAX_BATCH_TRANSACTIONS"

fun greedy_loop ::
  "nat \<Rightarrow> address \<Rightarrow> nat \<Rightarrow> nat \<Rightarrow> utxo list \<Rightarrow> u256 \<Rightarrow> utxo_selection list \<Rightarrow> u256 \<Rightarrow>
     batch_utxo_selection option" where
  "greedy_loop 0 token_address base continuation_base rem_utxos rem_amount chunks tot = None"
| "greedy_loop (Suc n) token_address base continuation_base rem_utxos rem_amount chunks tot =
     (case best_unshield_selection rem_utxos token_address rem_amount base of
        Some selection \<Rightarrow>
          Some \<lparr>bs_chunks = chunks @ [selection], bs_total = tot + sel_total selection\<rparr>
      | None \<Rightarrow>
          (case max_unshield_selection_with_output_count rem_utxos token_address base of
             None \<Rightarrow> None
           | Some most \<Rightarrow>
               if sel_total most = 0 then None
               else
                 (case (if sel_total most < rem_amount then Some most
                        else best_partial_selection_below_amount rem_utxos token_address rem_amount base) of
                    None \<Rightarrow> None
                  | Some selection \<Rightarrow>
                      greedy_loop n token_address continuation_base continuation_base
                        (remove_selected_utxos rem_utxos (sel_utxos selection))
                        (rem_amount - sel_total selection) (chunks @ [selection]) (tot + sel_total selection))))"

definition greedy_batched_selection ::
  "utxo list \<Rightarrow> address \<Rightarrow> u256 \<Rightarrow> nat \<Rightarrow> nat \<Rightarrow> nat \<Rightarrow> batch_utxo_selection option" where
  "greedy_batched_selection utxos token_address amount first_base_output_count
       continuation_base_output_count max_transactions =
     greedy_loop max_transactions token_address first_base_output_count continuation_base_output_count
       utxos amount [] 0"

definition select_batched_utxos_with_limit ::
  "utxo list \<Rightarrow> address \<Rightarrow> u256 \<Rightarrow> bool \<Rightarrow> nat \<Rightarrow> nat \<Rightarrow> nat \<Rightarrow> build_error + batch_utxo_selection" where
  "select_batched_utxos_with_limit utxos token_address amount spend_up_to first_base_output_count
       continuation_base_output_count max_transactions =
     (let max_selection = max_batch_selection utxos token_address first_base_output_count
            continuation_base_output_count max_transactions;
          max_spendable = max_total max_selection
      in if amount = 0 then Inl (InsufficientBalance max_spendable)
         else
           case best_unshield_selection utxos token_address amount first_base_output_count of
             Some selection \<Rightarrow> Inr \<lparr>bs_chunks = [selection], bs_total = sel_total selection\<rparr>
           | None \<Rightarrow>
               (case greedy_batched_selection utxos token_address amount first_base_output_count
                       continuation_base_output_count max_transactions of
                  Some selection \<Rightarrow> Inr selection
                | None \<Rightarrow>
                    (case max_selection of
                       Some most \<Rightarrow>
                         if spend_up_to \<and> bs_total most \<noteq> 0 \<and> bs_total most < amount then Inr most
                         else Inl (InsufficientBalance max_spendable)
                     | None \<Rightarrow> Inl (InsufficientBalance max_spendable))))"

definition select_batched_utxos ::
  "utxo list \<Rightarrow> address \<Rightarrow> u256 \<Rightarrow> bool \<Rightarrow> nat \<Rightarrow> nat \<Rightarrow> build_error + batch_utxo_selection" where
  "select_batched_utxos utxos token_address amount spend_up_to first_base_output_count
       continuation_base_output_count =
     select_batched_utxos_with_limit utxos token_address amount spend_up_to first_base_output_count
       continuation_base_output_count MAX_BATCH_TRANSACTIONS"

definition select_utxos ::
  "utxo list \<Rightarrow> address \<Rightarrow> u256 \<Rightarrow> bool \<Rightarrow> nat \<Rightarrow> build_error + utxo list \<times> u256" where
  "select_utxos utxos token_address amount spend_up_to base_output_count =
     (let max_selection = max_unshield_selection_with_output_count utxos token_address base_output_count;
          max_spendable = (case max_selection of None \<Rightarrow> 0 | Some s \<Rightarrow> sel_total s)
      in if amount = 0 then Inl (InsufficientBalance max_spendable)
         else
           case best_unshield_selection utxos token_address amount base_output_count of
             Some selection \<Rightarrow> Inr (sel_utxos selection, sel_total selection)
           | None \<Rightarrow>
               (case max_selection of
                  Some most \<Rightarrow>
                    if spend_up_to \<and> sel_total most \<noteq> 0 \<and> sel_total most < amount
                    then Inr (sel_utxos most, sel_total most)
                    else Inl (InsufficientBalance max_spendable)
                | None \<Rightarrow> Inl (InsufficientBalance max_spendable)))"

definition select_fee_utxos :: "utxo list \<Rightarrow> address \<Rightarrow> u256 \<Rightarrow> build_error + utxo_selection" where
  "select_fee_utxos utxos fee_token_address fee_amount =
     (let max_selection = max_unshield_selection_with_output_count utxos fee_token_address 1;
          max_spendable = (case max_selection of None \<Rightarrow> 0 | Some s \<Rightarrow> sel_total s)
      in if fee_amount = 0 then Inl (InsufficientFeeTokenBalance max_spendable)
         else ok_or (best_unshield_selection utxos fee_token_address fee_amount 1)
                (InsufficientFeeTokenBalance max_spendable))"

subsection \<open>Alternative candidates\<close>

definition batch_selection_key :: "batch_utxo_selection \<Rightarrow> (u32 \<times> u64) list list" where
  "batch_selection_key b = map position_key (bs_chunks b)"

definition push_unique_batch_candidate ::
  "batch_utxo_selection list \<Rightarrow> batch_utxo_selection \<Rightarrow> batch_utxo_selection list" where
  "push_unique_batch_candidate candidates candidate =
     (if list_ex (\<lambda>existing. batch_selection_key existing = batch_selection_key candidate) candidates
      then candidates else candidates @ [candidate])"

text \<open>
  The first loop of the multi-transaction search: it stops with the flag \<open>True\<close> once the list of
  candidates is full.
\<close>

fun push_final_candidates ::
  "utxo_selection list \<Rightarrow> u256 \<Rightarrow> utxo_selection list \<Rightarrow> batch_utxo_selection list \<Rightarrow>
     batch_utxo_selection list \<times> bool" where
  "push_final_candidates chunks selected_total [] candidates = (candidates, False)"
| "push_final_candidates chunks selected_total (selection # selections) candidates =
     (let candidates' = push_unique_batch_candidate candidates
            \<lparr>bs_chunks = chunks @ [selection], bs_total = selected_total + sel_total selection\<rparr>
      in if MAX_ALTERNATE_BATCH_CANDIDATES \<le> length candidates' then (candidates', True)
         else push_final_candidates chunks selected_total selections candidates')"

text \<open>
  The second loop, over the partial selections: it recurses with \<open>f\<close> and stops when the list of
  candidates is full or the node budget is used up.
\<close>

fun collect_multi_loop ::
  "(utxo_selection \<Rightarrow> batch_utxo_selection list \<times> nat \<Rightarrow> batch_utxo_selection list \<times> nat) \<Rightarrow>
     utxo_selection list \<Rightarrow> batch_utxo_selection list \<times> nat \<Rightarrow> batch_utxo_selection list \<times> nat" where
  "collect_multi_loop f [] st = st"
| "collect_multi_loop f (selection # selections) st =
     (let st' = f selection st
      in if MAX_ALTERNATE_BATCH_CANDIDATES \<le> length (fst st') \<or> snd st' = 0 then st'
         else collect_multi_loop f selections st')"

text \<open>
  \<open>slots\<close> is \<open>max_transactions - chunks.len()\<close>, the recursion depth left; the state is the list of
  candidates and the node budget.
\<close>

primrec collect_multi ::
  "nat \<Rightarrow> address \<Rightarrow> nat \<Rightarrow> nat \<Rightarrow> utxo list \<Rightarrow> u256 \<Rightarrow> u256 \<Rightarrow> utxo_selection list \<Rightarrow>
     batch_utxo_selection list \<times> nat \<Rightarrow> batch_utxo_selection list \<times> nat" where
  "collect_multi 0 token_address first_base continuation_base utxos rem_amount selected_total chunks st = st"
| "collect_multi (Suc slots) token_address first_base continuation_base utxos rem_amount selected_total chunks st =
     (if MAX_ALTERNATE_BATCH_CANDIDATES \<le> length (fst st) \<or> snd st = 0 then st
      else
        let base = (if chunks = [] then first_base else continuation_base);
            nodes_left = snd st - 1;
            (candidates, full) = push_final_candidates chunks selected_total
              (single_transaction_selection_candidates utxos token_address rem_amount base) (fst st)
        in if full then (candidates, nodes_left)
           else if slots = 0 then (candidates, nodes_left)
           else collect_multi_loop
                  (\<lambda>selection. collect_multi slots token_address first_base continuation_base
                     (remove_selected_utxos utxos (sel_utxos selection)) (rem_amount - sel_total selection)
                     (selected_total + sel_total selection) (chunks @ [selection]))
                  (partial_transaction_selection_candidates utxos token_address rem_amount base)
                  (candidates, nodes_left))"

definition multi_transaction_selection_candidates ::
  "utxo list \<Rightarrow> address \<Rightarrow> u256 \<Rightarrow> nat \<Rightarrow> nat \<Rightarrow> nat \<Rightarrow> batch_utxo_selection list" where
  "multi_transaction_selection_candidates utxos token_address amount first_base_output_count
       continuation_base_output_count max_transactions =
     (if max_transactions < 2 then []
      else fst (collect_multi max_transactions token_address first_base_output_count
             continuation_base_output_count utxos amount 0 [] ([], MAX_MULTI_TRANSACTION_SEARCH_NODES)))"

definition select_batched_utxo_candidates_with_limit ::
  "utxo list \<Rightarrow> address \<Rightarrow> u256 \<Rightarrow> bool \<Rightarrow> nat \<Rightarrow> nat \<Rightarrow> nat \<Rightarrow> build_error + batch_utxo_selection list" where
  "select_batched_utxo_candidates_with_limit utxos token_address amount spend_up_to first_base_output_count
       continuation_base_output_count max_transactions =
     bind_result (select_batched_utxos_with_limit utxos token_address amount spend_up_to
         first_base_output_count continuation_base_output_count max_transactions) (\<lambda>primary.
       if max_transactions = 0 then Inr [primary]
       else
         let single = map (\<lambda>selection. \<lparr>bs_chunks = [selection], bs_total = sel_total selection\<rparr>)
               (single_transaction_selection_candidates utxos token_address amount first_base_output_count);
             multi = multi_transaction_selection_candidates utxos token_address amount
               first_base_output_count continuation_base_output_count max_transactions
         in Inr (foldl push_unique_batch_candidate (foldl push_unique_batch_candidate [primary] single) multi))"

section \<open>Summaries\<close>

record batch_shape =
  shape_transaction_count :: nat
  shape_private_output_count :: nat
  shape_public_output_count :: nat

record unshield_selection_info =
  info_total :: u256
  info_input_count :: nat
  info_transaction_count :: nat
  info_private_output_count :: nat
  info_public_output_count :: nat
  info_max_spendable :: u256

definition shape_step ::
  "u256 \<Rightarrow> bool \<Rightarrow> bool \<Rightarrow> u256 \<times> nat \<times> nat \<Rightarrow> nat \<times> utxo_selection \<Rightarrow> u256 \<times> nat \<times> nat" where
  "shape_step fee_amount has_fee_output send st p =
     (case (st, p) of ((remaining, private_output_count, public_output_count), (index, chunk)) \<Rightarrow>
        let chunk_fee = (if index = 0 then fee_amount else 0);
            spendable = saturating_sub (sel_total chunk) chunk_fee;
            amount_out = min spendable remaining;
            change = saturating_sub spendable amount_out;
            fee_output = (if index = 0 \<and> has_fee_output then 1 else 0);
            private1 = (if send then private_output_count + 1 + fee_output
                        else private_output_count + fee_output);
            public1 = (if send then public_output_count else public_output_count + 1);
            private2 = private1 + (if change \<noteq> 0 then 1 else 0)
        in (saturating_sub remaining amount_out, private2, public1))"

definition batch_shape_of :: "batch_utxo_selection \<Rightarrow> u256 \<Rightarrow> u256 \<Rightarrow> bool \<Rightarrow> bool \<Rightarrow> batch_shape" where
  "batch_shape_of selection amount fee_amount has_fee_output send =
     (let remaining = min (saturating_sub (bs_total selection) fee_amount) amount
      in case foldl (shape_step fee_amount has_fee_output send) (remaining, 0, 0)
                (enumerate 0 (bs_chunks selection)) of
           (_, private_output_count, public_output_count) \<Rightarrow>
             \<lparr>shape_transaction_count = length (bs_chunks selection),
              shape_private_output_count = private_output_count,
              shape_public_output_count = public_output_count\<rparr>)"

definition info_of ::
  "batch_utxo_selection \<Rightarrow> batch_shape \<Rightarrow> u256 \<Rightarrow> unshield_selection_info" where
  "info_of selection shape max_spendable =
     \<lparr>info_total = bs_total selection, info_input_count = batch_input_count selection,
      info_transaction_count = shape_transaction_count shape,
      info_private_output_count = shape_private_output_count shape,
      info_public_output_count = shape_public_output_count shape,
      info_max_spendable = max_spendable\<rparr>"

definition max_unshield_spendable :: "utxo list \<Rightarrow> address \<Rightarrow> u256" where
  "max_unshield_spendable utxos token_address = max_batch_spendable utxos token_address 1 1"

definition max_send_spendable :: "utxo list \<Rightarrow> address \<Rightarrow> u256" where
  "max_send_spendable utxos token_address = max_batch_spendable utxos token_address 1 1"

definition max_broadcaster_fee_token_spendable :: "utxo list \<Rightarrow> address \<Rightarrow> u256" where
  "max_broadcaster_fee_token_spendable utxos token_address =
     (case max_unshield_selection_with_output_count utxos token_address 1 of
        None \<Rightarrow> 0 | Some selection \<Rightarrow> sel_total selection)"

definition unshield_selection_info_fn ::
  "utxo list \<Rightarrow> address \<Rightarrow> u256 \<Rightarrow> bool \<Rightarrow> build_error + unshield_selection_info" where
  "unshield_selection_info_fn utxos token_address amount spend_up_to =
     (let max_spendable = max_batch_spendable utxos token_address 1 1
      in bind_result (select_batched_utxos utxos token_address amount spend_up_to 1 1) (\<lambda>selection.
           Inr (info_of selection (batch_shape_of selection amount 0 False False) max_spendable)))"

definition send_selection_info ::
  "utxo list \<Rightarrow> address \<Rightarrow> u256 \<Rightarrow> bool \<Rightarrow> build_error + unshield_selection_info" where
  "send_selection_info utxos token_address amount spend_up_to =
     (let max_spendable = max_batch_spendable utxos token_address 1 1
      in bind_result (select_batched_utxos utxos token_address amount spend_up_to 1 1) (\<lambda>selection.
           Inr (info_of selection (batch_shape_of selection amount 0 False True) max_spendable)))"

text \<open>The two \<open>..._with_broadcaster_fee\<close> summaries differ only in the flag \<open>send\<close>.\<close>

definition map_insufficient_balance :: "u256 \<Rightarrow> build_error + 'a \<Rightarrow> build_error + 'a" where
  "map_insufficient_balance max_spendable r =
     (case r of Inl (InsufficientBalance _) \<Rightarrow> Inl (InsufficientBalance max_spendable) | other \<Rightarrow> other)"

definition selection_info_with_fee ::
  "utxo list \<Rightarrow> address \<Rightarrow> u256 \<Rightarrow> u256 \<Rightarrow> bool \<Rightarrow> bool \<Rightarrow> build_error + unshield_selection_info" where
  "selection_info_with_fee utxos token_address amount fee_amount spend_up_to send =
     (let target_amount = amount + fee_amount;
          most = max_batch_spendable utxos token_address 2 1;
          max_spendable = (if fee_amount < most then most - fee_amount else 0)
      in bind_result (map_insufficient_balance max_spendable
           (select_batched_utxos utxos token_address target_amount spend_up_to 2 1)) (\<lambda>selection.
           Inr (info_of selection (batch_shape_of selection amount fee_amount True send) max_spendable)))"

definition unshield_selection_info_with_broadcaster_fee ::
  "utxo list \<Rightarrow> address \<Rightarrow> u256 \<Rightarrow> u256 \<Rightarrow> bool \<Rightarrow> build_error + unshield_selection_info" where
  "unshield_selection_info_with_broadcaster_fee utxos token_address amount fee_amount spend_up_to =
     selection_info_with_fee utxos token_address amount fee_amount spend_up_to False"

definition send_selection_info_with_broadcaster_fee ::
  "utxo list \<Rightarrow> address \<Rightarrow> u256 \<Rightarrow> u256 \<Rightarrow> bool \<Rightarrow> build_error + unshield_selection_info" where
  "send_selection_info_with_broadcaster_fee utxos token_address amount fee_amount spend_up_to =
     selection_info_with_fee utxos token_address amount fee_amount spend_up_to True"

definition different_token_broadcaster_fee_selection_info ::
  "utxo list \<Rightarrow> address \<Rightarrow> address \<Rightarrow> u256 \<Rightarrow> u256 \<Rightarrow> bool \<Rightarrow> bool \<Rightarrow> build_error + unshield_selection_info" where
  "different_token_broadcaster_fee_selection_info utxos token_address fee_token_address amount fee_amount
       spend_up_to send =
     bind_result (select_fee_utxos utxos fee_token_address fee_amount) (\<lambda>fee_selection.
       let max_spendable = max_batch_spendable_with_limit utxos token_address 1 1 (MAX_BATCH_TRANSACTIONS - 1)
       in bind_result (select_batched_utxos_with_limit utxos token_address amount spend_up_to 1 1
              (MAX_BATCH_TRANSACTIONS - 1)) (\<lambda>selection.
            let action_shape = batch_shape_of selection amount 0 False send;
                fee_private_outputs = 1 + (if fee_amount < sel_total fee_selection then 1 else 0)
            in Inr \<lparr>info_total = bs_total selection,
                    info_input_count = length (sel_utxos fee_selection) + batch_input_count selection,
                    info_transaction_count = 1 + shape_transaction_count action_shape,
                    info_private_output_count = fee_private_outputs + shape_private_output_count action_shape,
                    info_public_output_count = shape_public_output_count action_shape,
                    info_max_spendable = max_spendable\<rparr>))"

definition unshield_selection_info_with_broadcaster_fee_token ::
  "utxo list \<Rightarrow> address \<Rightarrow> address \<Rightarrow> u256 \<Rightarrow> u256 \<Rightarrow> bool \<Rightarrow> build_error + unshield_selection_info" where
  "unshield_selection_info_with_broadcaster_fee_token utxos token_address fee_token_address amount fee_amount
       spend_up_to =
     (if fee_token_address = token_address
      then unshield_selection_info_with_broadcaster_fee utxos token_address amount fee_amount spend_up_to
      else different_token_broadcaster_fee_selection_info utxos token_address fee_token_address amount
             fee_amount spend_up_to False)"

definition send_selection_info_with_broadcaster_fee_token ::
  "utxo list \<Rightarrow> address \<Rightarrow> address \<Rightarrow> u256 \<Rightarrow> u256 \<Rightarrow> bool \<Rightarrow> build_error + unshield_selection_info" where
  "send_selection_info_with_broadcaster_fee_token utxos token_address fee_token_address amount fee_amount
       spend_up_to =
     (if fee_token_address = token_address
      then send_selection_info_with_broadcaster_fee utxos token_address amount fee_amount spend_up_to
      else different_token_broadcaster_fee_selection_info utxos token_address fee_token_address amount
             fee_amount spend_up_to True)"

definition separate_broadcaster_fee_seed_selection_info ::
  "utxo list \<Rightarrow> address \<Rightarrow> address \<Rightarrow> u256 \<Rightarrow> bool \<Rightarrow> bool \<Rightarrow> build_error + unshield_selection_info" where
  "separate_broadcaster_fee_seed_selection_info utxos token_address fee_token_address amount spend_up_to send =
     (let fee_max_spendable = max_broadcaster_fee_token_spendable utxos fee_token_address
      in if fee_max_spendable = 0 then Inl (InsufficientFeeTokenBalance 0)
         else
           let max_spendable = max_batch_spendable_with_limit utxos token_address 1 1 (MAX_BATCH_TRANSACTIONS - 1)
           in bind_result (select_batched_utxos_with_limit utxos token_address amount spend_up_to 1 1
                  (MAX_BATCH_TRANSACTIONS - 1)) (\<lambda>selection.
                let action_shape = batch_shape_of selection amount 0 False send
                in Inr \<lparr>info_total = bs_total selection,
                        info_input_count = 1 + batch_input_count selection,
                        info_transaction_count = 1 + shape_transaction_count action_shape,
                        info_private_output_count = 2 + shape_private_output_count action_shape,
                        info_public_output_count = shape_public_output_count action_shape,
                        info_max_spendable = max_spendable\<rparr>))"

definition unshield_selection_info_with_separate_broadcaster_fee_seed ::
  "utxo list \<Rightarrow> address \<Rightarrow> address \<Rightarrow> u256 \<Rightarrow> bool \<Rightarrow> build_error + unshield_selection_info" where
  "unshield_selection_info_with_separate_broadcaster_fee_seed utxos token_address fee_token_address amount
       spend_up_to =
     separate_broadcaster_fee_seed_selection_info utxos token_address fee_token_address amount spend_up_to False"

definition send_selection_info_with_separate_broadcaster_fee_seed ::
  "utxo list \<Rightarrow> address \<Rightarrow> address \<Rightarrow> u256 \<Rightarrow> bool \<Rightarrow> build_error + unshield_selection_info" where
  "send_selection_info_with_separate_broadcaster_fee_seed utxos token_address fee_token_address amount
       spend_up_to =
     separate_broadcaster_fee_seed_selection_info utxos token_address fee_token_address amount spend_up_to True"

end
