(* ===== verification/Contracts.thy ===== *)
theory Contracts
  imports NoteCrypto
begin

text \<open>
  The contract data of \<open>core/src/contracts/railgun.rs\<close>: the ABI structs as records and the functions
  on them. The ABI codec and Keccak are third-party code, the fields of \<open>abi\<close>.
\<close>

unbundle bit_operations_syntax

section \<open>ABI structs\<close>

record g1_point =
  g1_x :: u256
  g1_y :: u256

record g2_point =
  g2_x :: "u256 \<times> u256"
  g2_y :: "u256 \<times> u256"

record snark_proof =
  sp_a :: g1_point
  sp_b :: g2_point
  sp_c :: g1_point

record commitment_ciphertext =
  cc_ciphertext :: "b256 list"
  cc_blinded_sender_viewing_key :: b256
  cc_blinded_receiver_viewing_key :: b256
  cc_annotation_data :: bytes
  cc_memo :: bytes

record bound_params =
  bp_tree_number :: "16 word"
  bp_min_gas_price :: "72 word"
  bp_unshield :: u8
  bp_chain_id :: u64
  bp_adapt_contract :: address
  bp_adapt_params :: b256
  bp_commitment_ciphertext :: "commitment_ciphertext list"

record token_data =
  td_token_type :: u8
  td_token_address :: address
  td_token_sub_id :: u256

record commitment_preimage =
  cp_npk :: b256
  cp_token :: token_data
  cp_value :: "120 word"

record legacy_commitment_preimage =
  lcp_npk :: u256
  lcp_token :: token_data
  lcp_value :: "120 word"

record legacy_commitment_ciphertext =
  lcc_ciphertext :: "u256 list"
  lcc_ephemeral_keys :: "u256 list"
  lcc_memo :: "u256 list"

record shield_ciphertext =
  sc_encrypted_bundle :: "b256 list"
  sc_shield_key :: b256

record railgun_transaction =
  tx_proof :: snark_proof
  tx_merkle_root :: b256
  tx_nullifiers :: "b256 list"
  tx_commitments :: "b256 list"
  tx_bound_params :: bound_params
  tx_unshield_preimage :: commitment_preimage

record contract_call =
  call_to :: address
  call_data :: bytes
  call_value :: u256

text \<open>\<open>bytes31\<close> as a 248-bit word.\<close>

record action_data =
  act_random :: "248 word"
  act_require_success :: bool
  act_min_gas_limit :: u256
  act_calls :: "contract_call list"

record relay_adapt_7702_action_data =
  ract_require_success :: bool
  ract_min_gas_limit :: u256
  ract_calls :: "contract_call list"

record token_transfer =
  tt_token :: token_data
  tt_to :: address
  tt_value :: u256

record relay_adapt_params_input =
  rap_nullifiers :: "b256 list list"
  rap_transactions_length :: u256
  rap_action_data :: action_data

text \<open>The calls the code encodes, with their arguments.\<close>

datatype sol_call =
    TransactCall "railgun_transaction list"
  | RelayCall "railgun_transaction list" action_data
  | ExecuteCall "railgun_transaction list" relay_adapt_7702_action_data u256 bytes
  | UnwrapBaseCall u256
  | TransferCall "token_transfer list"

record abi =
  abi_keccak256 :: "bytes \<Rightarrow> b256"
  abi_bound_params :: "bound_params \<Rightarrow> bytes"
  abi_token_data :: "token_data \<Rightarrow> bytes"
  abi_adapt_params :: "relay_adapt_params_input \<Rightarrow> bytes"
  abi_call :: "sol_call \<Rightarrow> bytes"
  abi_decode_execute :: "bytes \<Rightarrow> sol_call option"

section \<open>Functions\<close>

definition hash_to_scalar :: "abi \<Rightarrow> bytes \<Rightarrow> u256" where
  "hash_to_scalar ab encoded =
     (let h = abi_keccak256 ab encoded; v = u256_from_be_slice (fb32_bytes h) in v mod SCALAR_FIELD)"

definition pack_chain_id :: "u8 \<Rightarrow> u64 \<Rightarrow> u64" where
  "pack_chain_id chain_type chain_id =
     (let id = chain_id AND 0x00FFFFFFFFFFFFFF in push_bit 56 (ucast chain_type) OR id)"

definition default_snark_proof :: snark_proof where
  "default_snark_proof =
     \<lparr>sp_a = \<lparr>g1_x = 0, g1_y = 0\<rparr>, sp_b = \<lparr>g2_x = (0, 0), g2_y = (0, 0)\<rparr>, sp_c = \<lparr>g1_x = 0, g1_y = 0\<rparr>\<rparr>"

definition bound_params_new_unshield ::
  "u32 \<Rightarrow> u8 \<Rightarrow> u64 \<Rightarrow> commitment_ciphertext list \<Rightarrow> address \<Rightarrow> b256 \<Rightarrow> bound_params" where
  "bound_params_new_unshield tree_number chain_type chain_id ciphertext adapt_contract adapt_params =
     \<lparr>bp_tree_number = ucast tree_number, bp_min_gas_price = 0, bp_unshield = 1,
      bp_chain_id = pack_chain_id chain_type chain_id, bp_adapt_contract = adapt_contract,
      bp_adapt_params = adapt_params, bp_commitment_ciphertext = ciphertext\<rparr>"

definition bound_params_new_transact ::
  "u32 \<Rightarrow> u8 \<Rightarrow> u64 \<Rightarrow> commitment_ciphertext list \<Rightarrow> address \<Rightarrow> b256 \<Rightarrow> bound_params" where
  "bound_params_new_transact tree_number chain_type chain_id ciphertext adapt_contract adapt_params =
     \<lparr>bp_tree_number = ucast tree_number, bp_min_gas_price = 0, bp_unshield = 0,
      bp_chain_id = pack_chain_id chain_type chain_id, bp_adapt_contract = adapt_contract,
      bp_adapt_params = adapt_params, bp_commitment_ciphertext = ciphertext\<rparr>"

definition bound_params_hash :: "abi \<Rightarrow> bound_params \<Rightarrow> u256" where
  "bound_params_hash ab bp = hash_to_scalar ab (abi_bound_params ab bp)"

definition token_erc20 :: "address \<Rightarrow> token_data" where
  "token_erc20 token_address = \<lparr>td_token_type = 0, td_token_address = token_address, td_token_sub_id = 0\<rparr>"

definition token_base_native :: token_data where
  "token_base_native = token_erc20 0"

definition token_id :: "abi \<Rightarrow> token_data \<Rightarrow> u256" where
  "token_id ab token =
     (if td_token_type token = 0 then u256_from_be_slice (address_bytes (td_token_address token))
      else hash_to_scalar ab (abi_token_data ab token))"

definition preimage_empty :: commitment_preimage where
  "preimage_empty =
     \<lparr>cp_npk = 0, cp_token = \<lparr>td_token_type = 0, td_token_address = 0, td_token_sub_id = 0\<rparr>, cp_value = 0\<rparr>"

text \<open>
  The conversion to \<open>u128\<close> and then to 120 bits panics on a larger value: \<open>None\<close> is the panic.
\<close>

definition preimage_new_unshield :: "railgun_note \<Rightarrow> address \<Rightarrow> commitment_preimage option" where
  "preimage_new_unshield n token_address =
     (if 2 ^ 120 \<le> unat (note_value n) then None
      else Some \<lparr>cp_npk = fb32 (u256_to_be_bytes (note_npk n)), cp_token = token_erc20 token_address,
                 cp_value = ucast (note_value n)\<rparr>)"

definition preimage_hash :: "hash_fn \<Rightarrow> abi \<Rightarrow> commitment_preimage \<Rightarrow> u256" where
  "preimage_hash hash ab p =
     poseidon hash [u256_from_be_slice (fb32_bytes (cp_npk p)), token_id ab (cp_token p), ucast (cp_value p)]"

definition note_with_random :: "abi \<Rightarrow> commitment_preimage \<Rightarrow> bytes \<Rightarrow> railgun_note" where
  "note_with_random ab p random =
     \<lparr>note_token_hash = token_id ab (cp_token p), note_value = ucast (cp_value p), note_random = random,
      note_npk = u256_from_be_slice (fb32_bytes (cp_npk p))\<rparr>"

definition legacy_preimage_hash :: "hash_fn \<Rightarrow> abi \<Rightarrow> legacy_commitment_preimage \<Rightarrow> u256" where
  "legacy_preimage_hash hash ab p = poseidon hash [lcp_npk p, token_id ab (lcp_token p), ucast (lcp_value p)]"

definition transfer_erc20 :: "address \<Rightarrow> address \<Rightarrow> u256 \<Rightarrow> token_transfer" where
  "transfer_erc20 token_address to v = \<lparr>tt_token = token_erc20 token_address, tt_to = to, tt_value = v\<rparr>"

definition transfer_base_native :: "address \<Rightarrow> u256 \<Rightarrow> token_transfer" where
  "transfer_base_native to v = \<lparr>tt_token = token_base_native, tt_to = to, tt_value = v\<rparr>"

definition action_require_success :: "248 word \<Rightarrow> u256 \<Rightarrow> contract_call list \<Rightarrow> action_data" where
  "action_require_success random min_gas_limit calls =
     \<lparr>act_random = random, act_require_success = True, act_min_gas_limit = min_gas_limit, act_calls = calls\<rparr>"

definition unwrap_base_call :: "abi \<Rightarrow> address \<Rightarrow> u256 \<Rightarrow> contract_call" where
  "unwrap_base_call ab relay_adapt amount =
     \<lparr>call_to = relay_adapt, call_data = abi_call ab (UnwrapBaseCall amount), call_value = 0\<rparr>"

definition transfer_call :: "abi \<Rightarrow> address \<Rightarrow> token_transfer list \<Rightarrow> contract_call" where
  "transfer_call ab relay_adapt transfers =
     \<lparr>call_to = relay_adapt, call_data = abi_call ab (TransferCall transfers), call_value = 0\<rparr>"

definition action_unwrap_base :: "abi \<Rightarrow> address \<Rightarrow> address \<Rightarrow> 248 word \<Rightarrow> bool \<Rightarrow> action_data" where
  "action_unwrap_base ab relay_adapt recipient random require_success =
     (let unwrap = \<lparr>call_to = relay_adapt, call_data = abi_call ab (UnwrapBaseCall 0), call_value = 0\<rparr>;
          base_token = \<lparr>td_token_type = 0, td_token_address = 0, td_token_sub_id = 0\<rparr>;
          transfer = \<lparr>tt_token = base_token, tt_to = recipient, tt_value = 0\<rparr>;
          transfer_c = \<lparr>call_to = relay_adapt, call_data = abi_call ab (TransferCall [transfer]), call_value = 0\<rparr>
      in \<lparr>act_random = random, act_require_success = require_success, act_min_gas_limit = 0,
          act_calls = [unwrap, transfer_c]\<rparr>)"

definition adapt_params :: "abi \<Rightarrow> action_data \<Rightarrow> railgun_transaction list \<Rightarrow> b256" where
  "adapt_params ab act transactions =
     (let input = \<lparr>rap_nullifiers = map tx_nullifiers transactions,
                   rap_transactions_length = word_of_nat (length transactions), rap_action_data = act\<rparr>
      in abi_keccak256 ab (abi_adapt_params ab input))"

text \<open>\<open>From<NoteCiphertext> for CommitmentCiphertext\<close>.\<close>

definition ciphertext_from_note :: "note_ciphertext \<Rightarrow> commitment_ciphertext" where
  "ciphertext_from_note c =
     \<lparr>cc_ciphertext = nc_ciphertext c, cc_blinded_sender_viewing_key = nc_blinded_sender_viewing_key c,
      cc_blinded_receiver_viewing_key = nc_blinded_receiver_viewing_key c,
      cc_annotation_data = nc_annotation_data c, cc_memo = nc_memo c\<rparr>"

section \<open>Lemmas\<close>

lemma unat_ucast_120: "unat (v :: u256) < 2 ^ 120 \<Longrightarrow> unat (ucast v :: 120 word) = unat v"
  by (simp add: unat_ucast_take take_bit_nat_eq_self)

lemma ucast_120_round: "unat (v :: u256) < 2 ^ 120 \<Longrightarrow> ucast (ucast v :: 120 word) = v"
  by (rule unat_eqI) (simp add: unat_ucast_120 unat_ucast_take take_bit_nat_eq_self)

text \<open>
  The unshield preimage commits to the same note as the unshield output: the contract recomputes
  the commitment of the last output from it.
\<close>

lemma preimage_unshield_hash:
  assumes "preimage_new_unshield (new_unshield to token v) token = Some p"
  shows "preimage_hash hash ab p = commitment hash (new_unshield to token v)"
    "note_with_random ab p (replicate 16 0) = new_unshield to token v"
proof -
  let ?n = "new_unshield to token v"
  from assms have v: "unat v < 2 ^ 120" and p: "cp_npk p = fb32 (u256_to_be_bytes (note_npk ?n))"
    "cp_token p = token_erc20 token" "cp_value p = ucast v"
    by (auto simp: preimage_new_unshield_def new_unshield_def split: if_splits)
  have npk: "u256_from_be_slice (fb32_bytes (cp_npk p)) = note_npk ?n"
    unfolding p(1) by (simp add: fb32_bytes_fb32 from_be_u256)
  have "token_id ab (cp_token p) = note_token_hash ?n"
    unfolding p(2) by (simp add: token_id_def token_erc20_def new_unshield_def)
  with npk v show "preimage_hash hash ab p = commitment hash ?n"
    by (simp add: preimage_hash_def commitment_def p(3) ucast_120_round) (simp add: new_unshield_def)
  show "note_with_random ab p (replicate 16 0) = ?n"
    using npk \<open>token_id ab (cp_token p) = note_token_hash ?n\<close> v
    by (simp add: note_with_random_def p(3) ucast_120_round) (simp add: new_unshield_def)
qed

text \<open>For chain type 0 the packed identifier is the chain identifier, below 56 bits.\<close>

lemma pack_chain_id_0: "unat chain_id < 2 ^ 56 \<Longrightarrow> pack_chain_id 0 chain_id = chain_id"
proof -
  assume "unat chain_id < 2 ^ 56"
  then have "take_bit 56 chain_id = chain_id"
    by (intro unat_eqI) (simp add: unsigned_take_bit_eq take_bit_nat_eq_self)
  moreover have m: "(0x00FFFFFFFFFFFFFF :: u64) = mask 56" by (simp add: mask_eq_exp_minus_1)
  ultimately show ?thesis by (simp add: pack_chain_id_def m flip: take_bit_eq_mask)
qed

lemma pack_chain_id_inj:
  assumes "pack_chain_id t c = pack_chain_id t' c'" "unat c < 2 ^ 56" "unat c' < 2 ^ 56"
  shows "t = t' \<and> c = c'"
proof -
  have m: "(0x00FFFFFFFFFFFFFF :: u64) = mask 56" by (simp add: mask_eq_exp_minus_1)
  have low: "take_bit 56 (pack_chain_id t c) = c" if "unat c < 2 ^ 56" for t c
  proof -
    have "take_bit 56 c = c"
      using that by (intro unat_eqI) (simp add: unsigned_take_bit_eq take_bit_nat_eq_self)
    then show ?thesis
      by (simp add: pack_chain_id_def m take_bit_or take_bit_push_bit flip: take_bit_eq_mask)
  qed
  have high: "ucast (drop_bit 56 (pack_chain_id t c)) = t" for t c
    unfolding pack_chain_id_def Let_def m
    by (rule bit_eqI) (auto simp: bit_unsigned_iff bit_drop_bit_eq bit_or_iff bit_push_bit_iff bit_and_iff bit_mask_iff
        dest: bit_imp_le_length)
  show ?thesis using low [OF assms(2), of t] low [OF assms(3), of t'] high [of t c] high [of t' c'] assms(1) by metis
qed

end
