(* ===== verification/MerkleTree.thy ===== *)
theory MerkleTree
  imports Poseidon OrdMap
begin

text \<open>
  The sparse Merkle tree of \<open>merkletree/src/tree/mod.rs\<close>: a map from leaf positions to leaf
  hashes with a cached root. \<open>node\<close> is the specification: the value of a node of the perfect
  binary tree over a leaf function. The lemmas show that the recursive sparse root, the dense
  layer-by-layer root and the root recomputed from a proof all are that node.
\<close>

unbundle bit_operations_syntax

section \<open>Data\<close>

datatype sync_error =
    MissingData
  | UnexpectedFormat
  | InvalidTreePosition u64 u64

record merkle_tree_update =
  upd_tree_number :: u32
  upd_tree_position :: u64
  upd_hash :: u256

record merkle_tree =
  mt_leaves :: "(u64, u256) btree_map"
  mt_root :: "u256 option"

record merkle_proof =
  mp_root :: u256
  mp_leaf :: u256
  mp_leaf_index :: u64
  mp_path_elements :: "u256 list"
  mp_path_indices :: "u8 list"

definition PARALLEL_HASH_LAYER_MIN_LEN :: nat where
  "PARALLEL_HASH_LAYER_MIN_LEN = 1024"

definition SPARSE_ROOT_MAX_LEAVES :: nat where
  "SPARSE_ROOT_MAX_LEAVES = 1024"

definition default_tree :: merkle_tree where
  "default_tree = \<lparr>mt_leaves = [], mt_root = None\<rparr>"

section \<open>Hashing\<close>

text \<open>\<open>compute_zero_hashes\<close> fills an array level by level.\<close>

definition compute_zero_hashes :: "hash_fn \<Rightarrow> u256 list" where
  "compute_zero_hashes hash =
     foldl (\<lambda>zeros level. zeros[level := poseidon hash [zeros ! (level - 1), zeros ! (level - 1)]])
       ((replicate (TREE_DEPTH + 1) 0)[0 := MERKLE_ZERO_VALUE])
       [1 ..< TREE_DEPTH + 1]"

definition ZERO_HASHES :: "hash_fn \<Rightarrow> nat \<Rightarrow> u256" where
  "ZERO_HASHES hash level = compute_zero_hashes hash ! level"

text \<open>
  The parallel and the sequential branch of \<open>hash_parent_prefix\<close> write the same value into every
  slot; the branch only decides who computes it.
\<close>

definition hash_parent_prefix :: "hash_fn \<Rightarrow> u256 list \<Rightarrow> u256 list \<Rightarrow> u256 list" where
  "hash_parent_prefix hash layer parents =
     (if PARALLEL_HASH_LAYER_MIN_LEN \<le> length parents
      then map (\<lambda>index. poseidon hash [layer ! (index * 2), layer ! (index * 2 + 1)])
             [0 ..< length parents]
      else foldl (\<lambda>ps index. ps[index := poseidon hash [layer ! (index * 2), layer ! (index * 2 + 1)]])
             parents [0 ..< length parents])"

definition hash_layer :: "hash_fn \<Rightarrow> u256 list \<Rightarrow> u256 list" where
  "hash_layer hash layer = hash_parent_prefix hash layer (replicate (length layer div 2) 0)"

lemma foldl_list_update_upt:
  "n \<le> length xs \<Longrightarrow>
     foldl (\<lambda>ps i. ps[i := f i]) xs [0 ..< n] = map f [0 ..< n] @ drop n xs"
proof (induction n)
  case 0
  then show ?case by simp
next
  case (Suc n)
  then have "drop n xs = xs ! n # drop (Suc n) xs"
    by (simp add: Cons_nth_drop_Suc)
  with Suc show ?case by (simp add: list_update_append)
qed

lemma hash_parent_prefix_eq:
  "hash_parent_prefix hash layer parents =
     map (\<lambda>i. poseidon hash [layer ! (i * 2), layer ! (i * 2 + 1)]) [0 ..< length parents]"
  by (simp add: hash_parent_prefix_def foldl_list_update_upt)

lemma length_hash_layer [simp]: "length (hash_layer hash layer) = length layer div 2"
  by (simp add: hash_layer_def hash_parent_prefix_eq)

text \<open>\<open>while layer.len() > 1 { hash_layer(&mut layer); }\<close>\<close>

function reduce_layers :: "hash_fn \<Rightarrow> u256 list \<Rightarrow> u256 list" where
  "reduce_layers hash layer =
     (if 1 < length layer then reduce_layers hash (hash_layer hash layer) else layer)"
  by pat_completeness auto
termination
  by (relation "measure (\<lambda>(hash, layer). length layer)") auto

declare reduce_layers.simps [simp del]

section \<open>Operations of \<open>MerkleTree\<close>\<close>

definition validate_tree_position :: "u64 \<Rightarrow> sync_error + unit" where
  "validate_tree_position tree_position =
     (if TREE_LEAF_COUNT \<le> tree_position
      then Inl (InvalidTreePosition tree_position TREE_LEAF_COUNT) else Inr ())"

definition tree_insert :: "u64 \<Rightarrow> u256 \<Rightarrow> merkle_tree \<Rightarrow> merkle_tree \<times> (sync_error + unit)" where
  "tree_insert position leaf t =
     (case validate_tree_position position of
        Inl e \<Rightarrow> (t, Inl e)
      | Inr _ \<Rightarrow> (\<lparr>mt_leaves = bt_insert position leaf (mt_leaves t), mt_root = None\<rparr>, Inr ()))"

fun subtree_root :: "hash_fn \<Rightarrow> (u64, u256) btree_map \<Rightarrow> u64 \<Rightarrow> nat \<Rightarrow> u64 \<Rightarrow> u256" where
  "subtree_root hash leaves start depth leaf_count =
     (if leaf_count \<le> start then ZERO_HASHES hash depth
      else
        let width = push_bit depth 1;
            end = min (saturating_add start width) TREE_LEAF_COUNT;
            upper = min end leaf_count
        in if bt_range leaves start upper = [] then ZERO_HASHES hash depth
           else if depth = 0
             then (case bt_get leaves start of Some leaf \<Rightarrow> leaf | None \<Rightarrow> ZERO_HASHES hash 0)
           else
             let half_width = width div 2;
                 left = subtree_root hash leaves start (depth - 1) leaf_count;
                 right = subtree_root hash leaves (start + half_width) (depth - 1) leaf_count
             in poseidon hash [left, right])"

declare subtree_root.simps [simp del]

definition full_leaf_layer :: "hash_fn \<Rightarrow> (u64, u256) btree_map \<Rightarrow> u256 list" where
  "full_leaf_layer hash leaves =
     foldl (\<lambda>layer (index, leaf).
         let idx = unat index in if idx < length layer then layer[idx := leaf] else layer)
       (replicate (unat TREE_LEAF_COUNT) (ZERO_HASHES hash 0)) leaves"

definition computed_root :: "hash_fn \<Rightarrow> merkle_tree \<Rightarrow> u256" where
  "computed_root hash t =
     (case mt_root t of
        Some root \<Rightarrow> root
      | None \<Rightarrow>
          if length (mt_leaves t) \<le> SPARSE_ROOT_MAX_LEAVES
          then subtree_root hash (mt_leaves t) 0 TREE_DEPTH TREE_LEAF_COUNT
          else reduce_layers hash (full_leaf_layer hash (mt_leaves t)) ! 0)"

definition compute_root :: "hash_fn \<Rightarrow> merkle_tree \<Rightarrow> merkle_tree \<times> u256" where
  "compute_root hash t =
     (case mt_root t of
        Some root \<Rightarrow> (t, root)
      | None \<Rightarrow> let root = computed_root hash t in (t\<lparr>mt_root := Some root\<rparr>, root))"

definition tree_leaf_count :: "merkle_tree \<Rightarrow> nat" where
  "tree_leaf_count t = length (mt_leaves t)"

text \<open>One iteration of the loop of \<open>prove_with_leaf_count\<close> over the tree levels.\<close>

definition prove_step ::
  "hash_fn \<Rightarrow> (u64, u256) btree_map \<Rightarrow> u64 \<Rightarrow> u64 \<Rightarrow> u256 list \<times> u8 list \<times> u256 \<Rightarrow> nat \<Rightarrow>
     u256 list \<times> u8 list \<times> u256" where
  "prove_step hash leaves local_position clamped_leaf_count st level =
     (case st of (path_elements, path_indices, root) \<Rightarrow>
        let is_right = (drop_bit level local_position AND 1 = 1);
            sibling_start = push_bit level (drop_bit level local_position XOR 1);
            sibling = subtree_root hash leaves sibling_start level clamped_leaf_count
        in (path_elements[level := sibling],
            path_indices[level := (if is_right then 1 else 0)],
            (if is_right then poseidon hash [sibling, root] else poseidon hash [root, sibling])))"

definition tree_prove_with_leaf_count :: "hash_fn \<Rightarrow> merkle_tree \<Rightarrow> u64 \<Rightarrow> u64 \<Rightarrow> merkle_proof" where
  "tree_prove_with_leaf_count hash t position leaf_count =
     (let local_position = position mod TREE_LEAF_COUNT;
          clamped_leaf_count = min leaf_count TREE_LEAF_COUNT;
          leaf = (if local_position < clamped_leaf_count
                  then (case bt_get (mt_leaves t) local_position of
                          Some l \<Rightarrow> l | None \<Rightarrow> ZERO_HASHES hash 0)
                  else ZERO_HASHES hash 0)
      in case foldl (prove_step hash (mt_leaves t) local_position clamped_leaf_count)
                (replicate TREE_DEPTH 0, replicate TREE_DEPTH 0, leaf) [0 ..< TREE_DEPTH] of
           (path_elements, path_indices, root) \<Rightarrow>
             \<lparr>mp_root = root, mp_leaf = leaf, mp_leaf_index = local_position,
              mp_path_elements = path_elements, mp_path_indices = path_indices\<rparr>)"

definition tree_prove :: "hash_fn \<Rightarrow> merkle_tree \<Rightarrow> u64 \<Rightarrow> merkle_proof" where
  "tree_prove hash t position = tree_prove_with_leaf_count hash t position TREE_LEAF_COUNT"

section \<open>Specification: nodes of the perfect tree over a leaf function\<close>

fun node :: "hash_fn \<Rightarrow> (nat \<Rightarrow> u256) \<Rightarrow> nat \<Rightarrow> nat \<Rightarrow> u256" where
  "node hash f 0 i = f i"
| "node hash f (Suc d) i = poseidon hash [node hash f d (2 * i), node hash f d (2 * i + 1)]"

definition leaf_fn :: "(u64, u256) btree_map \<Rightarrow> u64 \<Rightarrow> nat \<Rightarrow> u256" where
  "leaf_fn leaves leaf_count i =
     (if i < unat leaf_count
      then (case bt_get leaves (word_of_nat i) of Some l \<Rightarrow> l | None \<Rightarrow> MERKLE_ZERO_VALUE)
      else MERKLE_ZERO_VALUE)"

definition sibling_index :: "nat \<Rightarrow> nat" where
  "sibling_index i = (if odd i then i - 1 else i + 1)"

text \<open>The proof a tree over \<open>f\<close> must give for position \<open>p\<close>.\<close>

definition spec_proof :: "hash_fn \<Rightarrow> (nat \<Rightarrow> u256) \<Rightarrow> u64 \<Rightarrow> merkle_proof" where
  "spec_proof hash f p =
     \<lparr>mp_root = node hash f TREE_DEPTH 0, mp_leaf = f (unat p), mp_leaf_index = p,
      mp_path_elements = map (\<lambda>l. node hash f l (sibling_index (unat p div 2 ^ l))) [0 ..< TREE_DEPTH],
      mp_path_indices = map (\<lambda>l. word_of_nat (unat p div 2 ^ l mod 2)) [0 ..< TREE_DEPTH]\<rparr>"

text \<open>What a verifier computes: the root reached from a leaf along a path.\<close>

fun path_root :: "hash_fn \<Rightarrow> u256 \<Rightarrow> u256 list \<Rightarrow> u8 list \<Rightarrow> u256" where
  "path_root hash acc (e # es) (b # bs) =
     path_root hash (if b = 1 then poseidon hash [e, acc] else poseidon hash [acc, e]) es bs"
| "path_root hash acc _ _ = acc"

definition verify_proof :: "hash_fn \<Rightarrow> merkle_proof \<Rightarrow> bool" where
  "verify_proof hash p \<longleftrightarrow>
     path_root hash (mp_leaf p) (mp_path_elements p) (mp_path_indices p) = mp_root p"

definition mt_inv :: "hash_fn \<Rightarrow> merkle_tree \<Rightarrow> bool" where
  "mt_inv hash t \<longleftrightarrow>
     bt_inv (mt_leaves t) \<and>
     (\<forall>k. bt_get (mt_leaves t) k \<noteq> None \<longrightarrow> k < TREE_LEAF_COUNT) \<and>
     (\<forall>r. mt_root t = Some r \<longrightarrow> r = node hash (leaf_fn (mt_leaves t) TREE_LEAF_COUNT) TREE_DEPTH 0)"

subsection \<open>Nodes\<close>

lemma node_cong:
  "(\<And>j. i * 2 ^ d \<le> j \<Longrightarrow> j < (i + 1) * 2 ^ d \<Longrightarrow> f j = g j) \<Longrightarrow> node hash f d i = node hash g d i"
proof (induction d arbitrary: i)
  case 0
  then show ?case by simp
next
  case (Suc d)
  have "node hash f d (2 * i) = node hash g d (2 * i)"
    by (rule Suc.IH) (rule Suc.prems, auto simp: algebra_simps)
  moreover have "node hash f d (2 * i + 1) = node hash g d (2 * i + 1)"
    by (rule Suc.IH) (rule Suc.prems, auto simp: algebra_simps)
  ultimately show ?case by simp
qed

lemma node_const: "node hash (\<lambda>_. v) d i = node hash (\<lambda>_. v) d j"
  by (induction d arbitrary: i j) (auto, metis)

lemma node_node: "node hash (node hash f e) d i = node hash f (e + d) i"
  by (induction d arbitrary: i) simp_all

lemma compute_zero_hashes_prefix:
  "n \<le> TREE_DEPTH \<Longrightarrow>
     (let zs = foldl (\<lambda>zeros level. zeros[level := poseidon hash [zeros ! (level - 1), zeros ! (level - 1)]])
       ((replicate (TREE_DEPTH + 1) 0)[0 := MERKLE_ZERO_VALUE]) [1 ..< n + 1]
      in length zs = TREE_DEPTH + 1 \<and> (\<forall>l \<le> n. zs ! l = node hash (\<lambda>_. MERKLE_ZERO_VALUE) l 0))"
proof (induction n)
  case 0
  then show ?case by simp
next
  case (Suc n)
  then show ?case
    using node_const [of hash MERKLE_ZERO_VALUE n 1 0]
    by (auto simp: Let_def nth_list_update le_Suc_eq)
qed

lemma ZERO_HASHES_node:
  "n \<le> TREE_DEPTH \<Longrightarrow> ZERO_HASHES hash n = node hash (\<lambda>_. MERKLE_ZERO_VALUE) n i"
  using compute_zero_hashes_prefix [of TREE_DEPTH hash]
    node_const [of hash MERKLE_ZERO_VALUE n i 0]
  by (auto simp: ZERO_HASHES_def compute_zero_hashes_def Let_def)

lemma ZERO_HASHES_0 [simp]: "ZERO_HASHES hash 0 = MERKLE_ZERO_VALUE"
  using ZERO_HASHES_node [of 0 hash 0] by simp

lemma node_zero_block:
  assumes "d \<le> TREE_DEPTH"
    and "\<And>j. i * 2 ^ d \<le> j \<Longrightarrow> j < (i + 1) * 2 ^ d \<Longrightarrow> f j = MERKLE_ZERO_VALUE"
  shows "node hash f d i = ZERO_HASHES hash d"
proof -
  have "node hash f d i = node hash (\<lambda>_. MERKLE_ZERO_VALUE) d i"
    using assms(2) by (intro node_cong) auto
  then show ?thesis using ZERO_HASHES_node [OF assms(1)] by simp
qed

subsection \<open>The sparse root is the node\<close>

lemma unat_word_of_nat_u64: "i < 2 ^ 64 \<Longrightarrow> unat (word_of_nat i :: u64) = i"
  by (simp add: unat_of_nat)

lemma unat_width: "d \<le> TREE_DEPTH \<Longrightarrow> unat (push_bit d (1 :: u64)) = 2 ^ d"
proof -
  assume "d \<le> TREE_DEPTH"
  then have "d < 64" by (simp add: TREE_DEPTH_def)
  then have "(2::nat) ^ d < 2 ^ 64" by (simp only: power_strict_increasing_iff) 
  moreover have "push_bit d (1 :: u64) = word_of_nat (2 ^ d)"
    by (simp add: push_bit_eq_mult)
  ultimately show ?thesis by (simp only: unat_word_of_nat_u64)
qed

lemma unat_width_power: "d \<le> TREE_DEPTH \<Longrightarrow> unat (2 ^ d :: u64) = 2 ^ d"
  using unat_width [of d] by (simp add: push_bit_eq_mult)

lemma leaf_fn_outside: "unat leaf_count \<le> j \<Longrightarrow> leaf_fn leaves leaf_count j = MERKLE_ZERO_VALUE"
  by (simp add: leaf_fn_def)

lemma leaf_fn_unat:
  "k < leaf_count \<Longrightarrow>
     leaf_fn leaves leaf_count (unat k) = (case bt_get leaves k of Some l \<Rightarrow> l | None \<Rightarrow> MERKLE_ZERO_VALUE)"
  by (simp add: leaf_fn_def word_less_nat_alt)

lemma leaf_fn_empty_range:
  assumes "bt_inv leaves" and "bt_range leaves start upper = []"
    and "unat start \<le> j" and "j < unat upper"
  shows "leaf_fn leaves leaf_count j = MERKLE_ZERO_VALUE"
proof -
  have "unat upper < 2 ^ 64" using unsigned_less [of upper] by simp
  with assms(4) have "j < 2 ^ 64" by simp
  then have j: "unat (word_of_nat j :: u64) = j" by (rule unat_word_of_nat_u64)
  then have "bt_get leaves (word_of_nat j) = None"
    using assms by (simp add: bt_range_empty_iff word_le_nat_alt word_less_nat_alt)
  then show ?thesis by (simp add: leaf_fn_def)
qed

lemma unat_subtree_upper:
  assumes "d \<le> TREE_DEPTH" "unat start = i * 2 ^ d" "(i + 1) * 2 ^ d \<le> 65536"
  shows "unat (min (min (saturating_add start (push_bit d 1)) TREE_LEAF_COUNT) leaf_count)
     = min ((i + 1) * 2 ^ d) (unat leaf_count)"
proof -
  have "unat (saturating_add start (push_bit d 1)) = (i + 1) * 2 ^ d"
    using assms by (simp add: unat_saturating_add unat_width_power)
  then show ?thesis
    using assms(3) by (auto simp: min_def word_le_nat_alt)
qed

theorem subtree_root_node:
  assumes "bt_inv leaves" "depth \<le> TREE_DEPTH"
    and "unat start = i * 2 ^ depth" "(i + 1) * 2 ^ depth \<le> 65536"
  shows "subtree_root hash leaves start depth leaf_count = node hash (leaf_fn leaves leaf_count) depth i"
  using assms(2-4)
proof (induction depth arbitrary: start i)
  case 0
  define f where "f = leaf_fn leaves leaf_count"
  show ?case
  proof (cases "leaf_count \<le> start")
    case True
    with "0.prems" show ?thesis
      by (simp add: subtree_root.simps leaf_fn_outside word_le_nat_alt)
  next
    case False
    then have lt: "start < leaf_count" by simp
    have start: "i = unat start" using "0.prems" by simp
    let ?upper = "min (min (saturating_add start (push_bit 0 1)) TREE_LEAF_COUNT) leaf_count"
    have upper: "unat ?upper = min (i + 1) (unat leaf_count)"
      using unat_subtree_upper [of 0 start i leaf_count] "0.prems" by simp
    show ?thesis
    proof (cases "bt_range leaves start ?upper = []")
      case True
      have "leaf_fn leaves leaf_count i = MERKLE_ZERO_VALUE"
        by (rule leaf_fn_empty_range [OF assms(1) True])
           (use lt start upper in \<open>auto simp: word_less_nat_alt\<close>)
      with True lt show ?thesis by (simp add: subtree_root.simps Let_def)
    next
      case False
      with lt show ?thesis
        by (auto simp: subtree_root.simps Let_def start leaf_fn_unat split: option.splits)
    qed
  qed
next
  case (Suc d)
  let ?f = "leaf_fn leaves leaf_count"
  have d: "d \<le> TREE_DEPTH" using Suc.prems by simp
  have width: "unat (push_bit (Suc d) (1 :: u64)) = 2 ^ Suc d"
    using Suc.prems by (intro unat_width) simp
  define hw where "hw = push_bit (Suc d) (1 :: u64) div 2"
  have half: "unat hw = 2 ^ d"
    using width by (simp only: hw_def unat_div_distrib) simp
  have "(i + 1) * 2 ^ Suc d = i * 2 ^ Suc d + (2 ^ d + 2 ^ d)" and "0 < (2::nat) ^ d"
    by simp_all
  then have fits: "i * 2 ^ Suc d + 2 ^ d < 65536"
    using Suc.prems(3) by linarith
  have right: "unat (start + hw) = (2 * i + 1) * 2 ^ d"
    using Suc.prems(2) half fits by (subst unat_add_no_overflow) auto
  have IHl: "subtree_root hash leaves start d leaf_count = node hash ?f d (2 * i)"
    using Suc.prems d by (intro Suc.IH) auto
  have IHr: "subtree_root hash leaves (start + hw) d leaf_count = node hash ?f d (2 * i + 1)"
    using Suc.prems d right by (intro Suc.IH) auto
  let ?upper = "min (min (saturating_add start (push_bit (Suc d) 1)) TREE_LEAF_COUNT) leaf_count"
  have upper: "unat ?upper = min ((i + 1) * 2 ^ Suc d) (unat leaf_count)"
    using unat_subtree_upper Suc.prems by blast
  consider (out) "leaf_count \<le> start" | (empty) "\<not> leaf_count \<le> start" "bt_range leaves start ?upper = []"
    | (rec) "\<not> leaf_count \<le> start" "bt_range leaves start ?upper \<noteq> []" by blast
  then show ?case
  proof cases
    case out
    then have "unat leaf_count \<le> i * 2 ^ Suc d"
      using Suc.prems by (simp add: word_le_nat_alt)
    then have "node hash ?f (Suc d) i = ZERO_HASHES hash (Suc d)"
      using Suc.prems by (intro node_zero_block) (auto intro: leaf_fn_outside)
    with out show ?thesis by (simp add: subtree_root.simps)
  next
    case empty
    have "?f j = MERKLE_ZERO_VALUE" if "i * 2 ^ Suc d \<le> j" "j < (i + 1) * 2 ^ Suc d" for j
    proof (cases "j < unat leaf_count")
      case True
      then show ?thesis
        using leaf_fn_empty_range [OF assms(1) empty(2), of j leaf_count] that Suc.prems upper by simp
    next
      case False
      then show ?thesis by (simp add: leaf_fn_outside)
    qed
    then have "node hash ?f (Suc d) i = ZERO_HASHES hash (Suc d)"
      using Suc.prems by (intro node_zero_block) auto
    with empty show ?thesis
      by (subst subtree_root.simps) (simp only: Let_def if_True if_False simp_thms)
  next
    case rec
    then have "subtree_root hash leaves start (Suc d) leaf_count =
        poseidon hash [subtree_root hash leaves start d leaf_count,
          subtree_root hash leaves (start + hw) d leaf_count]"
      by (subst subtree_root.simps) (simp only: Let_def hw_def if_False diff_Suc_1 nat.distinct)
    then show ?thesis using IHl IHr by simp
  qed
qed


subsection \<open>The dense root is the node\<close>

lemma nth_hash_layer:
  "2 * i + 1 < length layer \<Longrightarrow>
     hash_layer hash layer ! i = poseidon hash [layer ! (2 * i), layer ! (2 * i + 1)]"
proof -
  assume "2 * i + 1 < length layer"
  then have "i < length layer div 2" by linarith
  then show ?thesis by (simp add: hash_layer_def hash_parent_prefix_eq mult.commute)
qed

lemma reduce_layers_node:
  "length layer = 2 ^ d \<Longrightarrow> reduce_layers hash layer = [node hash (\<lambda>i. layer ! i) d 0]"
proof (induction d arbitrary: layer)
  case 0
  then show ?case by (cases layer) (auto simp: reduce_layers.simps)
next
  case (Suc d)
  have "node hash ((!) (hash_layer hash layer)) d 0 = node hash (node hash ((!) layer) 1) d 0"
    using Suc.prems by (intro node_cong) (simp add: nth_hash_layer)
  then have "node hash ((!) (hash_layer hash layer)) d 0 = node hash ((!) layer) (Suc d) 0"
    by (simp only: node_node plus_1_eq_Suc)
  moreover have "1 < length layer"
    using Suc.prems by (simp add: Suc_lessI)
  then have "reduce_layers hash layer = reduce_layers hash (hash_layer hash layer)"
    by (simp add: reduce_layers.simps [of hash layer])
  moreover have "length (hash_layer hash layer) = 2 ^ d" using Suc.prems by simp
  ultimately show ?case using Suc.IH by metis
qed

lemma foldl_fill:
  fixes g :: "'k \<Rightarrow> nat"
  assumes "inj g"
  shows "length (foldl (\<lambda>l (k, v). let j = g k in if j < length l then l[j := v] else l) xs m) = length xs"
    and "distinct (map fst m) \<Longrightarrow> g k < length xs \<Longrightarrow>
      foldl (\<lambda>l (k, v). let j = g k in if j < length l then l[j := v] else l) xs m ! g k
        = (case map_of m k of Some v \<Rightarrow> v | None \<Rightarrow> xs ! g k)"
proof -
  show "length (foldl (\<lambda>l (k, v). let j = g k in if j < length l then l[j := v] else l) xs m) = length xs"
    by (induction m arbitrary: xs) (auto simp: Let_def)
  show "distinct (map fst m) \<Longrightarrow> g k < length xs \<Longrightarrow>
      foldl (\<lambda>l (k, v). let j = g k in if j < length l then l[j := v] else l) xs m ! g k
        = (case map_of m k of Some v \<Rightarrow> v | None \<Rightarrow> xs ! g k)"
  proof (induction m arbitrary: xs)
    case Nil
    then show ?case by simp
  next
    case (Cons p m)
    obtain k' v' where p: "p = (k', v')" by (cases p)
    have none: "map_of m k' = None"
      using Cons.prems p by (auto simp: map_of_eq_None_iff)
    show ?case
    proof (cases "k = k'")
      case True
      with Cons none p show ?thesis by (simp add: Let_def)
    next
      case False
      then have "g k \<noteq> g k'" using assms by (auto dest: injD)
      with Cons False p show ?thesis by (simp add: Let_def split: option.split)
    qed
  qed
qed

lemma full_leaf_layer_nth:
  assumes "bt_inv leaves" "i < 65536"
  shows "length (full_leaf_layer hash leaves) = 65536"
    and "full_leaf_layer hash leaves ! i = leaf_fn leaves TREE_LEAF_COUNT i"
proof -
  have inj: "inj (unat :: u64 \<Rightarrow> nat)" by (rule injI) (rule unsigned_word_eqI)
  show "length (full_leaf_layer hash leaves) = 65536"
    by (simp add: full_leaf_layer_def foldl_fill(1) [OF inj])
  have i: "unat (word_of_nat i :: u64) = i" using assms(2) by (simp add: unat_of_nat)
  show "full_leaf_layer hash leaves ! i = leaf_fn leaves TREE_LEAF_COUNT i"
    using foldl_fill(2) [OF inj bt_inv_distinct [OF assms(1)], of "word_of_nat i" "replicate 65536 MERKLE_ZERO_VALUE"]
      assms(2) i
    by (simp add: full_leaf_layer_def leaf_fn_def bt_get_def split: option.splits)
qed

lemma computed_root_node:
  assumes "mt_inv hash t"
  shows "computed_root hash t = node hash (leaf_fn (mt_leaves t) TREE_LEAF_COUNT) TREE_DEPTH 0"
proof (cases "mt_root t")
  case (Some r)
  with assms show ?thesis by (simp add: computed_root_def mt_inv_def)
next
  case None
  let ?f = "leaf_fn (mt_leaves t) TREE_LEAF_COUNT"
  from assms have inv: "bt_inv (mt_leaves t)" by (simp add: mt_inv_def)
  have sparse: "subtree_root hash (mt_leaves t) 0 TREE_DEPTH TREE_LEAF_COUNT = node hash ?f TREE_DEPTH 0"
    using inv by (intro subtree_root_node) (auto simp: TREE_DEPTH_def)
  have len: "length (full_leaf_layer hash (mt_leaves t)) = 2 ^ TREE_DEPTH"
    using full_leaf_layer_nth(1) [OF inv, of 0] by (simp add: TREE_DEPTH_def)
  have "node hash ((!) (full_leaf_layer hash (mt_leaves t))) TREE_DEPTH 0 = node hash ?f TREE_DEPTH 0"
    using full_leaf_layer_nth(2) [OF inv] by (intro node_cong) (simp add: TREE_DEPTH_def)
  with sparse None show ?thesis
    by (simp add: computed_root_def reduce_layers_node [OF len])
qed

subsection \<open>Preservation of the invariant\<close>

lemma mt_inv_default [simp]: "mt_inv hash default_tree"
  by (simp add: mt_inv_def default_tree_def)

lemma mt_inv_insert: "mt_inv hash t \<Longrightarrow> mt_inv hash (fst (tree_insert p l t))"
  by (auto simp: mt_inv_def tree_insert_def validate_tree_position_def split: if_splits)

lemma mt_inv_compute_root: "mt_inv hash t \<Longrightarrow> mt_inv hash (fst (compute_root hash t))"
  using computed_root_node [of hash t]
  by (auto simp: mt_inv_def compute_root_def Let_def split: option.splits)

subsection \<open>Proofs\<close>

lemma foldl_levels:
  fixes st0 :: "'a list \<times> 'b list \<times> 'c"
  assumes "n \<le> length xs" "n \<le> length ys"
    and "\<And>k xs ys. k < n \<Longrightarrow> step (xs, ys, r k) k = (xs[k := f k], ys[k := g k], r (Suc k))"
  shows "foldl step (xs, ys, r 0) [0 ..< n] = (map f [0 ..< n] @ drop n xs, map g [0 ..< n] @ drop n ys, r n)"
  using assms
proof (induction n)
  case 0
  then show ?case by simp
next
  case (Suc n)
  have "drop n xs = xs ! n # drop (Suc n) xs" "drop n ys = ys ! n # drop (Suc n) ys"
    using Suc.prems(1,2) by (simp_all add: Cons_nth_drop_Suc)
  with Suc show ?case by (simp add: list_update_append)
qed

lemma unat_drop_bit_div: "unat (drop_bit n (w :: u64)) = unat w div 2 ^ n"
  by (subst unat_drop_bit_eq) (rule drop_bit_eq_div)

lemma bit_of_position:
  "(drop_bit level p AND 1 = (1 :: u64)) \<longleftrightarrow> odd (unat p div 2 ^ level)"
proof -
  have "unat (drop_bit level p AND 1) = unat (drop_bit level p) AND unat (1 :: u64)"
    by (rule unsigned_and_eq)
  then have "unat (drop_bit level p AND 1) = (unat p div 2 ^ level) mod 2"
    unfolding unat_drop_bit_div by (simp add: and_Suc_0_eq)
  moreover have "(drop_bit level p AND 1 = 1) \<longleftrightarrow> unat (drop_bit level p AND 1) = unat (1 :: u64)"
    by (metis unsigned_word_eqI)
  ultimately show ?thesis by (simp add: odd_iff_mod_2_eq_one)
qed

lemma sibling_index_bound:
  assumes "p < 65536" "level < TREE_DEPTH"
  shows "(sibling_index (p div 2 ^ level) + 1) * 2 ^ level \<le> 65536"
proof -
  obtain k where k: "TREE_DEPTH = level + Suc k" using assms(2) less_iff_Suc_add by auto
  have pw: "(65536::nat) = 2 ^ level * (2 * 2 ^ k)"
    unfolding TREE_LEAF_COUNT_power k by (simp add: power_add)
  then have "p div 2 ^ level < 2 * 2 ^ k"
    using assms(1) by (intro less_mult_imp_div_less) (simp only: mult.commute)
  then have "sibling_index (p div 2 ^ level) + 1 \<le> 2 * 2 ^ k"
    by (auto simp: sibling_index_def elim!: oddE evenE)
  then have "2 ^ level * (sibling_index (p div 2 ^ level) + 1) \<le> 2 ^ level * (2 * 2 ^ k)"
    by (rule mult_le_mono2)
  then show ?thesis by (simp only: pw mult.commute)
qed

lemma sibling_start_position:
  assumes "unat (p :: u64) < 65536" "level < TREE_DEPTH"
  shows "unat (push_bit level (drop_bit level p XOR 1)) = sibling_index (unat p div 2 ^ level) * 2 ^ level"
proof -
  have x: "unat (drop_bit level p XOR 1) = sibling_index (unat p div 2 ^ level)"
  proof -
    have "unat (drop_bit level p XOR 1) = unat (drop_bit level p) XOR unat (1 :: u64)"
      by (rule unsigned_xor_eq)
    then show ?thesis
      unfolding unat_drop_bit_div by (simp add: sibling_index_def xor_Suc_0_eq)
  qed
  have "sibling_index (unat p div 2 ^ level) * 2 ^ level < 2 ^ 64"
    using sibling_index_bound [OF assms] by simp
  moreover have "unat (push_bit level (drop_bit level p XOR 1))
      = take_bit 64 (push_bit level (unat (drop_bit level p XOR 1)))"
    using unsigned_push_bit_eq [where ?'a = nat, of level "drop_bit level p XOR 1"] by simp
  ultimately show ?thesis
    by (simp only: x push_bit_eq_mult take_bit_nat_eq_self)
qed

lemma node_parent:
  "node hash f (Suc l) (p div 2 ^ Suc l) =
     (if odd (p div 2 ^ l) then poseidon hash [node hash f l (sibling_index (p div 2 ^ l)), node hash f l (p div 2 ^ l)]
      else poseidon hash [node hash f l (p div 2 ^ l), node hash f l (sibling_index (p div 2 ^ l))])"
proof -
  have "p div 2 ^ Suc l = p div 2 ^ l div 2" by (simp only: power_Suc2 div_mult2_eq)
  then show ?thesis
    by (auto simp: sibling_index_def elim!: oddE evenE)
qed

lemma unat_local_less: "unat (p mod TREE_LEAF_COUNT) < 65536"
  by simp

theorem tree_prove_spec:
  assumes "bt_inv (mt_leaves t)"
  shows "tree_prove_with_leaf_count hash t position leaf_count =
     spec_proof hash (leaf_fn (mt_leaves t) (min leaf_count TREE_LEAF_COUNT)) (position mod TREE_LEAF_COUNT)"
proof -
  define p where "p = position mod TREE_LEAF_COUNT"
  define lc where "lc = min leaf_count TREE_LEAF_COUNT"
  let ?f = "leaf_fn (mt_leaves t) lc"
  have p: "unat p < 65536" by (simp only: p_def unat_local_less)
  have leaf: "(if p < lc then (case bt_get (mt_leaves t) p of Some l \<Rightarrow> l | None \<Rightarrow> ZERO_HASHES hash 0)
      else ZERO_HASHES hash 0) = ?f (unat p)"
  proof (cases "p < lc")
    case True
    then show ?thesis by (simp add: leaf_fn_unat split: option.splits)
  next
    case False
    then have "unat lc \<le> unat p" by (simp add: word_le_nat_alt [symmetric])
    with False show ?thesis by (simp add: leaf_fn_outside)
  qed
  have step: "prove_step hash (mt_leaves t) p lc (xs, ys, node hash ?f k (unat p div 2 ^ k)) k =
      (xs[k := node hash ?f k (sibling_index (unat p div 2 ^ k))],
       ys[k := word_of_nat (unat p div 2 ^ k mod 2)],
       node hash ?f (Suc k) (unat p div 2 ^ Suc k))" if "k < TREE_DEPTH" for k xs ys
  proof -
    have "subtree_root hash (mt_leaves t) (push_bit k (drop_bit k p XOR 1)) k lc
        = node hash ?f k (sibling_index (unat p div 2 ^ k))"
      using sibling_start_position [OF p that] sibling_index_bound [OF p that] that
      by (intro subtree_root_node assms) auto
    then show ?thesis
      unfolding prove_step_def node_parent Let_def bit_of_position
      by (auto simp: odd_iff_mod_2_eq_one even_iff_mod_2_eq_zero)
  qed
  have "foldl (prove_step hash (mt_leaves t) p lc)
      (replicate TREE_DEPTH 0, replicate TREE_DEPTH 0, ?f (unat p)) [0 ..< TREE_DEPTH] =
      (map (\<lambda>l. node hash ?f l (sibling_index (unat p div 2 ^ l))) [0 ..< TREE_DEPTH],
       map (\<lambda>l. word_of_nat (unat p div 2 ^ l mod 2)) [0 ..< TREE_DEPTH],
       node hash ?f TREE_DEPTH (unat p div 2 ^ TREE_DEPTH))"
    using foldl_levels [of TREE_DEPTH "replicate TREE_DEPTH 0" "replicate TREE_DEPTH 0"
        "prove_step hash (mt_leaves t) p lc" "\<lambda>k. node hash ?f k (unat p div 2 ^ k)", OF _ _ step]
    by simp
  moreover have "unat p div 2 ^ TREE_DEPTH = 0" using p by (simp add: TREE_DEPTH_def)
  ultimately show ?thesis
    unfolding tree_prove_with_leaf_count_def Let_def p_def [symmetric] lc_def [symmetric] leaf
    by (simp add: spec_proof_def)
qed


lemma mt_inv_leaves: "mt_inv hash t \<Longrightarrow> bt_inv (mt_leaves t)"
  by (simp add: mt_inv_def)

subsection \<open>Verification of proofs\<close>

lemma path_index_right [simp]: "(word_of_nat (n mod 2) = (1 :: u8)) \<longleftrightarrow> odd n"
proof (cases "even n")
  case True
  then have "n mod 2 = 0" by presburger
  with True show ?thesis by simp
next
  case False
  then have "n mod 2 = 1" by presburger
  with False show ?thesis by simp
qed

lemma path_root_nodes:
  "path_root hash (node hash f l (p div 2 ^ l))
     (map (\<lambda>l. node hash f l (sibling_index (p div 2 ^ l))) [l ..< l + n])
     (map (\<lambda>l. word_of_nat (p div 2 ^ l mod 2)) [l ..< l + n]) = node hash f (l + n) (p div 2 ^ (l + n))"
proof (induction n arbitrary: l)
  case 0
  then show ?case by simp
next
  case (Suc n)
  have upt: "[l ..< l + Suc n] = l # [Suc l ..< Suc l + n]" by (simp add: upt_conv_Cons)
  have sum: "l + Suc n = Suc l + n" by simp
  show ?case
    unfolding upt list.map path_root.simps path_index_right node_parent [symmetric]
    unfolding sum by (rule Suc.IH)
qed

lemma spec_proof_verifies:
  assumes "unat p < 65536"
  shows "verify_proof hash (spec_proof hash f p)"
proof -
  have "unat p div 2 ^ TREE_DEPTH = 0" using assms by (simp add: TREE_DEPTH_def)
  then show ?thesis
    using path_root_nodes [of hash f 0 "unat p" TREE_DEPTH]
    by (simp add: verify_proof_def spec_proof_def)
qed

text \<open>The inputs a verifier hands to the hash, level by level.\<close>

fun path_inputs :: "hash_fn \<Rightarrow> u256 \<Rightarrow> u256 list \<Rightarrow> u8 list \<Rightarrow> u256 list list" where
  "path_inputs hash acc (e # es) (b # bs) =
     (let xs = (if b = 1 then [e, acc] else [acc, e])
      in map reduce_input xs # path_inputs hash (poseidon hash xs) es bs)"
| "path_inputs hash acc _ _ = []"

definition no_path_collision :: "hash_fn \<Rightarrow> merkle_proof \<Rightarrow> merkle_proof \<Rightarrow> bool" where
  "no_path_collision hash p q \<longleftrightarrow>
     list_all2 (\<lambda>xs ys. hash xs = hash ys \<longrightarrow> xs = ys)
       (path_inputs hash (mp_leaf p) (mp_path_elements p) (mp_path_indices p))
       (path_inputs hash (mp_leaf q) (mp_path_elements q) (mp_path_indices q))"

lemma path_root_binding:
  assumes field: "\<And>xs. hash xs < SCALAR_FIELD"
    and len: "length es = length bs" "length es' = length bs"
    and coll: "list_all2 (\<lambda>xs ys. hash xs = hash ys \<longrightarrow> xs = ys)
      (path_inputs hash a es bs) (path_inputs hash a' es' bs)"
    and root: "reduce_input (path_root hash a es bs) = reduce_input (path_root hash a' es' bs)"
  shows "reduce_input a = reduce_input a'"
  using len coll root
proof (induction bs arbitrary: a a' es es')
  case Nil
  then show ?case by simp
next
  case (Cons b bs)
  from Cons.prems(1,2) obtain e es1 e' es1' where es: "es = e # es1" "es' = e' # es1'"
    by (cases es; cases es') auto
  define x where "x = (if b = 1 then [e, a] else [a, e])"
  define y where "y = (if b = 1 then [e', a'] else [a', e'])"
  have "path_inputs hash a es (b # bs) = map reduce_input x # path_inputs hash (poseidon hash x) es1 bs"
    "path_inputs hash a' es' (b # bs) = map reduce_input y # path_inputs hash (poseidon hash y) es1' bs"
    by (simp_all only: es path_inputs.simps Let_def x_def y_def)
  with Cons.prems(3) have step: "list_all2 (\<lambda>xs ys. hash xs = hash ys \<longrightarrow> xs = ys)
      (map reduce_input x # path_inputs hash (poseidon hash x) es1 bs)
      (map reduce_input y # path_inputs hash (poseidon hash y) es1' bs)"
    by (simp only:)
  then have coll: "hash (map reduce_input x) = hash (map reduce_input y) \<longrightarrow>
      map reduce_input x = map reduce_input y"
    "list_all2 (\<lambda>xs ys. hash xs = hash ys \<longrightarrow> xs = ys)
      (path_inputs hash (poseidon hash x) es1 bs) (path_inputs hash (poseidon hash y) es1' bs)"
    by (blast dest: list_all2_Cons [THEN iffD1])+
  have "path_root hash a es (b # bs) = path_root hash (poseidon hash x) es1 bs"
    "path_root hash a' es' (b # bs) = path_root hash (poseidon hash y) es1' bs"
    by (simp_all add: es x_def y_def)
  with Cons.prems(4) have root: "reduce_input (path_root hash (poseidon hash x) es1 bs) =
      reduce_input (path_root hash (poseidon hash y) es1' bs)" by (simp only:)
  from Cons.prems(1,2) es have "length es1 = length bs" "length es1' = length bs" by simp_all
  from Cons.IH [OF this coll(2) root]
  have "hash (map reduce_input x) = hash (map reduce_input y)"
    by (simp only: poseidon_def reduce_input_field [OF field])
  then have "map reduce_input x = map reduce_input y" using coll(1) by blast
  then show ?case by (cases "b = 1") (simp_all add: x_def y_def)
qed

section \<open>The interface of a proof source\<close>

text \<open>
  A tree that hands out membership proofs: \<open>leaf_at\<close> is its leaf function and \<open>prove\<close> gives,
  for every position, the proof of the perfect tree over it. The consequences are proved once,
  for the sparse tree here and the dense tree and the proof cache later.
\<close>

locale proof_source =
  fixes hash :: hash_fn
    and prove :: "'t \<Rightarrow> u64 \<Rightarrow> merkle_proof"
    and leaf_at :: "'t \<Rightarrow> nat \<Rightarrow> u256"
    and inv :: "'t \<Rightarrow> bool"
  assumes prove_spec:
    "inv t \<Longrightarrow> prove t p = spec_proof hash (leaf_at t) (p mod TREE_LEAF_COUNT)"
begin

lemma proof_verifies: "inv t \<Longrightarrow> verify_proof hash (prove t p)"
  by (simp add: prove_spec spec_proof_verifies)

lemma proof_leaf: "inv t \<Longrightarrow> mp_leaf (prove t p) = leaf_at t (unat p mod 65536)"
  by (simp add: prove_spec spec_proof_def)

lemma proof_root: "inv t \<Longrightarrow> mp_root (prove t p) = node hash (leaf_at t) TREE_DEPTH 0"
  by (simp add: prove_spec spec_proof_def)

lemma proof_root_unique: "inv t \<Longrightarrow> mp_root (prove t p) = mp_root (prove t q)"
  by (simp add: proof_root)

lemma proof_lengths:
  "inv t \<Longrightarrow> length (mp_path_elements (prove t p)) = TREE_DEPTH \<and>
     length (mp_path_indices (prove t p)) = TREE_DEPTH"
  by (simp add: prove_spec spec_proof_def)

lemma proof_binding:
  assumes "inv t" "\<And>xs. hash xs < SCALAR_FIELD"
    and "verify_proof hash q" "mp_root q = mp_root (prove t p)"
    and "mp_path_indices q = mp_path_indices (prove t p)" "length (mp_path_elements q) = TREE_DEPTH"
    and "no_path_collision hash q (prove t p)"
  shows "reduce_input (mp_leaf q) = reduce_input (leaf_at t (unat p mod 65536))"
proof -
  note len = proof_lengths [OF assms(1), of p]
  have "reduce_input (mp_leaf q) = reduce_input (mp_leaf (prove t p))"
  proof (rule path_root_binding [OF assms(2)])
    show "length (mp_path_elements q) = length (mp_path_indices q)"
      "length (mp_path_elements (prove t p)) = length (mp_path_indices q)"
      using len assms(5,6) by (simp_all only:)
    show "list_all2 (\<lambda>xs ys. hash xs = hash ys \<longrightarrow> xs = ys)
        (path_inputs hash (mp_leaf q) (mp_path_elements q) (mp_path_indices q))
        (path_inputs hash (mp_leaf (prove t p)) (mp_path_elements (prove t p)) (mp_path_indices q))"
      using assms(5,7) by (simp only: no_path_collision_def)
    show "reduce_input (path_root hash (mp_leaf q) (mp_path_elements q) (mp_path_indices q)) =
        reduce_input (path_root hash (mp_leaf (prove t p)) (mp_path_elements (prove t p)) (mp_path_indices q))"
      using assms(3,4,5) proof_verifies [OF assms(1), of p] by (simp only: verify_proof_def)
  qed
  then show ?thesis by (simp add: proof_leaf assms(1))
qed

end

interpretation sparse: proof_source hash "tree_prove hash"
    "\<lambda>t. leaf_fn (mt_leaves t) TREE_LEAF_COUNT" "mt_inv hash" for hash
  by unfold_locales (simp only: tree_prove_def tree_prove_spec [OF mt_inv_leaves] min.idem)

end
