(* ===== verification/TxTypes.thy ===== *)
theory TxTypes
  imports Selection Contracts MerkleTree
begin

text \<open>
  The request and plan types of \<open>railgun-wallet/src/tx/types.rs\<close> with their methods, and the
  third-party code a plan depends on as the record \<open>env\<close>.
\<close>

section \<open>Requests\<close>

definition UNRELAYED_ADAPT_PARAMS :: b256 where
  "UNRELAYED_ADAPT_PARAMS = 0"

record transaction_call =
  tc_to :: address
  tc_data :: bytes

datatype composite_adapter = RelayAdaptAdapter address | ExecutorAdapter executor_context

record broadcaster_fee_output =
  bf_recipient :: address_data
  bf_token_address :: address
  bf_amount :: u256

record unshield_request =
  ur_token_address :: address
  ur_amount :: u256
  ur_recipient :: address
  ur_verify_proof :: bool
  ur_spend_up_to :: bool
  ur_broadcaster_fee :: "broadcaster_fee_output option"
  ur_min_gas_price :: u128

record send_request =
  sr_token_address :: address
  sr_amount :: u256
  sr_recipient :: address_data
  sr_verify_proof :: bool
  sr_spend_up_to :: bool
  sr_broadcaster_fee :: "broadcaster_fee_output option"
  sr_min_gas_price :: u128

text \<open>\<open>Option::filter\<close>.\<close>

definition option_filter :: "('a \<Rightarrow> bool) \<Rightarrow> 'a option \<Rightarrow> 'a option" where
  "option_filter P x = (case x of None \<Rightarrow> None | Some a \<Rightarrow> if P a then Some a else None)"

definition ur_same_token_broadcaster_fee :: "unshield_request \<Rightarrow> broadcaster_fee_output option" where
  "ur_same_token_broadcaster_fee r =
     option_filter (\<lambda>fee. bf_token_address fee = ur_token_address r) (ur_broadcaster_fee r)"

definition ur_different_token_broadcaster_fee :: "unshield_request \<Rightarrow> broadcaster_fee_output option" where
  "ur_different_token_broadcaster_fee r =
     option_filter (\<lambda>fee. bf_token_address fee \<noteq> ur_token_address r) (ur_broadcaster_fee r)"

definition ur_fee_amount :: "unshield_request \<Rightarrow> u256" where
  "ur_fee_amount r = (case ur_same_token_broadcaster_fee r of None \<Rightarrow> 0 | Some fee \<Rightarrow> bf_amount fee)"

definition ur_target_amount :: "unshield_request \<Rightarrow> u256" where
  "ur_target_amount r = ur_amount r + ur_fee_amount r"

definition ur_base_output_count :: "unshield_request \<Rightarrow> nat" where
  "ur_base_output_count r = 1 + (if ur_same_token_broadcaster_fee r \<noteq> None then 1 else 0)"

definition sr_same_token_broadcaster_fee :: "send_request \<Rightarrow> broadcaster_fee_output option" where
  "sr_same_token_broadcaster_fee r =
     option_filter (\<lambda>fee. bf_token_address fee = sr_token_address r) (sr_broadcaster_fee r)"

definition sr_different_token_broadcaster_fee :: "send_request \<Rightarrow> broadcaster_fee_output option" where
  "sr_different_token_broadcaster_fee r =
     option_filter (\<lambda>fee. bf_token_address fee \<noteq> sr_token_address r) (sr_broadcaster_fee r)"

definition sr_fee_amount :: "send_request \<Rightarrow> u256" where
  "sr_fee_amount r = (case sr_same_token_broadcaster_fee r of None \<Rightarrow> 0 | Some fee \<Rightarrow> bf_amount fee)"

definition sr_target_amount :: "send_request \<Rightarrow> u256" where
  "sr_target_amount r = sr_amount r + sr_fee_amount r"

definition sr_base_output_count :: "send_request \<Rightarrow> nat" where
  "sr_base_output_count r = 1 + (if sr_same_token_broadcaster_fee r \<noteq> None then 1 else 0)"

datatype composite_unshield_recipient = PublicRecipient address | RelayAdaptRecipient

datatype composite_unshield_leg_role =
    PrimaryLeg | NativeTopUp | WrappedNativeOutput | SponsoredWrappedNative | OtherLeg

record composite_unshield_leg =
  leg_token_address :: address
  leg_amount :: u256
  leg_recipient :: composite_unshield_recipient
  leg_role :: composite_unshield_leg_role

definition unshield_to :: "composite_unshield_recipient \<Rightarrow> address \<Rightarrow> address" where
  "unshield_to r relay_adapt_contract =
     (case r of PublicRecipient recipient \<Rightarrow> recipient | RelayAdaptRecipient \<Rightarrow> relay_adapt_contract)"

definition uses_relay_adapt :: "composite_unshield_recipient \<Rightarrow> bool" where
  "uses_relay_adapt r = (case r of PublicRecipient _ \<Rightarrow> False | RelayAdaptRecipient \<Rightarrow> True)"

datatype composite_relay_action_token = Erc20 address | BaseNative

datatype composite_relay_action =
    UnwrapBase u256
  | TransferAction composite_relay_action_token address u256

record composite_relay_actions =
  cra_min_gas_limit :: u256
  cra_calls :: "composite_relay_action list"

definition action_token_address :: "composite_relay_action_token \<Rightarrow> address" where
  "action_token_address t = (case t of Erc20 a \<Rightarrow> a | BaseNative \<Rightarrow> 0)"

definition action_token_transfer :: "composite_relay_action_token \<Rightarrow> address \<Rightarrow> u256 \<Rightarrow> token_transfer" where
  "action_token_transfer t recipient amount =
     (case t of Erc20 token_address \<Rightarrow> transfer_erc20 token_address recipient amount
      | BaseNative \<Rightarrow> transfer_base_native recipient amount)"

definition relay_action_call ::
  "abi \<Rightarrow> address \<Rightarrow> composite_relay_action \<Rightarrow> build_error + contract_call" where
  "relay_action_call ab relay_adapt_contract action =
     (case action of
        UnwrapBase amount \<Rightarrow>
          if amount = 0 then Inl InvalidRelayAdaptActionAmount
          else Inr (unwrap_base_call ab relay_adapt_contract amount)
      | TransferAction token recipient amount \<Rightarrow>
          if amount = 0 then Inl InvalidRelayAdaptActionAmount
          else Inr (transfer_call ab relay_adapt_contract [action_token_transfer token recipient amount]))"

text \<open>A loop that collects the results and stops at the first error.\<close>

fun map_result :: "('a \<Rightarrow> 'e + 'b) \<Rightarrow> 'a list \<Rightarrow> 'e + 'b list" where
  "map_result f [] = Inr []"
| "map_result f (x # xs) = bind_result (f x) (\<lambda>y. bind_result (map_result f xs) (\<lambda>ys. Inr (y # ys)))"

definition relay_action_data ::
  "abi \<Rightarrow> composite_relay_actions \<Rightarrow> address \<Rightarrow> 248 word \<Rightarrow> build_error + action_data" where
  "relay_action_data ab actions relay_adapt_contract random =
     bind_result (map_result (relay_action_call ab relay_adapt_contract) (cra_calls actions)) (\<lambda>calls.
       Inr (action_require_success random (cra_min_gas_limit actions) calls))"

record composite_unshield_request =
  cur_adapter :: "composite_adapter option"
  cur_legs :: "composite_unshield_leg list"
  cur_relay_actions :: "composite_relay_actions option"
  cur_broadcaster_fee :: "broadcaster_fee_output option"
  cur_min_gas_price :: u128
  cur_verify_proof :: bool
  cur_spend_up_to :: bool

datatype mixed_private_send_role = PrimarySend | OtherSend

record mixed_private_send =
  mps_token_address :: address
  mps_amount :: u256
  mps_recipient :: address_data
  mps_role :: mixed_private_send_role

record mixed_private_action_rebuild_constraint =
  mrc_selected_inputs :: "selected_input_identity list"
  mrc_expected_shape :: composite_plan_shape

record mixed_private_action_request =
  mar_adapter :: "composite_adapter option"
  mar_executor_calls :: "contract_call list"
  mar_private_sends :: "mixed_private_send list"
  mar_public_unshields :: "composite_unshield_leg list"
  mar_relay_actions :: "composite_relay_actions option"
  mar_min_gas_price :: u128
  mar_verify_proof :: bool
  mar_spend_up_to :: bool
  mar_rebuild :: "mixed_private_action_rebuild_constraint option"

section \<open>Plans\<close>

record input_witness =
  iw_utxo :: utxo
  iw_merkle_proof :: merkle_proof

record public_inputs =
  pub_merkle_root :: u256
  pub_bound_params_hash :: u256
  pub_nullifiers :: "u256 list"
  pub_commitments_out :: "u256 list"

record private_inputs =
  priv_token_address :: u256
  priv_random_in :: "u256 list"
  priv_value_in :: "u256 list"
  priv_path_elements :: "u256 list"
  priv_leaves_indices :: "u256 list"
  priv_value_out :: "u256 list"
  priv_public_key :: "u256 \<times> u256"
  priv_npk_out :: "u256 list"
  priv_nullifying_key :: u256

type_synonym spend_signature = "u256 \<times> u256 \<times> u256"

record transaction_plan_chunk =
  tpc_tree_number :: u32
  tpc_merkle_root :: u256
  tpc_inputs :: "input_witness list"
  tpc_outputs :: "railgun_note list"
  tpc_has_unshield :: bool
  tpc_public_inputs :: public_inputs
  tpc_private_inputs :: private_inputs
  tpc_signature :: spend_signature

definition private_output_count :: "transaction_plan_chunk \<Rightarrow> nat option" where
  "private_output_count c =
     (if tpc_has_unshield c
      then (if length (tpc_outputs c) < 1 then None else Some (length (tpc_outputs c) - 1))
      else Some (length (tpc_outputs c)))"

datatype pre_transaction_poi_error =
    InputCountMismatch nat nat
  | OutputCountMismatch nat nat
  | MissingPrivateOutputBeforeUnshield
  | MerkleProofCountMismatch nat nat
  | MerkleProofLeafMismatch nat b256 b256
  | MerkleProofPathLengthMismatch nat nat nat
  | TxidMerkleProofPathLengthMismatch nat nat
  | TxidLeafHashMismatch b256 b256
  | PublicSignalCountMismatch nat nat
  | PublicSignalMismatch string b256 b256
  | PoiRpc
  | ProofSource string
  | PoiProver

definition private_output_count_for_poi :: "transaction_plan_chunk \<Rightarrow> pre_transaction_poi_error + nat" where
  "private_output_count_for_poi c =
     bind_result
       (if tpc_has_unshield c
        then (let n = length (pub_commitments_out (tpc_public_inputs c))
              in if n < 1 then Inl MissingPrivateOutputBeforeUnshield else Inr (n - 1))
        else Inr (length (pub_commitments_out (tpc_public_inputs c)))) (\<lambda>private_output_count.
       let npk = length (priv_npk_out (tpc_private_inputs c));
           v = length (priv_value_out (tpc_private_inputs c))
       in if npk < private_output_count \<or> v < private_output_count
          then Inl (OutputCountMismatch private_output_count (min npk v))
          else Inr private_output_count)"

record transaction_shape =
  ts_input_count :: nat
  ts_output_count :: nat
  ts_has_unshield :: bool

record mixed_private_action_preview =
  map_selected_inputs :: "selected_input_identity list"
  map_shape :: composite_plan_shape
  map_transactions :: "transaction_shape list"

record unshield_plan =
  up_call :: transaction_call
  up_tree_number :: u32
  up_merkle_root :: u256
  up_inputs :: "input_witness list"
  up_outputs :: "railgun_note list"
  up_chunks :: "transaction_plan_chunk list"
  up_broadcaster_fee_note :: "railgun_note option"
  up_unshield_note :: railgun_note
  up_unshield_notes :: "railgun_note list"
  up_change_note :: "railgun_note option"
  up_public_inputs :: public_inputs
  up_private_inputs :: private_inputs
  up_signature :: spend_signature

record send_plan =
  sdp_call :: transaction_call
  sdp_tree_number :: u32
  sdp_merkle_root :: u256
  sdp_inputs :: "input_witness list"
  sdp_outputs :: "railgun_note list"
  sdp_chunks :: "transaction_plan_chunk list"
  sdp_broadcaster_fee_note :: "railgun_note option"
  sdp_recipient_note :: railgun_note
  sdp_recipient_notes :: "railgun_note list"
  sdp_change_note :: "railgun_note option"
  sdp_public_inputs :: public_inputs
  sdp_private_inputs :: private_inputs
  sdp_signature :: spend_signature

record transact_plan =
  tp_call :: transaction_call
  tp_tree_number :: u32
  tp_merkle_root :: u256
  tp_inputs :: "input_witness list"
  tp_outputs :: "railgun_note list"
  tp_public_inputs :: public_inputs
  tp_private_inputs :: private_inputs
  tp_signature :: spend_signature

definition unshield_plan_transaction_count :: "unshield_plan \<Rightarrow> nat" where
  "unshield_plan_transaction_count p = length (up_chunks p)"

definition unshield_amount :: "unshield_plan \<Rightarrow> u256" where
  "unshield_amount p = foldl (\<lambda>s n. s + note_value n) 0 (up_unshield_notes p)"

definition send_plan_transaction_count :: "send_plan \<Rightarrow> nat" where
  "send_plan_transaction_count p = length (sdp_chunks p)"

definition send_amount :: "send_plan \<Rightarrow> u256" where
  "send_amount p = foldl (\<lambda>s n. s + note_value n) 0 (sdp_recipient_notes p)"

record composite_unshield_leg_metadata =
  clm_leg_index :: nat
  clm_token_address :: address
  clm_requested_amount :: u256
  clm_recipient :: composite_unshield_recipient
  clm_role :: composite_unshield_leg_role
  clm_transaction_indices :: "nat list"

record composite_unshield_planned_output =
  cpo_leg_index :: nat
  cpo_transaction_index :: nat
  cpo_output_index :: nat
  cpo_token_address :: address
  cpo_amount :: u256
  cpo_recipient :: composite_unshield_recipient
  cpo_role :: composite_unshield_leg_role
  cpo_note :: railgun_note

datatype composite_private_output_role_kind = BroadcasterFeeRole | ChangeRole

record composite_private_output_role =
  cor_chunk_index :: nat
  cor_output_index :: nat
  cor_role :: composite_private_output_role_kind
  cor_token_address :: address

record composite_unshield_plan =
  cup_call :: transaction_call
  cup_inputs :: "input_witness list"
  cup_outputs :: "railgun_note list"
  cup_chunks :: "transaction_plan_chunk list"
  cup_broadcaster_fee_note :: "railgun_note option"
  cup_unshield_outputs :: "composite_unshield_planned_output list"
  cup_leg_metadata :: "composite_unshield_leg_metadata list"
  cup_private_output_roles :: "composite_private_output_role list"
  cup_action_data :: "action_data option"
  cup_shape :: composite_plan_shape

datatype mixed_private_output_role = RecipientOutput mixed_private_send_role | ChangeOutput

datatype mixed_private_output_source = FromSend nat | FromPublicUnshield nat

record mixed_private_planned_output =
  mpo_source :: mixed_private_output_source
  mpo_transaction_index :: nat
  mpo_output_index :: nat
  mpo_token_address :: address
  mpo_amount :: u256
  mpo_role :: mixed_private_output_role
  mpo_note :: railgun_note

record mixed_public_planned_output =
  mpp_unshield_index :: nat
  mpp_transaction_index :: nat
  mpp_output_index :: nat
  mpp_token_address :: address
  mpp_amount :: u256
  mpp_recipient :: composite_unshield_recipient
  mpp_role :: composite_unshield_leg_role
  mpp_note :: railgun_note

record mixed_private_action_plan =
  mpl_call :: transaction_call
  mpl_inputs :: "input_witness list"
  mpl_outputs :: "railgun_note list"
  mpl_chunks :: "transaction_plan_chunk list"
  mpl_private_outputs :: "mixed_private_planned_output list"
  mpl_public_outputs :: "mixed_public_planned_output list"
  mpl_action_data :: "action_data option"
  mpl_selected_inputs :: "selected_input_identity list"
  mpl_shape :: composite_plan_shape

section \<open>The environment\<close>

text \<open>
  What a plan takes from outside: the hash, the cipher and the curve, the ABI codec, the spend
  signer and the prover; \<open>env_rand i n\<close> is the \<open>i\<close>-th array of \<open>n\<close> bytes drawn from the random
  source and \<open>env_iv i\<close> the nonce drawn for it, \<open>None\<close> when the system source fails. The prover
  returns no proof when it fails.
\<close>

record 'p env =
  env_hash :: hash_fn
  env_aes :: aes_gcm
  env_curve :: "'p curve"
  env_abi :: abi
  env_rand :: "nat \<Rightarrow> nat \<Rightarrow> bytes"
  env_iv :: "nat \<Rightarrow> bytes option"
  env_spending_public_key :: "u256 \<times> u256"
  env_sign_spend_message :: "u256 \<Rightarrow> spend_signature"
  env_prove :: "public_inputs \<Rightarrow> private_inputs \<Rightarrow> spend_signature \<Rightarrow> bool \<Rightarrow> snark_proof option"

section \<open>Circuit inputs\<close>

definition public_inputs_from_parts ::
  "'p env \<Rightarrow> u256 \<Rightarrow> u256 \<Rightarrow> u256 list \<Rightarrow> railgun_note list \<Rightarrow> public_inputs" where
  "public_inputs_from_parts env merkle_root bp_hash nullifiers outputs =
     \<lparr>pub_merkle_root = merkle_root, pub_bound_params_hash = bp_hash, pub_nullifiers = nullifiers,
      pub_commitments_out = map (commitment (env_hash env)) outputs\<rparr>"

definition public_inputs_from_transaction ::
  "'p env \<Rightarrow> u256 \<Rightarrow> railgun_transaction \<Rightarrow> railgun_note list \<Rightarrow> public_inputs" where
  "public_inputs_from_transaction env merkle_root transaction outputs =
     public_inputs_from_parts env merkle_root (bound_params_hash (env_abi env) (tx_bound_params transaction))
       (map (\<lambda>v. u256_from_be_slice (fb32_bytes v)) (tx_nullifiers transaction)) outputs"

definition signature_message :: "public_inputs \<Rightarrow> u256 list" where
  "signature_message p =
     [pub_merkle_root p, pub_bound_params_hash p] @ pub_nullifiers p @ pub_commitments_out p"

definition public_inputs_signature :: "'p env \<Rightarrow> public_inputs \<Rightarrow> spend_signature" where
  "public_inputs_signature env p = env_sign_spend_message env (poseidon (env_hash env) (signature_message p))"

definition private_inputs_step ::
  "u256 list \<times> u256 list \<times> u256 list \<times> u256 list \<Rightarrow> input_witness \<Rightarrow>
     u256 list \<times> u256 list \<times> u256 list \<times> u256 list" where
  "private_inputs_step acc input =
     (case acc of (random_in, value_in, leaves_indices, path_elements) \<Rightarrow>
        (random_in @ [u256_from_be_slice (note_random (utxo_note (iw_utxo input)))],
         value_in @ [note_value (utxo_note (iw_utxo input))],
         leaves_indices @ [ucast (utxo_position (iw_utxo input))],
         path_elements @ mp_path_elements (iw_merkle_proof input)))"

definition private_inputs_from_inputs ::
  "'p env \<Rightarrow> address \<Rightarrow> input_witness list \<Rightarrow> railgun_note list \<Rightarrow> viewing_key_data \<Rightarrow> private_inputs" where
  "private_inputs_from_inputs env token_address inputs outputs viewing =
     (let (random_in, value_in, leaves_indices, path_elements) =
            foldl private_inputs_step ([], [], [], []) inputs
      in \<lparr>priv_token_address = u256_from_be_slice (address_bytes token_address),
          priv_random_in = random_in, priv_value_in = value_in, priv_path_elements = path_elements,
          priv_leaves_indices = leaves_indices, priv_value_out = map note_value outputs,
          priv_public_key = env_spending_public_key env, priv_npk_out = map note_npk outputs,
          priv_nullifying_key = vk_nullifying_key viewing\<rparr>)"

record transaction_builder =
  tb_chain_type :: u8
  tb_chain_id :: u64
  tb_railgun_contract :: address

lemma private_inputs_eq:
  "private_inputs_from_inputs env token inputs outputs viewing =
     \<lparr>priv_token_address = u256_from_be_slice (address_bytes token),
      priv_random_in = map (\<lambda>i. u256_from_be_slice (note_random (utxo_note (iw_utxo i)))) inputs,
      priv_value_in = map (\<lambda>i. note_value (utxo_note (iw_utxo i))) inputs,
      priv_path_elements = concat (map (\<lambda>i. mp_path_elements (iw_merkle_proof i)) inputs),
      priv_leaves_indices = map (\<lambda>i. ucast (utxo_position (iw_utxo i))) inputs,
      priv_value_out = map note_value outputs, priv_public_key = env_spending_public_key env,
      priv_npk_out = map note_npk outputs, priv_nullifying_key = vk_nullifying_key viewing\<rparr>"
proof -
  have "foldl private_inputs_step ([], [], [], []) inputs =
      (map (\<lambda>i. u256_from_be_slice (note_random (utxo_note (iw_utxo i)))) inputs,
       map (\<lambda>i. note_value (utxo_note (iw_utxo i))) inputs,
       map (\<lambda>i. ucast (utxo_position (iw_utxo i))) inputs,
       concat (map (\<lambda>i. mp_path_elements (iw_merkle_proof i)) inputs))"
    by (induction inputs rule: rev_induct) (simp_all add: private_inputs_step_def)
  then show ?thesis by (simp add: private_inputs_from_inputs_def)
qed

lemma map_result_Inr:
  "map_result f xs = Inr ys \<Longrightarrow> length ys = length xs \<and> (\<forall>i < length xs. f (xs ! i) = Inr (ys ! i))"
proof (induction xs arbitrary: ys)
  case (Cons x xs)
  then obtain y zs where "f x = Inr y" "map_result f xs = Inr zs" "ys = y # zs" by auto
  with Cons.IH [of zs] show ?case by (auto simp: less_Suc_eq_0_disj)
qed simp

end
