(* ===== verification/Forest.thy ===== *)
theory Forest
  imports MerkleTree
begin

text \<open>
  \<open>MerkleForest\<close> of \<open>merkletree/src/tree/mod.rs\<close>: one sparse tree per tree number. The lemmas give
  the leaf map after every operation, that every operation keeps the forest invariant, and that
  replaying \<open>leaves_beyond\<close> on a base forest reproduces the extended one.
\<close>

section \<open>Data and operations\<close>

record merkle_forest =
  mf_trees :: "(u32, merkle_tree) btree_map"

definition forest_new :: merkle_forest where
  "forest_new = \<lparr>mf_trees = []\<rparr>"

text \<open>
  \<open>tree.insert(..)?\<close> runs on the slot that \<open>entry(..).or_default()\<close> created, so the slot stays
  whatever the insertion returns.
\<close>

definition insert_leaf ::
  "merkle_forest \<Rightarrow> merkle_tree_update \<Rightarrow> merkle_forest \<times> (sync_error + unit)" where
  "insert_leaf forest update =
     (case validate_tree_position (upd_tree_position update) of
        Inl e \<Rightarrow> (forest, Inl e)
      | Inr _ \<Rightarrow>
          let slot = (case bt_get (mf_trees forest) (upd_tree_number update) of
                        None \<Rightarrow> default_tree | Some t \<Rightarrow> t);
              (tree, result) = tree_insert (upd_tree_position update) (upd_hash update) slot
          in (\<lparr>mf_trees = bt_insert (upd_tree_number update) tree (mf_trees forest)\<rparr>, result))"

text \<open>The loop stops at the first rejected update; the insertions before it stay.\<close>

fun insert_updates_from ::
  "merkle_forest \<Rightarrow> nat \<Rightarrow> merkle_tree_update list \<Rightarrow> merkle_forest \<times> (sync_error + nat)" where
  "insert_updates_from forest cnt [] = (forest, Inr cnt)"
| "insert_updates_from forest cnt (update # updates) =
     (case insert_leaf forest update of
        (forest', Inl e) \<Rightarrow> (forest', Inl e)
      | (forest', Inr _) \<Rightarrow> insert_updates_from forest' (cnt + 1) updates)"

definition insert_updates ::
  "merkle_forest \<Rightarrow> merkle_tree_update list \<Rightarrow> merkle_forest \<times> (sync_error + nat)" where
  "insert_updates forest updates = insert_updates_from forest 0 updates"

fun insert_ordered_from ::
  "nat \<Rightarrow> u256 list \<Rightarrow> merkle_tree \<Rightarrow> nat \<Rightarrow> sync_error + (merkle_tree \<times> nat)" where
  "insert_ordered_from position [] tree cnt = Inr (tree, cnt)"
| "insert_ordered_from position (leaf # leaves) tree cnt =
     (if leaf = MERKLE_ZERO_VALUE then insert_ordered_from (position + 1) leaves tree cnt
      else if 2 ^ 64 \<le> position then Inl UnexpectedFormat
      else (case tree_insert (word_of_nat position) leaf tree of
              (_, Inl e) \<Rightarrow> Inl e
            | (tree', Inr _) \<Rightarrow> insert_ordered_from (position + 1) leaves tree' (cnt + 1)))"

definition replace_tree_ordered_leaves ::
  "merkle_forest \<Rightarrow> u32 \<Rightarrow> u64 \<Rightarrow> u256 list \<Rightarrow> merkle_forest \<times> (sync_error + nat)" where
  "replace_tree_ordered_leaves forest tree_number leaf_count leaves =
     (if TREE_LEAF_COUNT < leaf_count then (forest, Inl UnexpectedFormat)
      else (case insert_ordered_from 0 (take (unat leaf_count) leaves) default_tree 0 of
              Inl e \<Rightarrow> (forest, Inl e)
            | Inr (tree, cnt) \<Rightarrow>
                (\<lparr>mf_trees = bt_insert tree_number tree (mf_trees forest)\<rparr>, Inr cnt)))"

definition compute_roots :: "hash_fn \<Rightarrow> merkle_forest \<Rightarrow> merkle_forest" where
  "compute_roots hash forest =
     \<lparr>mf_trees = map (\<lambda>(id, tree). (id, fst (compute_root hash tree))) (mf_trees forest)\<rparr>"

definition computed_roots :: "hash_fn \<Rightarrow> merkle_forest \<Rightarrow> (u32, u256) btree_map" where
  "computed_roots hash forest = map (\<lambda>(id, tree). (id, computed_root hash tree)) (mf_trees forest)"

definition forest_roots :: "merkle_forest \<Rightarrow> (u32, u256) btree_map" where
  "forest_roots forest =
     map (\<lambda>(id, tree). (id, (case mt_root tree of Some r \<Rightarrow> r | None \<Rightarrow> 0))) (mf_trees forest)"

definition tree_count :: "merkle_forest \<Rightarrow> nat" where
  "tree_count forest = length (mf_trees forest)"

definition forest_leaf_count :: "merkle_forest \<Rightarrow> nat" where
  "forest_leaf_count forest = sum_list (map tree_leaf_count (bt_values (mf_trees forest)))"

definition leaf_at :: "merkle_forest \<Rightarrow> u32 \<Rightarrow> u64 \<Rightarrow> u256 option" where
  "leaf_at forest tree_number position =
     Option.bind (bt_get (mf_trees forest) tree_number) (\<lambda>tree. bt_get (mt_leaves tree) position)"

definition contains_tree :: "merkle_forest \<Rightarrow> u32 \<Rightarrow> bool" where
  "contains_tree forest tree_number = bt_contains_key (mf_trees forest) tree_number"

definition frontier_start :: "merkle_forest \<Rightarrow> u32 \<Rightarrow> u64" where
  "frontier_start base tree_number =
     (case Option.bind (bt_get (mf_trees base) tree_number) (\<lambda>t. bt_last_key_value (mt_leaves t)) of
        None \<Rightarrow> 0 | Some (last_pos, _) \<Rightarrow> last_pos + 1)"

definition leaves_beyond :: "merkle_forest \<Rightarrow> merkle_forest \<Rightarrow> merkle_tree_update list" where
  "leaves_beyond forest base =
     concat (map (\<lambda>(tree_number, tree).
         map (\<lambda>(tree_position, h).
             \<lparr>upd_tree_number = tree_number, upd_tree_position = tree_position, upd_hash = h\<rparr>)
           (bt_range_from (mt_leaves tree) (frontier_start base tree_number)))
       (mf_trees forest))"

definition forest_prove :: "hash_fn \<Rightarrow> merkle_forest \<Rightarrow> u32 \<Rightarrow> u64 \<Rightarrow> merkle_proof option" where
  "forest_prove hash forest tree_number tree_position =
     (let (tree_number, tree_position) = normalize_tree_position tree_number tree_position
      in map_option (\<lambda>tree. tree_prove hash tree tree_position)
           (bt_get (mf_trees forest) tree_number))"

definition forest_prove_with_leaf_count ::
  "hash_fn \<Rightarrow> merkle_forest \<Rightarrow> u32 \<Rightarrow> u64 \<Rightarrow> u64 \<Rightarrow> merkle_proof option" where
  "forest_prove_with_leaf_count hash forest tree_number tree_position leaf_count =
     (let (tree_number, tree_position) = normalize_tree_position tree_number tree_position
      in map_option (\<lambda>tree. tree_prove_with_leaf_count hash tree tree_position leaf_count)
           (bt_get (mf_trees forest) tree_number))"

section \<open>Invariant\<close>

definition mf_inv :: "hash_fn \<Rightarrow> merkle_forest \<Rightarrow> bool" where
  "mf_inv hash forest \<longleftrightarrow>
     bt_inv (mf_trees forest) \<and>
     (\<forall>n t. bt_get (mf_trees forest) n = Some t \<longrightarrow> mt_inv hash t)"

lemma mf_inv_new [simp]: "mf_inv hash forest_new"
  by (simp add: mf_inv_def forest_new_def)

lemma mf_inv_put:
  "mf_inv hash f \<Longrightarrow> mt_inv hash t \<Longrightarrow> mf_inv hash \<lparr>mf_trees = bt_insert n t (mf_trees f)\<rparr>"
  by (auto simp: mf_inv_def)

lemma mf_inv_insert_leaf: "mf_inv hash f \<Longrightarrow> mf_inv hash (fst (insert_leaf f u))"
proof -
  assume f: "mf_inv hash f"
  define slot where "slot = (case bt_get (mf_trees f) (upd_tree_number u) of None \<Rightarrow> default_tree | Some t \<Rightarrow> t)"
  have "mt_inv hash slot"
    using f by (auto simp: slot_def mf_inv_def split: option.splits)
  then have "mf_inv hash \<lparr>mf_trees = bt_insert (upd_tree_number u)
      (fst (tree_insert (upd_tree_position u) (upd_hash u) slot)) (mf_trees f)\<rparr>"
    by (intro mf_inv_put f mt_inv_insert)
  with f show ?thesis
    by (auto simp: insert_leaf_def Let_def slot_def split: sum.splits prod.splits)
qed

lemma mf_inv_insert_updates_from: "mf_inv hash f \<Longrightarrow> mf_inv hash (fst (insert_updates_from f n us))"
proof (induction f n us rule: insert_updates_from.induct)
  case (2 f n u us)
  then show ?case
    using mf_inv_insert_leaf [of hash f u] by (auto split: prod.splits sum.splits)
qed simp

lemma mf_inv_insert_updates: "mf_inv hash f \<Longrightarrow> mf_inv hash (fst (insert_updates f us))"
  by (simp add: insert_updates_def mf_inv_insert_updates_from)

lemma bt_get_map_values: "bt_get (map (\<lambda>(k, v). (k, g v)) m) k = map_option g (bt_get m k)"
  by (induction m) (auto simp: bt_get_def)

lemma bt_inv_map_values: "bt_inv (map (\<lambda>(k, v). (k, g v)) m) \<longleftrightarrow> bt_inv m"
  by (simp add: bt_inv_def comp_def case_prod_beta)

lemma mf_inv_compute_roots: "mf_inv hash f \<Longrightarrow> mf_inv hash (compute_roots hash f)"
  by (auto simp: mf_inv_def compute_roots_def bt_get_map_values bt_inv_map_values
      intro: mt_inv_compute_root)

section \<open>Leaves\<close>

lemma leaf_at_insert_leaf:
  "leaf_at (fst (insert_leaf f u)) n p =
     (if upd_tree_position u < TREE_LEAF_COUNT \<and> upd_tree_number u = n \<and> upd_tree_position u = p
      then Some (upd_hash u) else leaf_at f n p)"
  by (auto simp: leaf_at_def insert_leaf_def validate_tree_position_def tree_insert_def Let_def
      default_tree_def split: option.splits)

lemma insert_leaf_result:
  "snd (insert_leaf f u) =
     (if upd_tree_position u < TREE_LEAF_COUNT then Inr ()
      else Inl (InvalidTreePosition (upd_tree_position u) TREE_LEAF_COUNT))"
  by (auto simp: insert_leaf_def validate_tree_position_def tree_insert_def Let_def)

lemma insert_leaf_cases:
  "insert_leaf f u = (fst (insert_leaf f u),
     if upd_tree_position u < TREE_LEAF_COUNT then Inr ()
     else Inl (InvalidTreePosition (upd_tree_position u) TREE_LEAF_COUNT))"
  by (metis insert_leaf_result prod.collapse)

text \<open>The updates that take effect are those before the first rejected position.\<close>

definition accepted :: "merkle_tree_update list \<Rightarrow> merkle_tree_update list" where
  "accepted us = takeWhile (\<lambda>u. upd_tree_position u < TREE_LEAF_COUNT) us"

lemma insert_updates_from_result:
  "snd (insert_updates_from f n us) =
     (case find (\<lambda>u. \<not> upd_tree_position u < TREE_LEAF_COUNT) us of
        None \<Rightarrow> Inr (n + length us)
      | Some u \<Rightarrow> Inl (InvalidTreePosition (upd_tree_position u) TREE_LEAF_COUNT))"
proof (induction us arbitrary: f n)
  case (Cons u us)
  then show ?case
    by (subst insert_updates_from.simps, subst insert_leaf_cases) (auto split: option.splits)
qed simp

lemma find_SomeD: "find P xs = Some x \<Longrightarrow> x \<in> set xs \<and> P x"
  by (auto simp: find_Some_iff in_set_conv_nth)

lemma find_append: "find P (xs @ ys) = (case find P xs of None \<Rightarrow> find P ys | Some x \<Rightarrow> Some x)"
  by (induction xs) auto

lemma leaf_at_insert_updates_from:
  "leaf_at (fst (insert_updates_from f c us)) n p =
     (case find (\<lambda>u. upd_tree_number u = n \<and> upd_tree_position u = p) (rev (accepted us)) of
        None \<Rightarrow> leaf_at f n p | Some u \<Rightarrow> Some (upd_hash u))"
proof (induction us arbitrary: f c)
  case (Cons u us)
  show ?case
  proof (cases "upd_tree_position u < TREE_LEAF_COUNT")
    case True
    then have "fst (insert_updates_from f c (u # us)) =
        fst (insert_updates_from (fst (insert_leaf f u)) (c + 1) us)"
      by (subst insert_updates_from.simps, subst insert_leaf_cases) simp
    with True show ?thesis
      by (simp only: Cons.IH leaf_at_insert_leaf accepted_def)
         (auto simp: find_append leaf_at_insert_leaf split: option.splits)
  next
    case False
    then have "fst (insert_updates_from f c (u # us)) = fst (insert_leaf f u)"
      by (subst insert_updates_from.simps, subst insert_leaf_cases) simp
    with False show ?thesis by (simp add: accepted_def leaf_at_insert_leaf)
  qed
qed (simp add: accepted_def)

lemma accepted_all: "(\<And>u. u \<in> set us \<Longrightarrow> upd_tree_position u < TREE_LEAF_COUNT) \<Longrightarrow> accepted us = us"
  by (simp add: accepted_def takeWhile_eq_all_conv)

lemma leaf_at_insert_updates_other:
  assumes "\<And>u. u \<in> set us \<Longrightarrow> \<not> (upd_tree_number u = n \<and> upd_tree_position u = p)"
  shows "leaf_at (fst (insert_updates f us)) n p = leaf_at f n p"
proof -
  have "find (\<lambda>u. upd_tree_number u = n \<and> upd_tree_position u = p) (rev (accepted us)) = None"
    using assms by (auto simp: find_None_iff accepted_def dest: set_takeWhileD)
  then show ?thesis by (simp add: insert_updates_def leaf_at_insert_updates_from)
qed

lemma contains_tree_insert_leaf:
  "contains_tree f n \<Longrightarrow> contains_tree (fst (insert_leaf f u)) n"
  by (auto simp: contains_tree_def bt_contains_key_def insert_leaf_def Let_def
      split: sum.splits prod.splits)

lemma contains_tree_insert_updates_from:
  "contains_tree f n \<Longrightarrow> contains_tree (fst (insert_updates_from f c us)) n"
proof (induction f c us rule: insert_updates_from.induct)
  case (2 f c u us)
  then show ?case
    using contains_tree_insert_leaf [of f n u] by (auto split: prod.splits sum.splits)
qed simp

lemma leaf_at_tree: "bt_get (mf_trees f) n = Some t \<Longrightarrow> leaf_at f n p = bt_get (mt_leaves t) p"
  by (simp add: leaf_at_def)

lemma mf_inv_leaf_bound: "mf_inv hash f \<Longrightarrow> leaf_at f n p \<noteq> None \<Longrightarrow> p < TREE_LEAF_COUNT"
  by (auto simp: mf_inv_def leaf_at_def mt_inv_def bind_eq_Some_conv)

subsection \<open>Ordered replacement\<close>

lemma insert_ordered_from_spec:
  assumes "pos + length ls \<le> 65536"
  shows "\<exists>t'. insert_ordered_from pos ls t c = Inr (t', c + length (filter (\<lambda>l. l \<noteq> MERKLE_ZERO_VALUE) ls)) \<and>
     (\<forall>k. bt_get (mt_leaves t') k =
        (if pos \<le> unat k \<and> unat k < pos + length ls \<and> ls ! (unat k - pos) \<noteq> MERKLE_ZERO_VALUE
         then Some (ls ! (unat k - pos)) else bt_get (mt_leaves t) k)) \<and>
     (mt_inv hash t \<longrightarrow> mt_inv hash t')"
  using assms
proof (induction ls arbitrary: pos t c)
  case Nil
  have "\<not> (pos \<le> k \<and> k < pos + 0 \<and> P)" for k P by simp
  then show ?case by auto
next
  case (Cons l ls)
  then have bound: "Suc pos + length ls \<le> 65536" by simp
  have idx: "(pos \<le> k \<and> k < pos + length (l # ls) \<and> (l # ls) ! (k - pos) \<noteq> MERKLE_ZERO_VALUE) =
      ((k = pos \<and> l \<noteq> MERKLE_ZERO_VALUE) \<or>
       (Suc pos \<le> k \<and> k < Suc pos + length ls \<and> ls ! (k - Suc pos) \<noteq> MERKLE_ZERO_VALUE))" for k
    by (cases "k = pos") (auto simp: nth_Cons' Suc_diff_Suc)
  have val: "Suc pos \<le> k \<Longrightarrow> (l # ls) ! (k - pos) = ls ! (k - Suc pos)" for k
    by (simp add: nth_Cons')
  show ?case
  proof (cases "l = MERKLE_ZERO_VALUE")
    case True
    from Cons.IH [OF bound, of t c] obtain t' where
      "insert_ordered_from (Suc pos) ls t c = Inr (t', c + length (filter (\<lambda>l. l \<noteq> MERKLE_ZERO_VALUE) ls))"
      "\<And>k. bt_get (mt_leaves t') k =
        (if Suc pos \<le> unat k \<and> unat k < Suc pos + length ls \<and> ls ! (unat k - Suc pos) \<noteq> MERKLE_ZERO_VALUE
         then Some (ls ! (unat k - Suc pos)) else bt_get (mt_leaves t) k)"
      "mt_inv hash t \<longrightarrow> mt_inv hash t'" by blast
    with True show ?thesis unfolding idx by (auto simp: val)
  next
    case False
    define w where "w = (word_of_nat pos :: u64)"
    have w: "unat w = pos" using Cons.prems by (simp add: w_def unat_of_nat)
    define s where "s = fst (tree_insert w l t)"
    have ins: "tree_insert w l t = (s, Inr ())" and get: "bt_get (mt_leaves s) = (bt_get (mt_leaves t))(w := Some l)"
      using w Cons.prems
      by (auto simp: s_def tree_insert_def validate_tree_position_def word_le_nat_alt)
    from Cons.IH [OF bound, of s "c + 1"] obtain t' where
      "insert_ordered_from (Suc pos) ls s (c + 1) = Inr (t', c + 1 + length (filter (\<lambda>l. l \<noteq> MERKLE_ZERO_VALUE) ls))"
      "\<And>k. bt_get (mt_leaves t') k =
        (if Suc pos \<le> unat k \<and> unat k < Suc pos + length ls \<and> ls ! (unat k - Suc pos) \<noteq> MERKLE_ZERO_VALUE
         then Some (ls ! (unat k - Suc pos)) else bt_get (mt_leaves s) k)"
      "mt_inv hash s \<longrightarrow> mt_inv hash t'" by blast
    moreover have "mt_inv hash t \<longrightarrow> mt_inv hash s" by (simp add: s_def mt_inv_insert)
    moreover have "k = w \<longleftrightarrow> unat k = pos" for k
      using w by (metis unsigned_word_eqI)
    moreover have "\<not> 2 ^ 64 \<le> pos" using Cons.prems by simp
    ultimately show ?thesis
      using False ins unfolding idx by (auto simp: val get w_def [symmetric])
  qed
qed

lemma replace_tree_spec:
  assumes "leaf_count \<le> TREE_LEAF_COUNT"
  shows "\<exists>t. replace_tree_ordered_leaves f n leaf_count leaves =
       (\<lparr>mf_trees = bt_insert n t (mf_trees f)\<rparr>,
        Inr (length (filter (\<lambda>l. l \<noteq> MERKLE_ZERO_VALUE) (take (unat leaf_count) leaves)))) \<and>
     (\<forall>k. bt_get (mt_leaves t) k =
        (if unat k < min (unat leaf_count) (length leaves) \<and> leaves ! unat k \<noteq> MERKLE_ZERO_VALUE
         then Some (leaves ! unat k) else None)) \<and> mt_inv hash t"
proof -
  have "unat leaf_count \<le> 65536" using assms by (simp add: word_le_nat_alt)
  then have "0 + length (take (unat leaf_count) leaves) \<le> 65536" by simp
  from insert_ordered_from_spec [OF this, of default_tree 0 hash] obtain t where
    t: "insert_ordered_from 0 (take (unat leaf_count) leaves) default_tree 0 =
       Inr (t, 0 + length (filter (\<lambda>l. l \<noteq> MERKLE_ZERO_VALUE) (take (unat leaf_count) leaves)))"
      "mt_inv hash t"
    and get: "\<And>k. bt_get (mt_leaves t) k =
       (if 0 \<le> unat k \<and> unat k < 0 + length (take (unat leaf_count) leaves) \<and>
           take (unat leaf_count) leaves ! (unat k - 0) \<noteq> MERKLE_ZERO_VALUE
        then Some (take (unat leaf_count) leaves ! (unat k - 0)) else bt_get (mt_leaves default_tree) k)"
    using mt_inv_default [of hash] by blast
  have "bt_get (mt_leaves t) k =
       (if unat k < min (unat leaf_count) (length leaves) \<and> leaves ! unat k \<noteq> MERKLE_ZERO_VALUE
        then Some (leaves ! unat k) else None)" for k
    unfolding get by (auto simp: default_tree_def)
  with t assms show ?thesis by (auto simp: replace_tree_ordered_leaves_def)
qed

lemma mf_inv_replace_tree:
  assumes "mf_inv hash f"
  shows "mf_inv hash (fst (replace_tree_ordered_leaves f n leaf_count leaves))"
proof (cases "leaf_count \<le> TREE_LEAF_COUNT")
  case True
  from replace_tree_spec [OF this, of f n leaves hash] obtain t c where
    "replace_tree_ordered_leaves f n leaf_count leaves = (\<lparr>mf_trees = bt_insert n t (mf_trees f)\<rparr>, Inr c)"
    "mt_inv hash t" by blast
  with assms show ?thesis by (simp add: mf_inv_put)
next
  case False
  then have "TREE_LEAF_COUNT < leaf_count" by (simp add: not_le)
  with assms show ?thesis by (simp add: replace_tree_ordered_leaves_def)
qed

section \<open>Reachable forests\<close>

text \<open>A forest that the operations of the component build from the empty one.\<close>

inductive forest_reachable :: "hash_fn \<Rightarrow> merkle_forest \<Rightarrow> bool" for hash where
  new: "forest_reachable hash forest_new"
| leaf: "forest_reachable hash f \<Longrightarrow> forest_reachable hash (fst (insert_leaf f u))"
| updates: "forest_reachable hash f \<Longrightarrow> forest_reachable hash (fst (insert_updates f us))"
| replace: "forest_reachable hash f \<Longrightarrow>
    forest_reachable hash (fst (replace_tree_ordered_leaves f n leaf_count leaves))"
| roots: "forest_reachable hash f \<Longrightarrow> forest_reachable hash (compute_roots hash f)"

lemma forest_reachable_inv: "forest_reachable hash f \<Longrightarrow> mf_inv hash f"
  by (induction rule: forest_reachable.induct)
     (auto intro: mf_inv_insert_leaf mf_inv_insert_updates mf_inv_replace_tree mf_inv_compute_roots)

lemma computed_roots_get:
  "bt_get (computed_roots hash f) n = map_option (computed_root hash) (bt_get (mf_trees f) n)"
  by (simp add: computed_roots_def bt_get_map_values)

section \<open>Leaves beyond a base forest\<close>

lemma frontier_start_le:
  assumes "mf_inv hash b"
  shows "frontier_start b n \<le> p \<longleftrightarrow> (\<forall>k. leaf_at b n k \<noteq> None \<longrightarrow> k < p)"
proof (cases "bt_get (mf_trees b) n")
  case None
  then show ?thesis by (simp add: frontier_start_def leaf_at_def)
next
  case (Some t)
  with assms have t: "bt_inv (mt_leaves t)" by (auto simp: mf_inv_def mt_inv_def)
  show ?thesis
  proof (cases "bt_last_key_value (mt_leaves t)")
    case None
    with Some show ?thesis
      by (auto simp: frontier_start_def leaf_at_def bt_last_key_value_def split: if_splits)
  next
    case (Some kv)
    obtain k v where kv: "kv = (k, v)" by (cases kv)
    note max = bt_last_key_value_max [OF t Some [unfolded kv]]
    have at: "leaf_at b n j = bt_get (mt_leaves t) j" for j
      using \<open>bt_get (mf_trees b) n = Some t\<close> by (rule leaf_at_tree)
    have "k < TREE_LEAF_COUNT" using mf_inv_leaf_bound [OF assms, of n k] at max(1) by simp
    then have "unat (k + 1) = unat k + unat (1 :: u64)"
      by (intro unat_add_no_overflow) (simp add: word_less_nat_alt)
    then have "k + 1 \<le> p \<longleftrightarrow> k < p" by (auto simp: word_le_nat_alt word_less_nat_alt)
    moreover have "frontier_start b n = k + 1"
      using Some kv \<open>bt_get (mf_trees b) n = Some t\<close> by (simp add: frontier_start_def)
    ultimately show ?thesis
      unfolding at using max by (metis option.distinct(1) order.strict_trans1)
  qed
qed

lemma leaves_beyond_mem:
  assumes "mf_inv hash f"
  shows "u \<in> set (leaves_beyond f b) \<longleftrightarrow>
     leaf_at f (upd_tree_number u) (upd_tree_position u) = Some (upd_hash u) \<and>
     frontier_start b (upd_tree_number u) \<le> upd_tree_position u"
proof -
  have f: "bt_inv (mf_trees f)" using assms by (simp add: mf_inv_def)
  have t: "bt_inv (mt_leaves t)" if "bt_get (mf_trees f) n = Some t" for n t
    using assms that by (auto simp: mf_inv_def mt_inv_def)
  have "u \<in> set (leaves_beyond f b) \<longleftrightarrow> (\<exists>n t p h. (n, t) \<in> set (mf_trees f) \<and>
      (p, h) \<in> set (bt_range_from (mt_leaves t) (frontier_start b n)) \<and>
      u = \<lparr>upd_tree_number = n, upd_tree_position = p, upd_hash = h\<rparr>)"
    unfolding leaves_beyond_def by force
  also have "\<dots> \<longleftrightarrow> (\<exists>t. bt_get (mf_trees f) (upd_tree_number u) = Some t \<and>
      bt_get (mt_leaves t) (upd_tree_position u) = Some (upd_hash u) \<and>
      frontier_start b (upd_tree_number u) \<le> upd_tree_position u)"
    using t by (cases u) (auto simp: bt_mem_get [OF f] bt_range_from_mem)
  finally show ?thesis by (auto simp: leaf_at_def bind_eq_Some_conv)
qed

text \<open>\<open>f\<close> extends \<open>b\<close>: below the frontier of every tree of \<open>b\<close> the two agree.\<close>

definition forest_extends :: "merkle_forest \<Rightarrow> merkle_forest \<Rightarrow> bool" where
  "forest_extends f b \<longleftrightarrow> (\<forall>n p. p < frontier_start b n \<longrightarrow> leaf_at f n p = leaf_at b n p)"

lemma leaf_at_replay:
  assumes f: "mf_inv hash f" and b: "mf_inv hash b" and ext: "forest_extends f b"
  shows "leaf_at (fst (insert_updates b (leaves_beyond f b))) n p = leaf_at f n p"
proof -
  let ?us = "leaves_beyond f b"
  let ?P = "\<lambda>u. upd_tree_number u = n \<and> upd_tree_position u = p"
  have acc: "accepted ?us = ?us"
    by (rule accepted_all) (use leaves_beyond_mem [OF f] mf_inv_leaf_bound [OF f] in fastforce)
  show ?thesis
  proof (cases "find ?P (rev ?us)")
    case (Some u)
    then have "u \<in> set ?us" "?P u" by (auto dest: find_SomeD)
    with Some show ?thesis
      by (simp add: insert_updates_def leaf_at_insert_updates_from acc leaves_beyond_mem [OF f])
  next
    case None
    then have none: "\<And>u. u \<in> set ?us \<Longrightarrow> \<not> ?P u" by (simp add: find_None_iff)
    have "leaf_at b n p = leaf_at f n p"
    proof (cases "p < frontier_start b n")
      case True
      with ext show ?thesis by (simp add: forest_extends_def)
    next
      case False
      then have "leaf_at b n p = None" using frontier_start_le [OF b, of n p] by force
      moreover have "leaf_at f n p = None"
      proof (rule ccontr)
        assume "leaf_at f n p \<noteq> None"
        then obtain h where "leaf_at f n p = Some h" by blast
        with False have "\<lparr>upd_tree_number = n, upd_tree_position = p, upd_hash = h\<rparr> \<in> set ?us"
          by (simp add: leaves_beyond_mem [OF f])
        with none show False by force
      qed
      ultimately show ?thesis by simp
    qed
    then show ?thesis using leaf_at_insert_updates_other [of ?us n p b] none by simp
  qed
qed

section \<open>Properties\<close>

lemma leaf_fn_cong:
  assumes "\<And>k. k < leaf_count \<Longrightarrow> bt_get a k = bt_get b k"
  shows "leaf_fn a leaf_count = leaf_fn b leaf_count"
proof
  fix i
  show "leaf_fn a leaf_count i = leaf_fn b leaf_count i"
  proof (cases "i < unat leaf_count")
    case True
    moreover have "unat leaf_count < 2 ^ 64" using unsigned_less [of leaf_count] by simp
    ultimately have "unat (word_of_nat i :: u64) = i" by (intro unat_word_of_nat_u64) simp
    with True have "word_of_nat i < leaf_count" by (simp only: word_less_nat_alt)
    from assms [OF this] show ?thesis by (simp add: leaf_fn_def)
  qed (simp add: leaf_fn_def)
qed

lemma tree_prove_leaf:
  assumes "mt_inv hash t" "p < TREE_LEAF_COUNT"
  shows "mp_leaf (tree_prove hash t p) = (case bt_get (mt_leaves t) p of Some l \<Rightarrow> l | None \<Rightarrow> MERKLE_ZERO_VALUE)"
proof -
  have "unat p mod 65536 = unat p" using assms(2) by (simp add: word_less_nat_alt)
  then show ?thesis using sparse.proof_leaf [OF assms(1), of p] leaf_fn_unat [OF assms(2)] by simp
qed

lemma normalize_position_less: "snd (normalize_tree_position n p) < TREE_LEAF_COUNT"
  by (simp add: normalize_tree_position_def Let_def mod_TREE_LEAF_COUNT_less)

lemma normalize_position_idem:
  "normalize_tree_position n p = (n', p') \<Longrightarrow> p' mod TREE_LEAF_COUNT = p'"
  by (metis mod_TREE_LEAF_COUNT_less normalize_local normalize_position_less normalize_tree_position_def
      snd_conv)

text \<open>
  Claim C6. In every forest the operations can build, a proof handed out by \<open>prove\<close> verifies: hashing
  the leaf up along the path gives the proof's root, that root is the one \<open>computed_roots\<close> reports
  for the normalised tree, and the proved leaf is the leaf stored at the normalised position (the
  Merkle zero value where none is stored).
\<close>

theorem forest_prove_correct:
  assumes "forest_reachable hash f" "forest_prove hash f n p = Some pr"
    and "normalize_tree_position n p = (n', p')"
  shows "verify_proof hash pr \<and> mp_leaf_index pr = p' \<and>
     bt_get (computed_roots hash f) n' = Some (mp_root pr) \<and>
     mp_leaf pr = (case leaf_at f n' p' of Some l \<Rightarrow> l | None \<Rightarrow> MERKLE_ZERO_VALUE)"
proof -
  from assms(2,3) obtain t where t: "bt_get (mf_trees f) n' = Some t" and pr: "pr = tree_prove hash t p'"
    by (auto simp: forest_prove_def)
  have inv: "mt_inv hash t"
    using forest_reachable_inv [OF assms(1)] t by (auto simp: mf_inv_def)
  have "p' < TREE_LEAF_COUNT" using normalize_position_less [of n p] assms(3) by simp
  moreover have "mp_leaf_index pr = p'"
    by (simp add: pr sparse.prove_spec [OF inv] spec_proof_def normalize_position_idem [OF assms(3)])
  ultimately show ?thesis
    by (simp add: pr sparse.proof_verifies [OF inv] sparse.proof_root [OF inv] tree_prove_leaf [OF inv]
        computed_roots_get t computed_root_node [OF inv] leaf_at_tree [OF t])
qed

lemma forest_prove_correct_witness:
  "\<exists>pr. forest_prove sum_list (fst (insert_leaf forest_new
       \<lparr>upd_tree_number = 0, upd_tree_position = 1, upd_hash = 7\<rparr>)) 0 1 = Some pr \<and>
     verify_proof sum_list pr \<and> mp_leaf pr = 7"
proof -
  let ?f = "fst (insert_leaf forest_new \<lparr>upd_tree_number = 0, upd_tree_position = 1, upd_hash = 7\<rparr>)"
  have n: "normalize_tree_position 0 1 = (0, 1)"
    by (rule normalize_local) (simp add: TREE_LEAF_COUNT_eq)
  have leaf: "leaf_at ?f 0 1 = Some 7"
    by (simp add: leaf_at_insert_leaf TREE_LEAF_COUNT_eq)
  then obtain t where "bt_get (mf_trees ?f) 0 = Some t" by (auto simp: leaf_at_def bind_eq_Some_conv)
  then have "forest_prove sum_list ?f 0 1 = Some (tree_prove sum_list t 1)"
    by (simp add: forest_prove_def n)
  moreover have "forest_reachable sum_list ?f"
    by (intro forest_reachable.leaf forest_reachable.new)
  ultimately show ?thesis using forest_prove_correct [OF _ _ n] leaf by fastforce
qed

text \<open>
  Claim C16. Membership proofs bind the leaf: a proof that verifies against the root of a tree along the
  same path as the tree's own proof carries the tree's leaf (as a field element), provided the
  hash values are field elements and no collision occurs among the inputs on the two paths.
\<close>

theorem tree_proof_binding:
  assumes "mt_inv hash t" "\<And>xs. hash xs < SCALAR_FIELD"
    and "verify_proof hash q" "mp_root q = computed_root hash t"
    and "mp_path_indices q = mp_path_indices (tree_prove hash t p)"
    and "length (mp_path_elements q) = TREE_DEPTH"
    and "no_path_collision hash q (tree_prove hash t p)"
  shows "reduce_input (mp_leaf q) = reduce_input (mp_leaf (tree_prove hash t p))"
proof -
  have "mp_root q = mp_root (tree_prove hash t p)"
    using assms(4) by (simp add: sparse.proof_root [OF assms(1)] computed_root_node [OF assms(1)])
  from sparse.proof_binding [OF assms(1,2,3) this assms(5,6,7)]
  show ?thesis by (simp add: sparse.proof_leaf [OF assms(1)])
qed

lemma no_path_collision_refl: "no_path_collision hash q q"
  by (simp add: no_path_collision_def list_all2_same)

lemma tree_proof_binding_witness:
  "let t = default_tree; h = (\<lambda>_. 1); q = tree_prove h t 3
   in verify_proof h q \<and> reduce_input (mp_leaf q) = reduce_input (mp_leaf (tree_prove h t 3))"
proof -
  let ?h = "\<lambda>_ :: u256 list. 1 :: u256"
  have inv: "mt_inv ?h default_tree" by simp
  have "mp_root (tree_prove ?h default_tree 3) = computed_root ?h default_tree"
    by (simp add: sparse.proof_root [OF inv] computed_root_node [OF inv])
  from tree_proof_binding [OF inv _ sparse.proof_verifies [OF inv] this refl _ no_path_collision_refl]
  show ?thesis
    using sparse.proof_lengths [OF inv, of 3] sparse.proof_verifies [OF inv, of 3]
    by (simp add: Let_def SCALAR_FIELD_def)
qed

text \<open>
  Claim C17. Historical proofs are stable: a proof for the first \<open>leaf_count\<close> leaves of a tree is not
  changed by later updates, if each of them goes to another tree or to a position at or past
  \<open>leaf_count\<close>, whether or not the batch is accepted as a whole.
\<close>

theorem historical_proof_stable:
  assumes "mf_inv hash f" "normalize_tree_position n p = (n', p')" "contains_tree f n'"
    and "\<forall>u \<in> set us. upd_tree_number u = n' \<longrightarrow> leaf_count \<le> upd_tree_position u"
  shows "forest_prove_with_leaf_count hash (fst (insert_updates f us)) n p leaf_count =
     forest_prove_with_leaf_count hash f n p leaf_count"
proof -
  define g where "g = fst (insert_updates f us)"
  have "contains_tree g n'"
    using assms(3) by (simp add: g_def insert_updates_def contains_tree_insert_updates_from)
  with assms(3) obtain t s where t: "bt_get (mf_trees f) n' = Some t" and s: "bt_get (mf_trees g) n' = Some s"
    by (auto simp: contains_tree_def bt_contains_key_def)
  have "mf_inv hash g" using assms(1) by (simp add: g_def mf_inv_insert_updates)
  with s t assms(1) have inv: "bt_inv (mt_leaves t)" "bt_inv (mt_leaves s)"
    by (auto simp: mf_inv_def mt_inv_def)
  have "bt_get (mt_leaves s) k = bt_get (mt_leaves t) k" if "k < leaf_count" for k
  proof -
    have "leaf_at g n' k = leaf_at f n' k"
      unfolding g_def using that assms(4) by (intro leaf_at_insert_updates_other) fastforce
    then show ?thesis by (simp only: leaf_at_tree [OF t] leaf_at_tree [OF s])
  qed
  then have "leaf_fn (mt_leaves s) (min leaf_count TREE_LEAF_COUNT) =
      leaf_fn (mt_leaves t) (min leaf_count TREE_LEAF_COUNT)"
    by (intro leaf_fn_cong) simp
  then show ?thesis
    using inv by (simp add: g_def [symmetric] forest_prove_with_leaf_count_def assms(2) t s tree_prove_spec)
qed

lemma historical_proof_stable_witness:
  "let f = fst (insert_leaf forest_new \<lparr>upd_tree_number = 0, upd_tree_position = 0, upd_hash = 11\<rparr>);
       us = [\<lparr>upd_tree_number = 0, upd_tree_position = 1, upd_hash = 12\<rparr>]
   in contains_tree f 0 \<and>
      forest_prove_with_leaf_count sum_list (fst (insert_updates f us)) 0 0 1 =
      forest_prove_with_leaf_count sum_list f 0 0 1"
proof -
  let ?f = "fst (insert_leaf forest_new \<lparr>upd_tree_number = 0, upd_tree_position = 0, upd_hash = 11\<rparr>)"
  let ?us = "[\<lparr>upd_tree_number = 0, upd_tree_position = 1, upd_hash = 12\<rparr>]"
  have n: "normalize_tree_position 0 0 = (0, 0)"
    by (rule normalize_local) (simp add: TREE_LEAF_COUNT_eq)
  have "mf_inv sum_list ?f" by (intro mf_inv_insert_leaf mf_inv_new)
  moreover have c: "contains_tree ?f 0"
    by (simp add: contains_tree_def bt_contains_key_def insert_leaf_def validate_tree_position_def
        tree_insert_def TREE_LEAF_COUNT_eq)
  ultimately show ?thesis
    using historical_proof_stable [of sum_list ?f 0 0 0 0 ?us 1] n c by (simp add: Let_def)
qed

text \<open>
  Claim C20. \<open>leaves_beyond\<close> is exactly the missing part of an extension: applying it to the base is
  accepted in full and gives a forest with the leaves of the extended one, for any two reachable
  forests that agree below the frontier of the base.
\<close>

theorem leaves_beyond_replay:
  assumes "mf_inv hash f" "mf_inv hash b" "forest_extends f b"
  shows "snd (insert_updates b (leaves_beyond f b)) = Inr (length (leaves_beyond f b)) \<and>
     leaf_at (fst (insert_updates b (leaves_beyond f b))) = leaf_at f"
proof -
  have "find (\<lambda>u. \<not> upd_tree_position u < TREE_LEAF_COUNT) (leaves_beyond f b) = None"
    using leaves_beyond_mem [OF assms(1)] mf_inv_leaf_bound [OF assms(1)]
    by (fastforce simp: find_None_iff)
  then show ?thesis
    using leaf_at_replay [OF assms] by (simp add: insert_updates_def insert_updates_from_result fun_eq_iff)
qed

lemma leaves_beyond_replay_witness:
  "let b = fst (insert_leaf forest_new \<lparr>upd_tree_number = 0, upd_tree_position = 0, upd_hash = 11\<rparr>);
       f = fst (insert_leaf b \<lparr>upd_tree_number = 0, upd_tree_position = 5, upd_hash = 12\<rparr>)
   in leaf_at (fst (insert_updates b (leaves_beyond f b))) = leaf_at f"
proof -
  let ?b = "fst (insert_leaf forest_new \<lparr>upd_tree_number = 0, upd_tree_position = 0, upd_hash = 11\<rparr>)"
  let ?f = "fst (insert_leaf ?b \<lparr>upd_tree_number = 0, upd_tree_position = 5, upd_hash = 12\<rparr>)"
  have inv: "mf_inv sum_list ?b" "mf_inv sum_list ?f" by (intro mf_inv_insert_leaf mf_inv_new)+
  have "frontier_start ?b n = (if n = 0 then 1 else 0)" for n
    by (simp add: frontier_start_def insert_leaf_def validate_tree_position_def tree_insert_def
        TREE_LEAF_COUNT_eq forest_new_def default_tree_def bt_last_key_value_def bt_get_def)
  then have "forest_extends ?f ?b"
    by (auto simp: forest_extends_def leaf_at_insert_leaf word_less_nat_alt)
  from leaves_beyond_replay [OF inv(2,1) this] show ?thesis by (simp add: Let_def)
qed

text \<open>
  Claim C34. A batch of updates stops at the first position outside the tree: that update's error is
  returned, the updates before it (and only they) have taken effect, and where two of them hit
  the same slot the last one wins.
\<close>

theorem insert_updates_effect:
  "snd (insert_updates f us) =
     (case find (\<lambda>u. TREE_LEAF_COUNT \<le> upd_tree_position u) us of
        None \<Rightarrow> Inr (length us)
      | Some u \<Rightarrow> Inl (InvalidTreePosition (upd_tree_position u) TREE_LEAF_COUNT)) \<and>
   leaf_at (fst (insert_updates f us)) n p =
     (case find (\<lambda>u. upd_tree_number u = n \<and> upd_tree_position u = p)
             (rev (takeWhile (\<lambda>u. upd_tree_position u < TREE_LEAF_COUNT) us)) of
        None \<Rightarrow> leaf_at f n p | Some u \<Rightarrow> Some (upd_hash u))"
  using insert_updates_from_result [of f 0 us] leaf_at_insert_updates_from [of f 0 us n p]
  unfolding insert_updates_def accepted_def not_less add_0 by blast

text \<open>
  Claim C35. Replacing a tree by ordered leaves rejects a count above the capacity without touching the
  forest; otherwise the tree holds exactly the non-zero leaves among the first \<open>leaf_count\<close>, their
  number is returned and the other trees keep their leaves.
\<close>

theorem replace_tree_ordered_leaves_effect:
  "replace_tree_ordered_leaves f n leaf_count leaves =
     (if TREE_LEAF_COUNT < leaf_count then (f, Inl UnexpectedFormat)
      else (fst (replace_tree_ordered_leaves f n leaf_count leaves),
            Inr (length (filter (\<lambda>l. l \<noteq> MERKLE_ZERO_VALUE) (take (unat leaf_count) leaves))))) \<and>
   leaf_at (fst (replace_tree_ordered_leaves f n leaf_count leaves)) m p =
     (if leaf_count \<le> TREE_LEAF_COUNT \<and> m = n
      then (if unat p < min (unat leaf_count) (length leaves) \<and> leaves ! unat p \<noteq> MERKLE_ZERO_VALUE
            then Some (leaves ! unat p) else None)
      else leaf_at f m p)"
proof (cases "leaf_count \<le> TREE_LEAF_COUNT")
  case True
  from replace_tree_spec [OF True, of f n leaves] obtain t where
    t: "replace_tree_ordered_leaves f n leaf_count leaves =
       (\<lparr>mf_trees = bt_insert n t (mf_trees f)\<rparr>,
        Inr (length (filter (\<lambda>l. l \<noteq> MERKLE_ZERO_VALUE) (take (unat leaf_count) leaves))))"
    and get: "\<And>k. bt_get (mt_leaves t) k =
        (if unat k < min (unat leaf_count) (length leaves) \<and> leaves ! unat k \<noteq> MERKLE_ZERO_VALUE
         then Some (leaves ! unat k) else None)" by blast
  with True show ?thesis by (simp add: leaf_at_def)
next
  case False
  then have "TREE_LEAF_COUNT < leaf_count" by (simp only: not_le)
  with False show ?thesis by (simp add: replace_tree_ordered_leaves_def)
qed

end
