(* ===== verification/WalletScan.thy ===== *)
theory WalletScan
  imports TxTypes Forest
begin

text \<open>
  \<open>railgun-wallet/src/scan.rs\<close>: the rows a wallet reads from contract logs or from an indexer, and
  the delta (found notes, nullifiers, observed commitments, outputs kept for the sender scan) it
  derives from them with its viewing keys. The lemmas describe what a delta contains.
\<close>

section \<open>Logs and events\<close>

text \<open>
  The decoding of logs by the ABI library is third-party: \<open>event_abi\<close> carries the signature hash of
  each event and its decoder, \<open>None\<close> when decoding fails.
\<close>

record raw_log =
  log_topics :: "b256 list"
  log_data :: bytes
  log_block_number :: "u64 option"
  log_transaction_hash :: "b256 option"

text \<open>The \<open>fees\<close> of the current \<open>Shield\<close> event, which the scan never reads, are left out.\<close>

record transact_event =
  te_tree_number :: u256
  te_start_position :: u256
  te_hash :: "b256 list"
  te_ciphertext :: "commitment_ciphertext list"

record shield_event =
  she_tree_number :: u256
  she_start_position :: u256
  she_commitments :: "commitment_preimage list"
  she_shield_ciphertext :: "shield_ciphertext list"

record commitment_batch_event =
  cbe_tree_number :: u256
  cbe_start_position :: u256
  cbe_hash :: "u256 list"
  cbe_ciphertext :: "legacy_commitment_ciphertext list"

record generated_commitment_batch_event =
  gce_tree_number :: u256
  gce_start_position :: u256
  gce_commitments :: "legacy_commitment_preimage list"
  gce_encrypted_random :: "(u256 \<times> u256) list"

record nullifiers_event =
  nse_tree_number :: u256
  nse_nullifier :: "u256 list"

record nullified_event =
  nde_tree_number :: "16 word"
  nde_nullifier :: "b256 list"

record event_abi =
  transact_signature :: b256
  shield_signature :: b256
  legacy_shield_signature :: b256
  nullifiers_signature :: b256
  nullified_signature :: b256
  commitment_batch_signature :: b256
  generated_batch_signature :: b256
  decode_transact :: "b256 list \<Rightarrow> bytes \<Rightarrow> transact_event option"
  decode_shield :: "b256 list \<Rightarrow> bytes \<Rightarrow> shield_event option"
  decode_legacy_shield :: "b256 list \<Rightarrow> bytes \<Rightarrow> shield_event option"
  decode_nullifiers :: "b256 list \<Rightarrow> bytes \<Rightarrow> nullifiers_event option"
  decode_nullified :: "b256 list \<Rightarrow> bytes \<Rightarrow> nullified_event option"
  decode_commitment_batch :: "b256 list \<Rightarrow> bytes \<Rightarrow> commitment_batch_event option"
  decode_generated_batch :: "b256 list \<Rightarrow> bytes \<Rightarrow> generated_commitment_batch_event option"

datatype log_metadata = MissingBlockNumber | MissingBlockTimestamp | MissingTransactionHash

datatype wallet_scan_error = DecodeError | MissingLogMetadata log_metadata

text \<open>A scan can also panic, when an event carries a number its narrower type cannot hold.\<close>

datatype scan_failure = ScanFailed wallet_scan_error | ScanPanicked

definition to_u32 :: "u256 \<Rightarrow> scan_failure + u32" where
  "to_u32 v = (if unat v < 2 ^ 32 then Inr (ucast v) else Inl ScanPanicked)"

definition to_u64 :: "u256 \<Rightarrow> scan_failure + u64" where
  "to_u64 v = (if unat v < 2 ^ 64 then Inr (ucast v) else Inl ScanPanicked)"

section \<open>Rows\<close>

record indexed_transact_commitment =
  itc_tree_number :: u32
  itc_tree_position :: u64
  itc_hash :: u256
  itc_ciphertext :: "b256 list"
  itc_blinded_sender_viewing_key :: b256
  itc_blinded_receiver_viewing_key :: b256
  itc_annotation_data :: bytes
  itc_memo :: bytes
  itc_source :: utxo_source

record indexed_shield_commitment =
  isc_tree_number :: u32
  isc_tree_position :: u64
  isc_preimage :: commitment_preimage
  isc_shield_ciphertext :: shield_ciphertext
  isc_source :: utxo_source

record indexed_legacy_encrypted_commitment =
  ile_tree_number :: u32
  ile_tree_position :: u64
  ile_hash :: u256
  ile_ciphertext :: "b256 list"
  ile_ephemeral_keys :: "b256 list"
  ile_memo :: "b256 list"
  ile_source :: utxo_source

record indexed_legacy_generated_commitment =
  ilg_tree_number :: u32
  ilg_tree_position :: u64
  ilg_preimage :: legacy_commitment_preimage
  ilg_encrypted_random :: "b256 \<times> bytes"
  ilg_source :: utxo_source

record indexed_nullifier =
  inl_tree_number :: u32
  inl_nullifier :: u256
  inl_source :: utxo_source

record commitment_observation =
  obs_tree :: u32
  obs_position :: u64
  obs_commitment :: u256
  obs_source :: utxo_source

record spent_nullifier =
  spn_tree :: u32
  spn_nullifier :: u256
  spn_source :: utxo_source

record sender_scan_output =
  sso_tree :: u32
  sso_position :: u64
  sso_commitment :: u256
  sso_ciphertext :: commitment_ciphertext
  sso_source :: utxo_source

record wallet_scan_input_rows =
  row_transact_commitments :: "indexed_transact_commitment list"
  row_shield_commitments :: "indexed_shield_commitment list"
  row_legacy_encrypted_commitments :: "indexed_legacy_encrypted_commitment list"
  row_legacy_generated_commitments :: "indexed_legacy_generated_commitment list"
  row_nullifiers :: "indexed_nullifier list"
  row_commitment_observations :: "commitment_observation list"

record wallet_log_delta =
  wld_utxos :: "utxo list"
  wld_nullifiers :: "spent_nullifier list"
  wld_commitment_observations :: "commitment_observation list"
  wld_sender_scan_outputs :: "sender_scan_output list"

definition no_rows :: wallet_scan_input_rows where
  "no_rows =
     \<lparr>row_transact_commitments = [], row_shield_commitments = [], row_legacy_encrypted_commitments = [],
      row_legacy_generated_commitments = [], row_nullifiers = [], row_commitment_observations = []\<rparr>"

definition row_count :: "wallet_scan_input_rows \<Rightarrow> nat" where
  "row_count rows =
     length (row_transact_commitments rows) + length (row_shield_commitments rows)
     + length (row_legacy_encrypted_commitments rows) + length (row_legacy_generated_commitments rows)
     + length (row_nullifiers rows) + length (row_commitment_observations rows)"

definition retain_block_range :: "u64 \<Rightarrow> u64 \<Rightarrow> wallet_scan_input_rows \<Rightarrow> wallet_scan_input_rows" where
  "retain_block_range from_block to_block rows =
     (let contains = (\<lambda>source. from_block \<le> src_block_number source \<and> src_block_number source \<le> to_block)
      in \<lparr>row_transact_commitments = filter (\<lambda>r. contains (itc_source r)) (row_transact_commitments rows),
          row_shield_commitments = filter (\<lambda>r. contains (isc_source r)) (row_shield_commitments rows),
          row_legacy_encrypted_commitments = filter (\<lambda>r. contains (ile_source r)) (row_legacy_encrypted_commitments rows),
          row_legacy_generated_commitments = filter (\<lambda>r. contains (ilg_source r)) (row_legacy_generated_commitments rows),
          row_nullifiers = filter (\<lambda>r. contains (inl_source r)) (row_nullifiers rows),
          row_commitment_observations = filter (\<lambda>r. contains (obs_source r)) (row_commitment_observations rows)\<rparr>)"

section \<open>Rows from logs\<close>

definition commitment_observation_at :: "u32 \<Rightarrow> u64 \<Rightarrow> u256 \<Rightarrow> utxo_source \<Rightarrow> commitment_observation" where
  "commitment_observation_at tree_number tree_position c source =
     (let (tree, position) = normalize_tree_position tree_number tree_position
      in \<lparr>obs_tree = tree, obs_position = position, obs_commitment = c, obs_source = source\<rparr>)"

definition encrypted_random_from_u256 :: "u256 \<times> u256 \<Rightarrow> b256 \<times> bytes" where
  "encrypted_random_from_u256 v = (fb32 (u256_to_be_bytes (fst v)), drop 16 (u256_to_be_bytes (snd v)))"

definition source_from_log :: "raw_log \<Rightarrow> (u64 \<rightharpoonup> u64) \<Rightarrow> scan_failure + utxo_source" where
  "source_from_log log block_timestamps =
     bind_result (ok_or (log_block_number log) (ScanFailed (MissingLogMetadata MissingBlockNumber))) (\<lambda>block_number.
     bind_result (ok_or (block_timestamps block_number) (ScanFailed (MissingLogMetadata MissingBlockTimestamp))) (\<lambda>block_timestamp.
     bind_result (ok_or (log_transaction_hash log) (ScanFailed (MissingLogMetadata MissingTransactionHash))) (\<lambda>tx_hash.
       Inr \<lparr>src_tx_hash = tx_hash, src_block_number = block_number, src_block_timestamp = block_timestamp\<rparr>)))"

definition transact_rows :: "u32 \<Rightarrow> u64 \<Rightarrow> transact_event \<Rightarrow> utxo_source \<Rightarrow> indexed_transact_commitment list" where
  "transact_rows tree_number start_pos event source =
     concat (map (\<lambda>(index, c).
       if index < length (te_hash event)
       then [\<lparr>itc_tree_number = tree_number, itc_tree_position = start_pos + word_of_nat index,
              itc_hash = u256_from_be_slice (fb32_bytes (te_hash event ! index)), itc_ciphertext = cc_ciphertext c,
              itc_blinded_sender_viewing_key = cc_blinded_sender_viewing_key c,
              itc_blinded_receiver_viewing_key = cc_blinded_receiver_viewing_key c,
              itc_annotation_data = cc_annotation_data c, itc_memo = cc_memo c, itc_source = source\<rparr>]
       else []) (enumerate 0 (te_ciphertext event)))"

definition push_shield_event_rows ::
  "hash_fn \<Rightarrow> abi \<Rightarrow> u32 \<Rightarrow> u64 \<Rightarrow> commitment_preimage list \<Rightarrow> shield_ciphertext list \<Rightarrow> utxo_source \<Rightarrow>
     wallet_scan_input_rows \<Rightarrow> wallet_scan_input_rows" where
  "push_shield_event_rows hash ab tree_number start_pos commitments shield_ciphertext source rows =
     foldl (\<lambda>rows (index, preimage).
       let position = start_pos + word_of_nat index
       in if index < length shield_ciphertext
          then rows\<lparr>row_shield_commitments := row_shield_commitments rows @
                 [\<lparr>isc_tree_number = tree_number, isc_tree_position = position, isc_preimage = preimage,
                   isc_shield_ciphertext = shield_ciphertext ! index, isc_source = source\<rparr>]\<rparr>
          else rows\<lparr>row_commitment_observations := row_commitment_observations rows @
                 [commitment_observation_at tree_number position (preimage_hash hash ab preimage) source]\<rparr>)
       rows (enumerate 0 commitments)"

definition commitment_batch_rows ::
  "u32 \<Rightarrow> u64 \<Rightarrow> commitment_batch_event \<Rightarrow> utxo_source \<Rightarrow> indexed_legacy_encrypted_commitment list" where
  "commitment_batch_rows tree_number start_pos event source =
     concat (map (\<lambda>(index, c).
       if index < length (cbe_hash event)
       then [\<lparr>ile_tree_number = tree_number, ile_tree_position = start_pos + word_of_nat index,
              ile_hash = cbe_hash event ! index,
              ile_ciphertext = map (\<lambda>v. fb32 (u256_to_be_bytes v)) (lcc_ciphertext c),
              ile_ephemeral_keys = map (\<lambda>v. fb32 (u256_to_be_bytes v)) (lcc_ephemeral_keys c),
              ile_memo = map (\<lambda>v. fb32 (u256_to_be_bytes v)) (lcc_memo c), ile_source = source\<rparr>]
       else []) (enumerate 0 (cbe_ciphertext event)))"

definition generated_batch_rows ::
  "u32 \<Rightarrow> u64 \<Rightarrow> generated_commitment_batch_event \<Rightarrow> utxo_source \<Rightarrow> indexed_legacy_generated_commitment list" where
  "generated_batch_rows tree_number start_pos event source =
     concat (map (\<lambda>(index, preimage).
       if index < length (gce_encrypted_random event)
       then [\<lparr>ilg_tree_number = tree_number, ilg_tree_position = start_pos + word_of_nat index, ilg_preimage = preimage,
              ilg_encrypted_random = encrypted_random_from_u256 (gce_encrypted_random event ! index), ilg_source = source\<rparr>]
       else []) (enumerate 0 (gce_commitments event)))"

definition decode_log :: "(b256 list \<Rightarrow> bytes \<Rightarrow> 'a option) \<Rightarrow> raw_log \<Rightarrow> scan_failure + 'a" where
  "decode_log decode log = ok_or (decode (log_topics log) (log_data log)) (ScanFailed DecodeError)"

definition shield_log ::
  "hash_fn \<Rightarrow> abi \<Rightarrow> (u64 \<rightharpoonup> u64) \<Rightarrow> raw_log \<Rightarrow> (b256 list \<Rightarrow> bytes \<Rightarrow> shield_event option) \<Rightarrow> wallet_scan_input_rows \<Rightarrow>
     scan_failure + wallet_scan_input_rows" where
  "shield_log hash ab block_timestamps log decode rows =
     bind_result (decode_log decode log) (\<lambda>event.
     bind_result (to_u32 (she_tree_number event)) (\<lambda>tree_number.
     bind_result (to_u64 (she_start_position event)) (\<lambda>start_pos.
     bind_result (source_from_log log block_timestamps) (\<lambda>source.
       Inr (push_shield_event_rows hash ab tree_number start_pos (she_commitments event) (she_shield_ciphertext event)
         source rows)))))"

text \<open>One log: the event is chosen by the first topic, zero when there is none.\<close>

definition scan_log ::
  "hash_fn \<Rightarrow> abi \<Rightarrow> event_abi \<Rightarrow> (u64 \<rightharpoonup> u64) \<Rightarrow> raw_log \<Rightarrow> wallet_scan_input_rows \<Rightarrow>
     scan_failure + wallet_scan_input_rows" where
  "scan_log hash ab ev block_timestamps log rows =
     (let topic0 = (case log_topics log of [] \<Rightarrow> 0 | t # _ \<Rightarrow> t);
          source = source_from_log log block_timestamps
      in if topic0 = transact_signature ev then
           bind_result (decode_log (decode_transact ev) log) (\<lambda>event.
           bind_result (to_u32 (te_tree_number event)) (\<lambda>tree_number.
           bind_result (to_u64 (te_start_position event)) (\<lambda>start_pos.
           bind_result source (\<lambda>source.
             Inr (rows\<lparr>row_transact_commitments := row_transact_commitments rows
                    @ transact_rows tree_number start_pos event source\<rparr>)))))
         else if topic0 = shield_signature ev then
           shield_log hash ab block_timestamps log (decode_shield ev) rows
         else if topic0 = legacy_shield_signature ev then
           shield_log hash ab block_timestamps log (decode_legacy_shield ev) rows
         else if topic0 = nullifiers_signature ev then
           bind_result (decode_log (decode_nullifiers ev) log) (\<lambda>event.
           bind_result (to_u32 (nse_tree_number event)) (\<lambda>tree_number.
           bind_result source (\<lambda>source.
             Inr (rows\<lparr>row_nullifiers := row_nullifiers rows
                    @ map (\<lambda>n. \<lparr>inl_tree_number = tree_number, inl_nullifier = n, inl_source = source\<rparr>) (nse_nullifier event)\<rparr>))))
         else if topic0 = nullified_signature ev then
           bind_result (decode_log (decode_nullified ev) log) (\<lambda>event.
           bind_result source (\<lambda>source.
             Inr (rows\<lparr>row_nullifiers := row_nullifiers rows
                    @ map (\<lambda>n. \<lparr>inl_tree_number = ucast (nde_tree_number event),
                                inl_nullifier = u256_from_be_slice (fb32_bytes n), inl_source = source\<rparr>) (nde_nullifier event)\<rparr>)))
         else if topic0 = commitment_batch_signature ev then
           bind_result (decode_log (decode_commitment_batch ev) log) (\<lambda>event.
           bind_result (to_u32 (cbe_tree_number event)) (\<lambda>tree_number.
           bind_result (to_u64 (cbe_start_position event)) (\<lambda>start_pos.
           bind_result source (\<lambda>source.
             Inr (rows\<lparr>row_legacy_encrypted_commitments := row_legacy_encrypted_commitments rows
                    @ commitment_batch_rows tree_number start_pos event source\<rparr>)))))
         else if topic0 = generated_batch_signature ev then
           bind_result (decode_log (decode_generated_batch ev) log) (\<lambda>event.
           bind_result (to_u32 (gce_tree_number event)) (\<lambda>tree_number.
           bind_result (to_u64 (gce_start_position event)) (\<lambda>start_pos.
           bind_result source (\<lambda>source.
             Inr (rows\<lparr>row_legacy_generated_commitments := row_legacy_generated_commitments rows
                    @ generated_batch_rows tree_number start_pos event source\<rparr>)))))
         else Inr rows)"

definition from_logs ::
  "hash_fn \<Rightarrow> abi \<Rightarrow> event_abi \<Rightarrow> raw_log list \<Rightarrow> (u64 \<rightharpoonup> u64) \<Rightarrow> scan_failure + wallet_scan_input_rows" where
  "from_logs hash ab ev logs block_timestamps = fold_result (scan_log hash ab ev block_timestamps) logs no_rows"

section \<open>Scanning rows\<close>

definition sender_scan_output_of :: "indexed_transact_commitment \<Rightarrow> sender_scan_output" where
  "sender_scan_output_of c =
     (let (tree, position) = normalize_tree_position (itc_tree_number c) (itc_tree_position c)
      in \<lparr>sso_tree = tree, sso_position = position, sso_commitment = itc_hash c,
          sso_ciphertext = \<lparr>cc_ciphertext = itc_ciphertext c,
            cc_blinded_sender_viewing_key = itc_blinded_sender_viewing_key c,
            cc_blinded_receiver_viewing_key = itc_blinded_receiver_viewing_key c,
            cc_annotation_data = itc_annotation_data c, cc_memo = itc_memo c\<rparr>,
          sso_source = itc_source c\<rparr>)"

definition scan_transact :: "'p env \<Rightarrow> viewing_key_data \<Rightarrow> indexed_transact_commitment \<Rightarrow> utxo option" where
  "scan_transact env keys c =
     (let (tree, position) = normalize_tree_position (itc_tree_number c) (itc_tree_position c)
      in case shared_symmetric_key (env_curve env) (vk_viewing_private_key keys)
                (fb32_bytes (itc_blinded_sender_viewing_key c)) of
           Inl _ \<Rightarrow> None
         | Inr shared_key \<Rightarrow>
             (case decrypt_v2 (env_aes env) (env_hash env) (itc_ciphertext c) (itc_memo c) shared_key
                     (vk_master_public_key keys) of
                Inl _ \<Rightarrow> None
              | Inr n \<Rightarrow>
                  if commitment (env_hash env) n \<noteq> itc_hash c then None
                  else Some (utxo_new (env_hash env) n tree position (itc_source c) TransactCommitment)))"

definition scan_shield_commitment :: "'p env \<Rightarrow> viewing_key_data \<Rightarrow> indexed_shield_commitment \<Rightarrow> utxo option" where
  "scan_shield_commitment env keys c =
     (let (tree, position) = normalize_tree_position (isc_tree_number c) (isc_tree_position c)
      in case shared_symmetric_key (env_curve env) (vk_viewing_private_key keys)
                (fb32_bytes (sc_shield_key (isc_shield_ciphertext c))) of
           Inl _ \<Rightarrow> None
         | Inr shared_key \<Rightarrow>
             (case decrypt_shield_random (env_aes env) (sc_encrypted_bundle (isc_shield_ciphertext c)) shared_key of
                Inl _ \<Rightarrow> None
              | Inr random \<Rightarrow>
                  Some (utxo_new (env_hash env) (note_with_random (env_abi env) (isc_preimage c) random) tree position
                    (isc_source c) ShieldCommitment)))"

definition scan_legacy_encrypted ::
  "'p env \<Rightarrow> viewing_key_data \<Rightarrow> indexed_legacy_encrypted_commitment \<Rightarrow> utxo option" where
  "scan_legacy_encrypted env keys c =
     (let memo = concat (map fb32_bytes (drop 2 (ile_memo c)))
      in case shared_symmetric_key_legacy (env_curve env) (vk_viewing_private_key keys)
                (fb32_bytes (ile_ephemeral_keys c ! 0)) of
           Inl _ \<Rightarrow> None
         | Inr shared_key \<Rightarrow>
             let (tree, position) = normalize_tree_position (ile_tree_number c) (ile_tree_position c)
             in case decrypt_v2 (env_aes env) (env_hash env) (ile_ciphertext c) memo shared_key
                       (vk_master_public_key keys) of
                  Inl _ \<Rightarrow> None
                | Inr n \<Rightarrow>
                    if commitment (env_hash env) n \<noteq> ile_hash c then None
                    else Some (utxo_new (env_hash env) n tree position (ile_source c) TransactCommitment))"

definition scan_legacy_generated ::
  "'p env \<Rightarrow> viewing_key_data \<Rightarrow> indexed_legacy_generated_commitment \<Rightarrow> utxo option" where
  "scan_legacy_generated env keys c =
     (case decrypt_legacy_random (env_aes env) (fst (ilg_encrypted_random c)) (snd (ilg_encrypted_random c))
             (vk_viewing_private_key keys) of
        Inl _ \<Rightarrow> None
      | Inr random \<Rightarrow>
          if npk_for (env_hash env) (vk_master_public_key keys) random \<noteq> lcp_npk (ilg_preimage c) then None
          else
            let (tree, position) = normalize_tree_position (ilg_tree_number c) (ilg_tree_position c)
            in Some (utxo_new (env_hash env)
                 \<lparr>note_token_hash = token_id (env_abi env) (lcp_token (ilg_preimage c)),
                  note_value = ucast (lcp_value (ilg_preimage c)), note_random = random,
                  note_npk = lcp_npk (ilg_preimage c)\<rparr> tree position (ilg_source c) ShieldCommitment))"

text \<open>
  The first source seen for a nullifier of a tree is kept. The code collects them in a hash map, whose
  order it never relies on; here they stay in the order of the rows.
\<close>

definition collect_nullifier :: "spent_nullifier list \<Rightarrow> indexed_nullifier \<Rightarrow> spent_nullifier list" where
  "collect_nullifier ns r =
     (if list_ex (\<lambda>n. spn_tree n = inl_tree_number r \<and> spn_nullifier n = inl_nullifier r) ns then ns
      else ns @ [\<lparr>spn_tree = inl_tree_number r, spn_nullifier = inl_nullifier r, spn_source = inl_source r\<rparr>])"

definition from_indexed_inputs ::
  "'p env \<Rightarrow> indexed_transact_commitment list \<Rightarrow> indexed_shield_commitment list \<Rightarrow>
     indexed_legacy_encrypted_commitment list \<Rightarrow> indexed_legacy_generated_commitment list \<Rightarrow> indexed_nullifier list \<Rightarrow>
     commitment_observation list \<Rightarrow> viewing_key_data \<Rightarrow> wallet_log_delta" where
  "from_indexed_inputs env transacts shields legacy_encrypted legacy_generated nullifiers observations keys =
     \<lparr>wld_utxos = List.map_filter (scan_transact env keys) transacts
        @ List.map_filter (scan_shield_commitment env keys) shields
        @ List.map_filter (scan_legacy_encrypted env keys) legacy_encrypted
        @ List.map_filter (scan_legacy_generated env keys) legacy_generated,
      wld_nullifiers = foldl collect_nullifier [] nullifiers,
      wld_commitment_observations = observations
        @ map (\<lambda>c. commitment_observation_at (itc_tree_number c) (itc_tree_position c) (itc_hash c) (itc_source c)) transacts
        @ map (\<lambda>c. commitment_observation_at (isc_tree_number c) (isc_tree_position c)
                     (preimage_hash (env_hash env) (env_abi env) (isc_preimage c)) (isc_source c)) shields
        @ map (\<lambda>c. commitment_observation_at (ile_tree_number c) (ile_tree_position c) (ile_hash c) (ile_source c)) legacy_encrypted
        @ map (\<lambda>c. commitment_observation_at (ilg_tree_number c) (ilg_tree_position c)
                     (legacy_preimage_hash (env_hash env) (env_abi env) (ilg_preimage c)) (ilg_source c)) legacy_generated,
      wld_sender_scan_outputs = map sender_scan_output_of transacts\<rparr>"

definition from_rows :: "'p env \<Rightarrow> wallet_scan_input_rows \<Rightarrow> viewing_key_data \<Rightarrow> wallet_log_delta" where
  "from_rows env rows keys =
     from_indexed_inputs env (row_transact_commitments rows) (row_shield_commitments rows)
       (row_legacy_encrypted_commitments rows) (row_legacy_generated_commitments rows) (row_nullifiers rows)
       (row_commitment_observations rows) keys"

definition parse_wallet_delta_from_logs ::
  "'p env \<Rightarrow> event_abi \<Rightarrow> raw_log list \<Rightarrow> (u64 \<rightharpoonup> u64) \<Rightarrow> viewing_key_data \<Rightarrow> scan_failure + wallet_log_delta" where
  "parse_wallet_delta_from_logs env ev logs block_timestamps keys =
     bind_result (from_logs (env_hash env) (env_abi env) ev logs block_timestamps) (\<lambda>rows. Inr (from_rows env rows keys))"

definition parse_indexed_wallet_delta ::
  "'p env \<Rightarrow> indexed_transact_commitment list \<Rightarrow> indexed_shield_commitment list \<Rightarrow>
     indexed_legacy_encrypted_commitment list \<Rightarrow> indexed_legacy_generated_commitment list \<Rightarrow> indexed_nullifier list \<Rightarrow>
     viewing_key_data \<Rightarrow> wallet_log_delta" where
  "parse_indexed_wallet_delta env transacts shields legacy_encrypted legacy_generated nullifiers keys =
     from_indexed_inputs env transacts shields legacy_encrypted legacy_generated nullifiers [] keys"

section \<open>Rows from the indexer\<close>

text \<open>
  The fields of the indexer's answers that the wallet reads, after their deserialisation; a number that
  does not fit its row type panics in the conversion.
\<close>

record quick_transact_commitment =
  qtc_transaction_hash :: b256
  qtc_block_number :: u256
  qtc_block_timestamp :: u256
  qtc_tree_number :: u256
  qtc_tree_position :: u256
  qtc_hash :: u256
  qtc_ciphertext :: commitment_ciphertext

record quick_preimage =
  qp_npk :: b256
  qp_token :: token_data
  qp_value :: u256

record quick_shield_commitment =
  qsc_transaction_hash :: b256
  qsc_block_number :: u256
  qsc_block_timestamp :: u256
  qsc_tree_number :: u256
  qsc_tree_position :: u256
  qsc_preimage :: quick_preimage
  qsc_shield_key :: b256
  qsc_encrypted_bundle :: "b256 list"

record quick_legacy_ciphertext =
  qlc_ciphertext :: "b256 list"
  qlc_ephemeral_keys :: "b256 list"
  qlc_memo :: "b256 list"

record quick_legacy_encrypted_commitment =
  qle_transaction_hash :: b256
  qle_block_number :: u256
  qle_block_timestamp :: u256
  qle_tree_number :: u256
  qle_tree_position :: u256
  qle_hash :: u256
  qle_ciphertext :: quick_legacy_ciphertext

record quick_legacy_preimage =
  qlp_npk :: u256
  qlp_token :: token_data
  qlp_value :: u256

record quick_legacy_generated_commitment =
  qlg_transaction_hash :: b256
  qlg_block_number :: u256
  qlg_block_timestamp :: u256
  qlg_tree_number :: u256
  qlg_tree_position :: u256
  qlg_preimage :: quick_legacy_preimage
  qlg_encrypted_random :: "b256 \<times> bytes"

record quick_nullifier =
  qn_transaction_hash :: b256
  qn_block_number :: u256
  qn_block_timestamp :: u256
  qn_tree_number :: u256
  qn_nullifier :: u256

definition indexed_source :: "b256 \<Rightarrow> u256 \<Rightarrow> u256 \<Rightarrow> scan_failure + utxo_source" where
  "indexed_source tx_hash block_number block_timestamp =
     bind_result (to_u64 block_number) (\<lambda>number.
     bind_result (to_u64 block_timestamp) (\<lambda>timestamp.
       Inr \<lparr>src_tx_hash = tx_hash, src_block_number = number, src_block_timestamp = timestamp\<rparr>))"

definition preimage_from_quick :: "quick_preimage \<Rightarrow> scan_failure + commitment_preimage" where
  "preimage_from_quick p =
     (if unat (qp_value p) < 2 ^ 120
      then Inr \<lparr>cp_npk = qp_npk p, cp_token = qp_token p, cp_value = ucast (qp_value p)\<rparr>
      else Inl ScanPanicked)"

definition transact_from_quick :: "quick_transact_commitment \<Rightarrow> scan_failure + indexed_transact_commitment" where
  "transact_from_quick q =
     bind_result (to_u32 (qtc_tree_number q)) (\<lambda>tree_number.
     bind_result (to_u64 (qtc_tree_position q)) (\<lambda>tree_position.
     bind_result (indexed_source (qtc_transaction_hash q) (qtc_block_number q) (qtc_block_timestamp q)) (\<lambda>source.
       Inr \<lparr>itc_tree_number = tree_number, itc_tree_position = tree_position, itc_hash = qtc_hash q,
            itc_ciphertext = cc_ciphertext (qtc_ciphertext q),
            itc_blinded_sender_viewing_key = cc_blinded_sender_viewing_key (qtc_ciphertext q),
            itc_blinded_receiver_viewing_key = cc_blinded_receiver_viewing_key (qtc_ciphertext q),
            itc_annotation_data = cc_annotation_data (qtc_ciphertext q), itc_memo = cc_memo (qtc_ciphertext q),
            itc_source = source\<rparr>)))"

definition shield_from_quick :: "quick_shield_commitment \<Rightarrow> scan_failure + indexed_shield_commitment" where
  "shield_from_quick q =
     bind_result (to_u32 (qsc_tree_number q)) (\<lambda>tree_number.
     bind_result (to_u64 (qsc_tree_position q)) (\<lambda>tree_position.
     bind_result (preimage_from_quick (qsc_preimage q)) (\<lambda>preimage.
     bind_result (indexed_source (qsc_transaction_hash q) (qsc_block_number q) (qsc_block_timestamp q)) (\<lambda>source.
       Inr \<lparr>isc_tree_number = tree_number, isc_tree_position = tree_position, isc_preimage = preimage,
            isc_shield_ciphertext = \<lparr>sc_encrypted_bundle = qsc_encrypted_bundle q, sc_shield_key = qsc_shield_key q\<rparr>,
            isc_source = source\<rparr>))))"

definition legacy_encrypted_from_quick ::
  "quick_legacy_encrypted_commitment \<Rightarrow> scan_failure + indexed_legacy_encrypted_commitment" where
  "legacy_encrypted_from_quick q =
     bind_result (to_u32 (qle_tree_number q)) (\<lambda>tree_number.
     bind_result (to_u64 (qle_tree_position q)) (\<lambda>tree_position.
     bind_result (indexed_source (qle_transaction_hash q) (qle_block_number q) (qle_block_timestamp q)) (\<lambda>source.
       Inr \<lparr>ile_tree_number = tree_number, ile_tree_position = tree_position, ile_hash = qle_hash q,
            ile_ciphertext = qlc_ciphertext (qle_ciphertext q), ile_ephemeral_keys = qlc_ephemeral_keys (qle_ciphertext q),
            ile_memo = qlc_memo (qle_ciphertext q), ile_source = source\<rparr>)))"

definition legacy_preimage_from_quick :: "quick_legacy_preimage \<Rightarrow> scan_failure + legacy_commitment_preimage" where
  "legacy_preimage_from_quick p =
     (if unat (qlp_value p) < 2 ^ 120
      then Inr \<lparr>lcp_npk = qlp_npk p, lcp_token = qlp_token p, lcp_value = ucast (qlp_value p)\<rparr>
      else Inl ScanPanicked)"

definition legacy_generated_from_quick ::
  "quick_legacy_generated_commitment \<Rightarrow> scan_failure + indexed_legacy_generated_commitment" where
  "legacy_generated_from_quick q =
     bind_result (to_u32 (qlg_tree_number q)) (\<lambda>tree_number.
     bind_result (to_u64 (qlg_tree_position q)) (\<lambda>tree_position.
     bind_result (legacy_preimage_from_quick (qlg_preimage q)) (\<lambda>preimage.
     bind_result (indexed_source (qlg_transaction_hash q) (qlg_block_number q) (qlg_block_timestamp q)) (\<lambda>source.
       Inr \<lparr>ilg_tree_number = tree_number, ilg_tree_position = tree_position, ilg_preimage = preimage,
            ilg_encrypted_random = qlg_encrypted_random q, ilg_source = source\<rparr>))))"

definition nullifier_from_quick :: "quick_nullifier \<Rightarrow> scan_failure + indexed_nullifier" where
  "nullifier_from_quick q =
     bind_result (to_u32 (qn_tree_number q)) (\<lambda>tree_number.
     bind_result (indexed_source (qn_transaction_hash q) (qn_block_number q) (qn_block_timestamp q)) (\<lambda>source.
       Inr \<lparr>inl_tree_number = tree_number, inl_nullifier = qn_nullifier q, inl_source = source\<rparr>))"

section \<open>What a delta contains\<close>

definition row_sources :: "wallet_scan_input_rows \<Rightarrow> utxo_source set" where
  "row_sources rows =
     itc_source ` set (row_transact_commitments rows) \<union> isc_source ` set (row_shield_commitments rows) \<union>
     ile_source ` set (row_legacy_encrypted_commitments rows) \<union> ilg_source ` set (row_legacy_generated_commitments rows) \<union>
     inl_source ` set (row_nullifiers rows) \<union> obs_source ` set (row_commitment_observations rows)"

text \<open>
  Every found note sits at a position inside its tree, with the metadata of \<open>Utxo::new\<close>, and its
  value fits 128 bits: the decryption reads 16 bytes and the preimages hold 120 bits.
\<close>

definition scanned :: "hash_fn \<Rightarrow> utxo \<Rightarrow> bool" where
  "scanned hash u \<longleftrightarrow> utxo_position u < TREE_LEAF_COUNT \<and> unat (note_value (utxo_note u)) < 2 ^ 128 \<and>
     (\<exists>kind. u = utxo_new hash (utxo_note u) (utxo_tree u) (utxo_position u) (utxo_source u) kind)"

lemma scanned_new:
  "unat (note_value n) < 2 ^ 128 \<Longrightarrow>
     scanned hash (utxo_new hash n (fst (normalize_tree_position t p)) (snd (normalize_tree_position t p)) source kind)"
  unfolding scanned_def using normalize_position_less [of t p]
  by (auto simp: utxo_new_def intro!: exI [of _ kind])

lemma be_value_bound: "length bs \<le> 16 \<Longrightarrow> unat (u256_from_be_slice bs) < 2 ^ 128"
proof -
  assume "length bs \<le> 16"
  then have "(256 :: nat) ^ length bs \<le> 256 ^ 16" by (rule power_increasing) simp
  then have "from_be bs < 2 ^ 128" using from_be_bound [of bs] by simp
  then show ?thesis by (simp add: u256_from_be_slice_def unsigned_of_nat take_bit_nat_eq_self)
qed

lemma decrypt_v2_value: "decrypt_v2 aes hash cs memo key mpk = Inr n \<Longrightarrow> unat (note_value n) < 2 ^ 128"
  by (auto simp: decrypt_v2_def Let_def case_prod_beta be_value_bound [simplified] split: if_splits)

lemma ucast_120_bound: "unat (ucast (v :: 120 word) :: u256) < 2 ^ 128"
proof -
  have "unat v < 2 ^ 120" using unsigned_less [of v, where ?'a = nat] by simp
  then show ?thesis by (simp add: unat_ucast_take take_bit_nat_eq_self)
qed

lemma utxo_new_source [simp]: "utxo_source (utxo_new hash n t p source kind) = source"
  by (simp add: utxo_new_def)

lemma scan_results:
  "scan_transact env keys c1 = Some u \<Longrightarrow> scanned (env_hash env) u \<and> utxo_source u = itc_source c1"
  "scan_shield_commitment env keys c2 = Some u \<Longrightarrow> scanned (env_hash env) u \<and> utxo_source u = isc_source c2"
  "scan_legacy_encrypted env keys c3 = Some u \<Longrightarrow> scanned (env_hash env) u \<and> utxo_source u = ile_source c3"
  "scan_legacy_generated env keys c4 = Some u \<Longrightarrow> scanned (env_hash env) u \<and> utxo_source u = ilg_source c4"
  using decrypt_v2_value ucast_120_bound
  by (auto simp: scan_transact_def scan_shield_commitment_def scan_legacy_encrypted_def scan_legacy_generated_def
      note_with_random_def Let_def case_prod_beta split: sum.splits if_splits intro!: scanned_new)

lemma delta_utxos:
  assumes "u \<in> set (wld_utxos (from_rows env rows keys))"
  shows "scanned (env_hash env) u \<and> utxo_source u \<in> row_sources rows"
  using assms scan_results [of env keys] by (fastforce simp: from_rows_def from_indexed_inputs_def set_map_filter row_sources_def)

text \<open>The nullifiers of a delta: one entry for each tree and nullifier of the rows.\<close>

definition nullifier_key :: "spent_nullifier \<Rightarrow> u32 \<times> u256" where
  "nullifier_key s = (spn_tree s, spn_nullifier s)"

lemma collect_nullifiers:
  assumes "distinct (map nullifier_key ns)"
  shows "distinct (map nullifier_key (foldl collect_nullifier ns rs)) \<and>
    nullifier_key ` set (foldl collect_nullifier ns rs) =
       nullifier_key ` set ns \<union> (\<lambda>r. (inl_tree_number r, inl_nullifier r)) ` set rs"
  using assms
proof (induction rs arbitrary: ns)
  case (Cons r rs)
  let ?new = "collect_nullifier ns r"
  have known: "list_ex (\<lambda>n. spn_tree n = inl_tree_number r \<and> spn_nullifier n = inl_nullifier r) ns \<longleftrightarrow>
      (inl_tree_number r, inl_nullifier r) \<in> nullifier_key ` set ns"
    by (force simp: list_ex_iff nullifier_key_def)
  have key: "nullifier_key \<lparr>spn_tree = a, spn_nullifier = b, spn_source = c\<rparr> = (a, b)" for a b c
    by (simp add: nullifier_key_def)
  have added: "?new = (if (inl_tree_number r, inl_nullifier r) \<in> nullifier_key ` set ns then ns
      else ns @ [\<lparr>spn_tree = inl_tree_number r, spn_nullifier = inl_nullifier r, spn_source = inl_source r\<rparr>])"
    unfolding collect_nullifier_def known ..
  have new: "distinct (map nullifier_key ?new)"
    "nullifier_key ` set ?new = insert (inl_tree_number r, inl_nullifier r) (nullifier_key ` set ns)"
    using Cons.prems unfolding added by (auto simp: key)
  from Cons.IH [OF new(1)] new(2) show ?case by auto
qed simp

lemma collect_sources:
  "s \<in> set (foldl collect_nullifier ns rs) \<Longrightarrow> s \<in> set ns \<or> spn_source s \<in> inl_source ` set rs"
proof (induction rs arbitrary: ns)
  case (Cons r rs)
  have "s \<in> set (collect_nullifier ns r) \<or> spn_source s \<in> inl_source ` set rs"
    by (rule Cons.IH) (use Cons.prems in simp)
  then show ?case by (auto simp: collect_nullifier_def split: if_splits)
qed simp

lemma delta_nullifiers:
  "distinct (map nullifier_key (wld_nullifiers (from_rows env rows keys)))"
  "nullifier_key ` set (wld_nullifiers (from_rows env rows keys)) = (\<lambda>r. (inl_tree_number r, inl_nullifier r)) ` set (row_nullifiers rows)"
  "spn_source ` set (wld_nullifiers (from_rows env rows keys)) \<subseteq> row_sources rows"
  using collect_nullifiers [of "[]" "row_nullifiers rows"] collect_sources [of _ "[]" "row_nullifiers rows"]
  by (auto simp: from_rows_def from_indexed_inputs_def row_sources_def)

end
