(* ===== verification/WalletDelta.thy ===== *)
theory WalletDelta
  imports WalletScan
begin

text \<open>
  \<open>sync-service/src/wallet/delta.rs\<close> and the list operations of \<open>wallet/worker.rs\<close>: a wallet is the
  list of its notes, each with the transaction that spent it. Deltas of scanned blocks extend it, a
  chain reorganisation rewinds it, blocks not yet confirmed give an overlay, and submitted
  transactions protect their inputs for a while.
\<close>

section \<open>Spent notes\<close>

definition nullifier_sources :: "spent_nullifier list \<Rightarrow> (u32 \<times> u256 \<rightharpoonup> utxo_source)" where
  "nullifier_sources ns = foldl (\<lambda>m s. m((spn_tree s, spn_nullifier s) \<mapsto> spn_source s)) (\<lambda>_. None) ns"

definition spent_source_for_utxo :: "hash_fn \<Rightarrow> u256 \<Rightarrow> (u32 \<times> u256 \<rightharpoonup> utxo_source) \<Rightarrow> utxo \<Rightarrow> utxo_source option" where
  "spent_source_for_utxo hash nullifying_key sources u = sources (utxo_tree u, nullifier hash nullifying_key u)"

text \<open>The loop over the found notes: those at a position not seen yet, with what spent them.\<close>

fun new_wallet_utxos :: "(utxo \<Rightarrow> utxo_source option) \<Rightarrow> (u32 \<times> u64) list \<Rightarrow> utxo list \<Rightarrow> wallet_utxo list" where
  "new_wallet_utxos spent existing [] = []"
| "new_wallet_utxos spent existing (u # us) =
     (if (utxo_tree u, utxo_position u) \<in> set existing then new_wallet_utxos spent existing us
      else \<lparr>wu_utxo = u, wu_spent = spent u\<rparr> # new_wallet_utxos spent ((utxo_tree u, utxo_position u) # existing) us)"

definition wallet_keys :: "wallet_utxo list \<Rightarrow> (u32 \<times> u64) list" where
  "wallet_keys ws = map (\<lambda>w. (utxo_tree (wu_utxo w), utxo_position (wu_utxo w))) ws"

section \<open>Pending overlay\<close>

record wallet_pending_spent =
  wps_tree :: u32
  wps_position :: u64
  wps_stable_identity :: "bytes option"
  wps_tx_hash :: "b256 option"
  wps_block_number :: "u64 option"
  wps_block_timestamp :: "u64 option"

record wallet_pending_overlay =
  wpo_new_utxos :: "wallet_utxo list"
  wpo_pending_spent :: "wallet_pending_spent list"
  wpo_local_pending_spent :: "wallet_pending_spent list"

definition wps_key :: "wallet_pending_spent \<Rightarrow> u32 \<times> u64" where
  "wps_key p = (wps_tree p, wps_position p)"

definition from_source :: "utxo \<Rightarrow> utxo_source \<Rightarrow> wallet_pending_spent" where
  "from_source u source =
     \<lparr>wps_tree = utxo_tree u, wps_position = utxo_position u, wps_stable_identity = None,
      wps_tx_hash = Some (src_tx_hash source), wps_block_number = Some (src_block_number source),
      wps_block_timestamp = Some (src_block_timestamp source)\<rparr>"

definition pending_overlay_from_delta ::
  "hash_fn \<Rightarrow> viewing_key_data \<Rightarrow> wallet_utxo list \<Rightarrow> wallet_log_delta \<Rightarrow> wallet_pending_overlay" where
  "pending_overlay_from_delta hash scan_keys wallet_utxos delta =
     (let spent = spent_source_for_utxo hash (vk_nullifying_key scan_keys) (nullifier_sources (wld_nullifiers delta));
          pending_spent = List.map_filter (\<lambda>w. map_option (from_source (wu_utxo w)) (spent (wu_utxo w)))
            (filter (\<lambda>w. \<not> is_spent w) wallet_utxos);
          new_utxos = new_wallet_utxos spent (wallet_keys wallet_utxos) (wld_utxos delta)
      in \<lparr>wpo_new_utxos = sort_by (\<lambda>a b. cmp (utxo_key (wu_utxo a)) (utxo_key (wu_utxo b))) new_utxos,
          wpo_pending_spent = sort_by (\<lambda>a b. cmp (wps_key a) (wps_key b)) pending_spent,
          wpo_local_pending_spent = []\<rparr>)"

definition wallet_utxo_keys_match :: "wallet_utxo list \<Rightarrow> wallet_utxo list \<Rightarrow> bool" where
  "wallet_utxo_keys_match left right \<longleftrightarrow>
     length left = length right \<and>
     list_all (\<lambda>(l, r). utxo_tree (wu_utxo l) = utxo_tree (wu_utxo r) \<and>
        utxo_position (wu_utxo l) = utxo_position (wu_utxo r) \<and>
        poi_commitment (utxo_poi (wu_utxo l)) = poi_commitment (utxo_poi (wu_utxo r)) \<and>
        map_option src_tx_hash (wu_spent l) = map_option src_tx_hash (wu_spent r) \<and>
        map_option src_block_number (wu_spent l) = map_option src_block_number (wu_spent r)) (zip left right)"

definition chain_pending_overlay_matches :: "wallet_pending_overlay \<Rightarrow> wallet_pending_overlay \<Rightarrow> bool" where
  "chain_pending_overlay_matches current nxt \<longleftrightarrow>
     wpo_pending_spent current = wpo_pending_spent nxt \<and> wallet_utxo_keys_match (wpo_new_utxos current) (wpo_new_utxos nxt)"

section \<open>Notes spent by the wallet's own transactions\<close>

record sender_scan_wallet_spend =
  ssw_tree :: u32
  ssw_position :: u64
  ssw_commitment :: b256

record sender_scan_candidate_output =
  sco_tree :: u32
  sco_position :: u64
  sco_commitment :: b256
  sco_note :: "railgun_note option"

record sender_scan_candidate_input =
  sci_source :: utxo_source
  sci_wallet_spends :: "sender_scan_wallet_spend list"
  sci_outputs :: "sender_scan_candidate_output list"

text \<open>\<open>decrypt_sender_note\<close> reads the ciphertext as published.\<close>

definition note_ciphertext_of :: "commitment_ciphertext \<Rightarrow> note_ciphertext" where
  "note_ciphertext_of c =
     \<lparr>nc_ciphertext = cc_ciphertext c, nc_blinded_sender_viewing_key = cc_blinded_sender_viewing_key c,
      nc_blinded_receiver_viewing_key = cc_blinded_receiver_viewing_key c,
      nc_annotation_data = cc_annotation_data c, nc_memo = cc_memo c\<rparr>"

definition push_spend ::
  "hash_fn \<Rightarrow> u256 \<Rightarrow> (u32 \<times> u256 \<rightharpoonup> utxo_source) \<Rightarrow>
     (b256, utxo_source \<times> sender_scan_wallet_spend list) btree_map \<Rightarrow> wallet_utxo \<Rightarrow>
     (b256, utxo_source \<times> sender_scan_wallet_spend list) btree_map" where
  "push_spend hash nullifying_key sources m w =
     (case sources (utxo_tree (wu_utxo w), nullifier hash nullifying_key (wu_utxo w)) of
        None \<Rightarrow> m
      | Some source \<Rightarrow>
          bt_upsert (src_tx_hash source) (source, [])
            (\<lambda>(first, spends). (first, spends @ [\<lparr>ssw_tree = utxo_tree (wu_utxo w), ssw_position = utxo_position (wu_utxo w),
               ssw_commitment = poi_commitment (utxo_poi (wu_utxo w))\<rparr>])) m)"

definition push_output ::
  "(b256, utxo_source \<times> sender_scan_wallet_spend list) btree_map \<Rightarrow> (b256, sender_scan_output list) btree_map \<Rightarrow>
     sender_scan_output \<Rightarrow> (b256, sender_scan_output list) btree_map" where
  "push_output spends_by_tx m output =
     (if bt_contains_key spends_by_tx (src_tx_hash (sso_source output))
      then bt_upsert (src_tx_hash (sso_source output)) [] (\<lambda>os. os @ [output]) m
      else m)"

definition sender_scan_candidate_inputs ::
  "'p env \<Rightarrow> wallet_utxo list \<Rightarrow> u256 \<Rightarrow> (u32 \<times> u256 \<rightharpoonup> utxo_source) \<Rightarrow> sender_scan_output list \<Rightarrow> viewing_key_data \<Rightarrow>
     sender_scan_candidate_input list" where
  "sender_scan_candidate_inputs env wallet_utxos nullifying_key sources outputs scan_keys =
     (let spends_by_tx = foldl (push_spend (env_hash env) nullifying_key sources) [] wallet_utxos;
          outputs_by_tx = foldl (push_output spends_by_tx) [] outputs
      in map (\<lambda>(tx_hash, source, spends).
           \<lparr>sci_source = source,
            sci_wallet_spends = remdups_adj (sort_by (\<lambda>a b. cmp (ssw_tree a, ssw_position a, ssw_commitment a)
              (ssw_tree b, ssw_position b, ssw_commitment b)) spends),
            sci_outputs = map (\<lambda>o'. \<lparr>sco_tree = sso_tree o', sco_position = sso_position o',
                sco_commitment = fb32 (u256_to_be_bytes (sso_commitment o')),
                sco_note = decrypt_sender_note (env_aes env) (env_curve env) (env_hash env)
                  (note_ciphertext_of (sso_ciphertext o')) (sso_commitment o') scan_keys\<rparr>)
              (sort_by (\<lambda>a b. cmp (sso_tree a, sso_position a, sso_commitment a) (sso_tree b, sso_position b, sso_commitment b))
                (case bt_get outputs_by_tx tx_hash of None \<Rightarrow> [] | Some os \<Rightarrow> os))\<rparr>) spends_by_tx)"

section \<open>Deltas and rewinds\<close>

fun dedupe_wallet_utxos :: "(u32 \<times> u64) list \<Rightarrow> wallet_utxo list \<Rightarrow> wallet_utxo list" where
  "dedupe_wallet_utxos seen [] = []"
| "dedupe_wallet_utxos seen (w # ws) =
     (let key = (utxo_tree (wu_utxo w), utxo_position (wu_utxo w))
      in if key \<in> set seen then dedupe_wallet_utxos seen ws else w # dedupe_wallet_utxos (key # seen) ws)"

record wallet_delta_apply_outcome =
  wda_changed :: bool
  wda_spent_output_commitments :: "b256 list"
  wda_sender_scan_candidates :: "sender_scan_candidate_input list"

text \<open>The first loop: an unspent note with a published nullifier becomes spent.\<close>

definition mark_spent :: "(utxo \<Rightarrow> utxo_source option) \<Rightarrow> wallet_utxo \<Rightarrow> wallet_utxo" where
  "mark_spent spent w =
     (if is_spent w then w else case spent (wu_utxo w) of None \<Rightarrow> w | Some source \<Rightarrow> w\<lparr>wu_spent := Some source\<rparr>)"

definition newly_spent :: "(utxo \<Rightarrow> utxo_source option) \<Rightarrow> wallet_utxo list \<Rightarrow> b256 list" where
  "newly_spent spent ws =
     map (\<lambda>w. poi_commitment (utxo_poi (wu_utxo w))) (filter (\<lambda>w. \<not> is_spent w \<and> spent (wu_utxo w) \<noteq> None) ws)"

definition apply_wallet_delta_to_vec_with_outcome ::
  "'p env \<Rightarrow> viewing_key_data \<Rightarrow> wallet_utxo list \<Rightarrow> wallet_log_delta \<Rightarrow> wallet_utxo list \<times> wallet_delta_apply_outcome" where
  "apply_wallet_delta_to_vec_with_outcome env scan_keys wallet_utxos delta =
     (let sources = nullifier_sources (wld_nullifiers delta);
          spent = spent_source_for_utxo (env_hash env) (vk_nullifying_key scan_keys) sources;
          (marked, spent_commitments) =
            (if wld_nullifiers delta \<noteq> [] then (map (mark_spent spent) wallet_utxos, newly_spent spent wallet_utxos)
             else (wallet_utxos, []));
          added = new_wallet_utxos spent (wallet_keys marked) (wld_utxos delta);
          added_commitments = map (\<lambda>w. poi_commitment (utxo_poi (wu_utxo w))) (filter is_spent added);
          before_dedupe = length (marked @ added);
          deduped = dedupe_wallet_utxos [] (marked @ added)
      in (deduped,
          \<lparr>wda_changed = spent_commitments \<noteq> [] \<or> added \<noteq> [] \<or> length deduped \<noteq> before_dedupe,
           wda_spent_output_commitments = spent_commitments @ added_commitments,
           wda_sender_scan_candidates = sender_scan_candidate_inputs env deduped (vk_nullifying_key scan_keys) sources
             (wld_sender_scan_outputs delta) scan_keys\<rparr>))"

record wallet_rewind_outcome =
  wro_changed :: bool
  wro_removed_output_commitments :: "b256 list"

definition rewind_spent :: "u64 \<Rightarrow> wallet_utxo \<Rightarrow> bool" where
  "rewind_spent from_block w = (case wu_spent w of None \<Rightarrow> False | Some spent \<Rightarrow> from_block \<le> src_block_number spent)"

definition rewind_wallet_utxos :: "wallet_utxo list \<Rightarrow> u64 \<Rightarrow> wallet_utxo list \<times> wallet_rewind_outcome" where
  "rewind_wallet_utxos wallet_utxos from_block =
     (let kept = filter (\<lambda>w. src_block_number (utxo_source (wu_utxo w)) < from_block) wallet_utxos;
          removed = filter (\<lambda>w. \<not> src_block_number (utxo_source (wu_utxo w)) < from_block) wallet_utxos
      in (map (\<lambda>w. if rewind_spent from_block w then w\<lparr>wu_spent := None\<rparr> else w) kept,
          \<lparr>wro_changed = length kept \<noteq> length wallet_utxos \<or> list_ex (rewind_spent from_block) kept,
           wro_removed_output_commitments = map (\<lambda>w. poi_commitment (utxo_poi (wu_utxo w))) removed\<rparr>))"

section \<open>Lemmas\<close>

lemma nullifier_sources_eq:
  "distinct (map nullifier_key ns) \<Longrightarrow> nullifier_sources ns = map_of (map (\<lambda>s. (nullifier_key s, spn_source s)) ns)"
proof (induction ns rule: rev_induct)
  case (snoc s ns)
  have eq: "map_of (xs @ [(k, v)]) = (map_of xs)(k \<mapsto> v)" if "k \<notin> fst ` set xs" for xs :: "((u32 \<times> u256) \<times> utxo_source) list" and k v
    using that map_add_comm [of "map_of [(k, v)]" "map_of xs"] by (simp add: dom_map_of_conv_image_fst)
  have "nullifier_sources (ns @ [s]) = (nullifier_sources ns)(nullifier_key s \<mapsto> spn_source s)"
    by (simp add: nullifier_sources_def nullifier_key_def)
  moreover have "nullifier_key s \<notin> fst ` set (map (\<lambda>s. (nullifier_key s, spn_source s)) ns)" using snoc.prems by auto
  ultimately show ?case using snoc eq by simp
qed (simp add: nullifier_sources_def)

lemma nullifier_sources_range:
  assumes "distinct (map nullifier_key ns)" "nullifier_sources ns k = Some s"
  shows "k \<in> nullifier_key ` set ns" "s \<in> spn_source ` set ns"
  using assms by (auto simp: nullifier_sources_eq dest!: map_of_SomeD)

lemma nullifier_sources_None:
  "distinct (map nullifier_key ns) \<Longrightarrow> nullifier_sources ns k = None \<longleftrightarrow> k \<notin> nullifier_key ` set ns"
  by (simp add: nullifier_sources_eq map_of_eq_None_iff image_comp comp_def)

lemma wallet_keys_simps [simp]:
  "wallet_keys [] = []" "wallet_keys (w # ws) = utxo_key (wu_utxo w) # wallet_keys ws"
  "wallet_keys (xs @ ys) = wallet_keys xs @ wallet_keys ys"
  by (simp_all add: wallet_keys_def utxo_key_def)

lemma new_utxos:
  "distinct (wallet_keys (new_wallet_utxos spent ex us)) \<and>
   set (wallet_keys (new_wallet_utxos spent ex us)) = utxo_key ` set us - set ex \<and>
   (\<forall>w \<in> set (new_wallet_utxos spent ex us). wu_utxo w \<in> set us \<and> wu_spent w = spent (wu_utxo w))"
proof (induction us arbitrary: ex)
  case (Cons u us)
  show ?case
  proof (cases "utxo_key u \<in> set ex")
    case True
    with Cons.IH [of ex] show ?thesis by (auto simp: utxo_key_def)
  next
    case False
    with Cons.IH [of "utxo_key u # ex"] show ?thesis by (auto simp flip: utxo_key_def)
  qed
qed simp

lemma wallet_keys_eq: "wallet_keys ws = map (\<lambda>w. utxo_key (wu_utxo w)) ws"
  by (simp add: wallet_keys_def utxo_key_def)

lemma mark_spent_utxo [simp]: "wu_utxo (mark_spent f w) = wu_utxo w"
  by (simp add: mark_spent_def split: option.split)

lemma wallet_keys_marked [simp]: "wallet_keys (map (mark_spent f) ws) = wallet_keys ws"
  by (simp add: wallet_keys_def comp_def)

lemma dedupe_distinct: "distinct (wallet_keys ws) \<Longrightarrow> set (wallet_keys ws) \<inter> set seen = {} \<Longrightarrow> dedupe_wallet_utxos seen ws = ws"
  by (induction ws arbitrary: seen) (auto simp: Let_def utxo_key_def)

text \<open>On a wallet without repeated positions the final pass removes nothing.\<close>

abbreviation delta_spent :: "'p env \<Rightarrow> viewing_key_data \<Rightarrow> wallet_log_delta \<Rightarrow> utxo \<Rightarrow> utxo_source option" where
  "delta_spent env keys delta \<equiv>
     spent_source_for_utxo (env_hash env) (vk_nullifying_key keys) (nullifier_sources (wld_nullifiers delta))"

lemma apply_delta_fst:
  assumes "distinct (wallet_keys ws)"
  shows "fst (apply_wallet_delta_to_vec_with_outcome env keys ws delta) =
    map (mark_spent (delta_spent env keys delta)) ws @ new_wallet_utxos (delta_spent env keys delta) (wallet_keys ws) (wld_utxos delta)"
proof -
  let ?s = "delta_spent env keys delta"
  have "wld_nullifiers delta = [] \<Longrightarrow> mark_spent ?s = id"
    by (auto simp: mark_spent_def spent_source_for_utxo_def nullifier_sources_def fun_eq_iff)
  then have m: "(if wld_nullifiers delta \<noteq> [] then (map (mark_spent ?s) ws, newly_spent ?s ws) else (ws, [])) =
      (map (mark_spent ?s) ws, if wld_nullifiers delta \<noteq> [] then newly_spent ?s ws else [])" by simp
  have "dedupe_wallet_utxos [] (map (mark_spent ?s) ws @ new_wallet_utxos ?s (wallet_keys ws) (wld_utxos delta)) =
      map (mark_spent ?s) ws @ new_wallet_utxos ?s (wallet_keys ws) (wld_utxos delta)"
    using new_utxos [of ?s "wallet_keys ws" "wld_utxos delta"] assms by (intro dedupe_distinct) auto
  then show ?thesis by (simp add: apply_wallet_delta_to_vec_with_outcome_def Let_def m)
qed

lemma apply_delta_keys:
  assumes "distinct (wallet_keys ws)"
  shows "distinct (wallet_keys (fst (apply_wallet_delta_to_vec_with_outcome env keys ws delta)))"
    "set (wallet_keys (fst (apply_wallet_delta_to_vec_with_outcome env keys ws delta))) = set (wallet_keys ws) \<union> utxo_key ` set (wld_utxos delta)"
  using new_utxos [of "delta_spent env keys delta" "wallet_keys ws" "wld_utxos delta"] assms
  by (auto simp: apply_delta_fst)

lemma apply_delta_changed:
  assumes "distinct (wallet_keys ws)"
  shows "wda_changed (snd (apply_wallet_delta_to_vec_with_outcome env keys ws delta)) \<longleftrightarrow>
    newly_spent (delta_spent env keys delta) ws \<noteq> [] \<or> \<not> utxo_key ` set (wld_utxos delta) \<subseteq> set (wallet_keys ws)"
proof -
  let ?s = "delta_spent env keys delta" let ?new = "new_wallet_utxos ?s (wallet_keys ws) (wld_utxos delta)"
  have none: "wld_nullifiers delta = [] \<Longrightarrow> newly_spent ?s ws = []" "wld_nullifiers delta = [] \<Longrightarrow> map (mark_spent ?s) ws = ws"
    by (auto simp: newly_spent_def mark_spent_def spent_source_for_utxo_def nullifier_sources_def intro!: map_idI)
  have d: "dedupe_wallet_utxos [] (map (mark_spent ?s) ws @ ?new) = map (mark_spent ?s) ws @ ?new"
    using new_utxos [of ?s "wallet_keys ws" "wld_utxos delta"] assms by (intro dedupe_distinct) auto
  have d0: "dedupe_wallet_utxos [] (map (mark_spent ?s) ws) = map (mark_spent ?s) ws"
    using assms by (intro dedupe_distinct) auto
  have "?new \<noteq> [] \<longleftrightarrow> \<not> utxo_key ` set (wld_utxos delta) \<subseteq> set (wallet_keys ws)"
    using new_utxos [of ?s "wallet_keys ws" "wld_utxos delta"] by (cases ?new) auto
  with d d0 none show ?thesis
    by (cases "wld_nullifiers delta = []") (auto simp: apply_wallet_delta_to_vec_with_outcome_def Let_def)
qed

section \<open>Reachable wallets\<close>

text \<open>
  A wallet starts empty. The deltas of scanned rows extend it, a chain reorganisation rewinds it, and a
  status refresh replaces the proof-of-innocence statuses of a note.
\<close>

definition refresh_utxo ::
  "b256 list \<Rightarrow> (b256, poi_status) btree_map option \<Rightarrow> u64 \<Rightarrow> wallet_utxo \<Rightarrow> wallet_utxo" where
  "refresh_utxo list_keys statuses at w =
     w\<lparr>wu_utxo := (wu_utxo w)\<lparr>utxo_poi := fst (apply_status_refresh (utxo_poi (wu_utxo w)) list_keys statuses at)\<rparr>\<rparr>"

abbreviation apply_rows :: "'p env \<Rightarrow> viewing_key_data \<Rightarrow> wallet_utxo list \<Rightarrow> wallet_scan_input_rows \<Rightarrow> wallet_utxo list" where
  "apply_rows env keys ws rows \<equiv> fst (apply_wallet_delta_to_vec_with_outcome env keys ws (from_rows env rows keys))"

inductive wallet_reachable :: "'p env \<Rightarrow> viewing_key_data \<Rightarrow> wallet_utxo list \<Rightarrow> bool" for env keys where
  empty: "wallet_reachable env keys []"
| delta: "wallet_reachable env keys ws \<Longrightarrow> wallet_reachable env keys (apply_rows env keys ws rows)"
| rewind: "wallet_reachable env keys ws \<Longrightarrow> wallet_reachable env keys (fst (rewind_wallet_utxos ws from_block))"
| refresh: "wallet_reachable env keys ws \<Longrightarrow> i < length ws \<Longrightarrow>
    wallet_reachable env keys (ws[i := refresh_utxo list_keys statuses at (ws ! i)])"

text \<open>What \<open>Utxo::new\<close> establishes and no later step changes.\<close>

definition placed :: "hash_fn \<Rightarrow> utxo \<Rightarrow> bool" where
  "placed hash u \<longleftrightarrow> utxo_position u < TREE_LEAF_COUNT \<and> unat (note_value (utxo_note u)) < 2 ^ 128 \<and>
     poi_commitment (utxo_poi u) = fb32 (u256_to_be_bytes (commitment hash (utxo_note u))) \<and>
     poi_npk (utxo_poi u) = fb32 (u256_to_be_bytes (note_npk (utxo_note u))) \<and>
     poi_blinded_commitment (utxo_poi u) =
       blinded_commitment_for hash (poi_commitment (utxo_poi u)) (poi_npk (utxo_poi u)) (utxo_tree u) (utxo_position u)"

lemma scanned_placed: "scanned hash u \<Longrightarrow> placed hash u"
  unfolding scanned_def placed_def utxo_new_def from_note_def Let_def
  by (metis utxo.select_convs(5) utxo_poi_metadata.select_convs(2,3,4))

lemma refresh_same:
  "utxo_key (wu_utxo (refresh_utxo lk st at w)) = utxo_key (wu_utxo w)"
  "placed hash (wu_utxo (refresh_utxo lk st at w)) = placed hash (wu_utxo w)"
  by (simp_all add: refresh_utxo_def utxo_key_def placed_def apply_status_refresh_def Let_def case_prod_beta)

lemma rewound_keys:
  "wallet_keys (fst (rewind_wallet_utxos ws b)) = wallet_keys (filter (\<lambda>w. src_block_number (utxo_source (wu_utxo w)) < b) ws)"
  "wu_utxo ` set (fst (rewind_wallet_utxos ws b)) \<subseteq> wu_utxo ` set ws"
  by (auto simp: rewind_wallet_utxos_def Let_def wallet_keys_eq comp_def image_image split: if_splits)

lemma reachable_wallet:
  "wallet_reachable env keys ws \<Longrightarrow> distinct (wallet_keys ws) \<and> (\<forall>w \<in> set ws. placed (env_hash env) (wu_utxo w))"
proof (induction rule: wallet_reachable.induct)
  case (delta ws rows)
  let ?d = "from_rows env rows keys"
  have "placed (env_hash env) (wu_utxo w)" if "w \<in> set (apply_rows env keys ws rows)" for w
  proof -
    from that delta.IH consider "\<exists>v \<in> set ws. wu_utxo w = wu_utxo v"
      | "w \<in> set (new_wallet_utxos (delta_spent env keys ?d) (wallet_keys ws) (wld_utxos ?d))"
      by (force simp: apply_delta_fst)
    then show ?thesis
    proof cases
      case 2
      then have "wu_utxo w \<in> set (wld_utxos ?d)" using new_utxos by blast
      then show ?thesis using delta_utxos scanned_placed by blast
    qed (use delta.IH in auto)
  qed
  with delta.IH show ?case by (auto simp: apply_delta_keys(1))
next
  case (rewind ws b)
  then show ?case using rewound_keys [of ws b] by (auto simp: wallet_keys_eq distinct_map_filter)
next
  case (refresh ws i lk st at)
  have "wallet_keys (ws[i := refresh_utxo lk st at (ws ! i)]) = wallet_keys ws"
    using refresh.hyps(2) by (simp add: wallet_keys_eq map_update refresh_same list_update_id [of "map _ ws" i, simplified])
      (metis (no_types, lifting) length_map list_update_id nth_map)
  moreover have "placed (env_hash env) (wu_utxo (refresh_utxo lk st at (ws ! i)))"
    using refresh by (simp add: refresh_same)
  ultimately show ?case using refresh.IH by (auto dest!: set_update_subset_insert [THEN subsetD])
qed simp

end
