(* ===== verification/SelectionOptimal.thy ===== *)
theory SelectionOptimal
  imports SelectionSpec
begin

text \<open>
  Optimality of single-transaction selection. A choice of a single transaction is a list of notes
  of one tree; the lemmas compare the three selectors of the code with all choices: the best
  selection has the fewest inputs and among those the least total, the maximal selection the
  greatest total, and \<open>max_tree_total_below\<close> is the greatest total below its limit. The least total
  and the last of these need trees small enough for the visit limit of the searches.
\<close>

section \<open>Optimality of one transaction\<close>

lemma pick_sums_submset: "mset us \<subseteq># mset cs \<Longrightarrow> nat_sum us \<in> pick_sums (vals cs) (length us)"
proof (induction cs arbitrary: us)
  case (Cons c cs)
  show ?case
  proof (cases "c \<in> set us")
    case True
    then have "mset (remove1 c us) \<subseteq># mset cs"
      using Cons.prems by (simp add: subset_eq_diff_conv)
    from Cons.IH [OF this] have "nat_sum (remove1 c us) \<in> pick_sums (vals cs) (length (remove1 c us))" .
    moreover have "nat_sum us = val c + nat_sum (remove1 c us)"
      unfolding nat_sum_simps(2) [symmetric] by (rule nat_sum_mset) (simp add: True)
    moreover have "length us = Suc (length (remove1 c us))"
      using True by (simp add: length_remove1) (metis Suc_pred length_pos_if_in_set)
    ultimately show ?thesis by (simp add: vals_def)
  next
    case False
    then have "mset us - {#c#} = mset us" by (simp add: diff_single_trivial)
    then have "mset us \<subseteq># mset cs"
      using Cons.prems subset_eq_diff_conv [of "mset us" "{#c#}" "mset cs"] by simp
    from Cons.IH [OF this] show ?thesis
      using pick_sums_Cons_mono unfolding vals_def by fastforce
  qed
qed simp

text \<open>
  The choices a single transaction has: notes of one tree, at most \<open>MAX_CIRCUIT_INPUTS\<close> of them,
  that cover the amount and leave room for a change output unless they match it exactly.
\<close>

definition covering_choice :: "utxo list \<Rightarrow> address \<Rightarrow> u256 \<Rightarrow> nat \<Rightarrow> utxo list \<Rightarrow> bool" where
  "covering_choice utxos token amount base us \<longleftrightarrow>
     us \<noteq> [] \<and> (\<exists>n. mset us \<subseteq># mset (tree_notes utxos token n)) \<and> length us \<le> MAX_CIRCUIT_INPUTS \<and>
     unat amount \<le> nat_sum us \<and>
     2 + length us + base + (if unat amount < nat_sum us then 1 else 0) \<le> MAX_SIGNATURE_INPUTS"

text \<open>
  What the visit limit of the searches leaves complete: trees of at most \<open>MAX_CIRCUIT_INPUTS\<close> notes of
  the token are searched in full, and choices with room for a change output are found in every tree.
  Only an exact match without such room in a larger tree can be missed.
\<close>

definition small_trees :: "utxo list \<Rightarrow> address \<Rightarrow> bool" where
  "small_trees utxos token \<longleftrightarrow> (\<forall>n. length (tree_notes utxos token n) \<le> MAX_CIRCUIT_INPUTS)"

definition change_room :: "nat \<Rightarrow> utxo list \<Rightarrow> bool" where
  "change_room base us \<longleftrightarrow> 2 + length us + base + 1 \<le> MAX_SIGNATURE_INPUTS"

definition no_larger :: "utxo_selection \<Rightarrow> utxo_selection \<Rightarrow> bool" where
  "no_larger a b \<longleftrightarrow> length (sel_utxos a) < length (sel_utxos b) \<or>
     length (sel_utxos a) = length (sel_utxos b) \<and> sel_total a \<le> sel_total b"

lemma no_larger_trans: "no_larger a b \<Longrightarrow> no_larger b c \<Longrightarrow> no_larger a c"
  unfolding no_larger_def using order_trans [of "sel_total a" "sel_total b" "sel_total c"] by auto

lemma no_larger_refl [simp]: "no_larger a a"
  by (simp add: no_larger_def)

lemma better_no_larger:
  assumes "amount \<le> sel_total a" "amount \<le> sel_total b"
  shows "is_better_for_amount_than a b amount \<Longrightarrow> no_larger a b"
    and "\<not> is_better_for_amount_than a b amount \<Longrightarrow> no_larger b a"
proof -
  consider (lt) "length (sel_utxos a) < length (sel_utxos b)" | (gt) "length (sel_utxos b) < length (sel_utxos a)"
    | (eq) "length (sel_utxos a) = length (sel_utxos b)" by linarith
  note len = this
  show "is_better_for_amount_than a b amount \<Longrightarrow> no_larger a b"
    by (cases rule: len) (use better_for_amount_total [OF _ assms] in
      \<open>auto simp: no_larger_def is_better_for_amount_than_def cmp_def\<close>)
  show "\<not> is_better_for_amount_than a b amount \<Longrightarrow> no_larger b a"
    by (cases rule: len) (use better_for_amount_total [OF _ assms] in
      \<open>auto simp: no_larger_def is_better_for_amount_than_def cmp_def\<close>)
qed

lemma first_some_upt:
  "f k = Some y \<Longrightarrow> i \<le> k \<Longrightarrow> k < j \<Longrightarrow>
     \<exists>k0 z. first_some f [i ..< j] = Some z \<and> i \<le> k0 \<and> k0 \<le> k \<and> f k0 = Some z"
proof (induction "k - i" arbitrary: i)
  case 0
  then have "i = k" by simp
  with 0 show ?case by (auto simp: upt_conv_Cons)
next
  case (Suc d)
  then have up: "[i ..< j] = i # [Suc i ..< j]" by (simp add: upt_conv_Cons)
  show ?case
  proof (cases "f i")
    case None
    have "d = k - Suc i" "Suc i \<le> k" using Suc.hyps(2) by auto
    from Suc.hyps(1) [OF this(1) Suc.prems(1) this(2) Suc.prems(3)] obtain k0 z where
      "first_some f [Suc i ..< j] = Some z" "Suc i \<le> k0" "k0 \<le> k" "f k0 = Some z" by blast
    then have "first_some f [i ..< j] = Some z \<and> i \<le> k0 \<and> k0 \<le> k \<and> f k0 = Some z"
      unfolding up using None by simp
    then show ?thesis by blast
  next
    case (Some z)
    with Suc.prems show ?thesis unfolding up by auto
  qed
qed

lemma tots_None: "tots (Some b) = {unat (sel_total b)}" "tots None = {}"
  by (simp_all add: tots_def)

text \<open>
  The search of one input count finds a selection when there is a choice of that size, no larger than
  it when the tree is searched in full.
\<close>

lemma ss_run_covers:
  assumes us: "mset us \<subseteq># mset cs" "us \<noteq> []" "unat amount \<le> nat_sum us"
    "2 + length us + base + (if unat amount < nat_sum us then 1 else 0) \<le> MAX_SIGNATURE_INPUTS"
    and cs: "nat_sum cs < 2 ^ 256" "length cs \<le> MAX_CIRCUIT_INPUTS \<or> change_room base us"
  shows "\<exists>b. st_best (ss_run (ss_new (sort_search_candidates cs) amount (length us) base)) = Some b \<and>
    (length cs \<le> MAX_CIRCUIT_INPUTS \<longrightarrow> unat (sel_total b) \<le> nat_sum us)"
proof -
  let ?s = "ss_new (sort_search_candidates cs) amount (length us) base"
  have ok: "search_ok ?s"
    using us(4) cs(1) nat_sum_mset [of "sort_search_candidates cs" cs]
    by (auto simp: search_ok_def ss_new_def descending_sort split: if_splits)
  have sum: "nat_sum us \<in> pick_sums (vals (sort_search_candidates cs)) (length us)"
    using us(1) by (intro pick_sums_submset) simp
  show ?thesis
  proof (cases "length cs \<le> MAX_CIRCUIT_INPUTS")
    case True
    with ss_run_optimal [OF ok] have opt: "tots (st_best (ss_run ?s)) =
        min_set {x \<in> pick_sums (vals (sort_search_candidates cs)) (length us). feasible ?s x}"
      by (simp add: ss_new_def)
    have "feasible ?s (nat_sum us)"
      using us(3,4) by (auto simp: feasible_def ss_new_def exact_only_def split: if_splits)
    with sum have "\<exists>a \<in> tots (st_best (ss_run ?s)). a \<le> nat_sum us"
      unfolding opt by (intro min_set_dominates) simp
    then show ?thesis by (cases "st_best (ss_run ?s)") (auto simp: tots_None)
  next
    case False
    then have "\<not> exact_only ?s" using cs(2) by (simp add: exact_only_def change_room_def ss_new_def)
    from ss_run_finds [OF ok this] sum us(3) have "st_best (ss_run ?s) \<noteq> None" by (simp add: ss_new_def)
    with False show ?thesis by simp
  qed
qed

lemma best_tree_optimal:
  assumes "covering_choice utxos token amount base us" "mset us \<subseteq># mset (tree_notes utxos token n)"
    and "nat_sum utxos < 2 ^ 256" "length (tree_notes utxos token n) \<le> MAX_CIRCUIT_INPUTS \<or> change_room base us"
  obtains b where "best_tree_selection (tree_notes utxos token n) amount base = Some b"
    "length (sel_utxos b) < length us \<or> length (sel_utxos b) = length us \<and>
       (length (tree_notes utxos token n) \<le> MAX_CIRCUIT_INPUTS \<longrightarrow> unat (sel_total b) \<le> nat_sum us)"
proof -
  let ?cs = "tree_notes utxos token n"
  let ?f = "\<lambda>k. st_best (ss_run (ss_new (sort_search_candidates ?cs) amount k base))"
  let ?m = "max_inputs_for_base_outputs base"
  from assms(1) have us: "us \<noteq> []" "length us \<le> MAX_CIRCUIT_INPUTS" "unat amount \<le> nat_sum us"
    "2 + length us + base + (if unat amount < nat_sum us then 1 else 0) \<le> MAX_SIGNATURE_INPUTS"
    by (auto simp: covering_choice_def)
  have "nat_sum ?cs < 2 ^ 256" using nat_sum_submset [OF mset_tree_notes] assms(3) by (rule le_less_trans)
  from ss_run_covers [OF assms(2) us(1,3,4) this assms(4)] obtain b where
    b: "?f (length us) = Some b" "length ?cs \<le> MAX_CIRCUIT_INPUTS \<longrightarrow> unat (sel_total b) \<le> nat_sum us" by blast
  have "1 \<le> length us" "length us < ?m + 1"
    using us max_inputs_iff [of "length us" base] by (auto simp: Suc_le_eq less_Suc_eq_le split: if_splits)
  from first_some_upt [of ?f, OF b(1) this] obtain k z where
    z: "first_some ?f [1 ..< ?m + 1] = Some z" "1 \<le> k" "k \<le> length us" "?f k = Some z" by blast
  have "0 < k" "k \<le> ?m" using z \<open>length us < ?m + 1\<close> by auto
  from sel_ok_chunk(3) [OF ss_run_sound [OF z(4)] this refl] have "length (sel_utxos z) = k" .
  moreover have "k = length us \<Longrightarrow> z = b" using z b by simp
  moreover have "best_tree_selection ?cs amount base = Some z" using z(1) by (simp add: best_tree_selection_def Let_def)
  ultimately show thesis using that [of z] z(3) b(2) by force
qed

text \<open>Keeping the preferred candidate keeps one that is below all of them.\<close>

definition keep_better :: "('a \<Rightarrow> 'a \<Rightarrow> bool) \<Rightarrow> 'a option \<Rightarrow> 'a option \<Rightarrow> 'a option" where
  "keep_better P best cand =
     (case cand of None \<Rightarrow> best
      | Some s \<Rightarrow> if (case best of None \<Rightarrow> True | Some b \<Rightarrow> P s b) then Some s else best)"

lemma keep_better_below:
  assumes "\<And>a b. D a \<Longrightarrow> D b \<Longrightarrow> P a b \<Longrightarrow> R a b" "\<And>a b. D a \<Longrightarrow> D b \<Longrightarrow> \<not> P a b \<Longrightarrow> R b a" "\<And>a. R a a"
    and "pred_option D best" "pred_option D cand"
  shows "pred_option D (keep_better P best cand)"
    "best = Some s \<or> cand = Some s \<Longrightarrow> \<exists>t. keep_better P best cand = Some t \<and> R t s"
proof -
  show "pred_option D (keep_better P best cand)"
    using assms(4,5) by (auto simp: keep_better_def split: option.splits)
  show "\<exists>t. keep_better P best cand = Some t \<and> R t s" if "best = Some s \<or> cand = Some s"
  proof (cases cand)
    case None
    with that show ?thesis using assms(3) by (simp add: keep_better_def)
  next
    case (Some c)
    then show ?thesis
      using that assms by (cases best; cases "P c (the best)") (auto simp: keep_better_def)
  qed
qed

lemma foldl_prefer_best:
  assumes P: "\<And>a b. D a \<Longrightarrow> D b \<Longrightarrow> P a b \<Longrightarrow> R a b" "\<And>a b. D a \<Longrightarrow> D b \<Longrightarrow> \<not> P a b \<Longrightarrow> R b a"
    and R: "\<And>a. R a a" "\<And>a b c. R a b \<Longrightarrow> R b c \<Longrightarrow> R a c"
    and "\<forall>x \<in> set xs. pred_option D (f x)" "pred_option D best"
    and "best = Some s \<or> (\<exists>x \<in> set xs. f x = Some s)"
  shows "\<exists>b. foldl (\<lambda>best x. keep_better P best (f x)) best xs = Some b \<and> R b s"
  using assms(5-7)
proof (induction xs arbitrary: best s)
  case Nil
  then show ?case using R by auto
next
  case (Cons x xs)
  have step: "pred_option D (keep_better P best (f x))"
    "\<And>s. best = Some s \<or> f x = Some s \<Longrightarrow> \<exists>t. keep_better P best (f x) = Some t \<and> R t s"
    using keep_better_below [of D P R best "f x"] P R(1) Cons.prems by auto
  obtain t where t: "keep_better P best (f x) = Some t \<or> (\<exists>x \<in> set xs. f x = Some t)" "R t s"
    using step(2) Cons.prems(3) R(1) by (metis set_ConsD)
  from Cons.IH [OF _ step(1) t(1)] Cons.prems(1) obtain b where
    "foldl (\<lambda>best x. keep_better P best (f x)) (keep_better P best (f x)) xs = Some b" "R b t" by auto
  moreover have "R b s" by (rule R(2) [OF \<open>R b t\<close> t(2)])
  ultimately show ?case by auto
qed

lemma best_unshield_covers:
  assumes "covering_choice utxos token amount base us"
    and "nat_sum utxos < 2 ^ 256" "small_trees utxos token \<or> change_room base us"
  shows "\<exists>b. best_unshield_selection utxos token amount base = Some b \<and>
    (length (sel_utxos b) < length us \<or>
     length (sel_utxos b) = length us \<and> (small_trees utxos token \<longrightarrow> unat (sel_total b) \<le> nat_sum us))"
proof -
  from assms(1) obtain n where n: "mset us \<subseteq># mset (tree_notes utxos token n)" "us \<noteq> []"
    by (auto simp: covering_choice_def)
  have "length (tree_notes utxos token n) \<le> MAX_CIRCUIT_INPUTS \<or> change_room base us"
    using assms(3) by (auto simp: small_trees_def)
  from best_tree_optimal [OF assms(1) n(1) assms(2) this] obtain s where
    s: "best_tree_selection (tree_notes utxos token n) amount base = Some s"
    "length (sel_utxos s) < length us \<or> length (sel_utxos s) = length us \<and>
       (small_trees utxos token \<longrightarrow> unat (sel_total s) \<le> nat_sum us)"
    by (auto simp: small_trees_def)
  let ?D = "\<lambda>b. amount \<le> sel_total b"
  have "tree_notes utxos token n \<noteq> []" using n by auto
  then have "\<exists>x \<in> set (bt_values (token_utxos_by_tree utxos token)). best_tree_selection x amount base = Some s"
    using s(1) by (auto simp: token_utxos_values)
  moreover have "?D b" if "x \<in> set (bt_values (token_utxos_by_tree utxos token))"
    "best_tree_selection x amount base = Some b" for x b
    using that best_tree_ok by (auto simp: token_utxos_values covers_def)
  ultimately have "\<exists>b. best_unshield_selection utxos token amount base = Some b \<and> no_larger b s"
    unfolding best_unshield_selection_def keep_better_def [symmetric]
    by (intro foldl_prefer_best [where D = ?D, OF better_no_larger no_larger_refl no_larger_trans])
       (auto simp: option.pred_set)
  then show ?thesis using s(2) by (auto simp: no_larger_def word_le_nat_alt)
qed

lemma better_max_total: "\<not> is_better_max_than a b \<Longrightarrow> sel_total a \<le> sel_total b"
  by (auto simp: is_better_max_than_def cmp_def not_less split: if_splits)

lemma better_max_total': "is_better_max_than a b \<Longrightarrow> sel_total b \<le> sel_total a"
  unfolding better_max_order using max_order_total by simp

lemma tree_max_dominates:
  assumes "mset us \<subseteq># mset (tree_notes utxos token n)" "us \<noteq> []" "length us \<le> k" "nat_sum utxos < 2 ^ 256"
  shows "\<exists>b. tree_max k (tree_notes utxos token n) = Some b \<and> nat_sum us \<le> unat (sel_total b)"
proof -
  let ?cs = "sort_search_candidates (tree_notes utxos token n)"
  have "nat_sum (take k ?cs) \<le> nat_sum utxos"
    using nat_sum_take_le [of k ?cs] nat_sum_mset [of ?cs "tree_notes utxos token n"]
      nat_sum_submset [OF mset_tree_notes, of utxos token n] by simp
  then have tot: "unat (value_sum (take k ?cs)) = nat_sum (take k ?cs)"
    using assms(4) by (intro unat_value_sum) simp
  have "nat_sum us \<in> pick_sums (vals ?cs) (length us)" using assms(1) by (intro pick_sums_submset) simp
  from pick_sums_le_max [OF descending_vals [OF descending_sort] this]
  have "nat_sum us \<le> nat_sum (take (length us) ?cs)" by simp
  also have "\<dots> \<le> nat_sum (take k ?cs)"
    using nat_sum_take_le [of "length us" "take k ?cs"] assms(3) by (simp add: min_absorb1)
  finally have le: "nat_sum us \<le> nat_sum (take k ?cs)" .
  have "0 < nat_sum us"
  proof (cases us)
    case (Cons u vs)
    then have "u \<in> set (tree_notes utxos token n)" using assms(1) by (metis list.set_intros(1) mset_subset_eqD set_mset_mset)
    then have "0 < val u" by (auto simp: tree_notes_def eligible_def val_def unat_gt_0)
    with Cons show ?thesis by simp
  qed (use assms(2) in simp)
  with le tot have "value_sum (take k ?cs) \<noteq> 0" by auto
  with le tot show ?thesis by (simp add: tree_max_def Let_def)
qed

lemma max_unshield_dominates:
  assumes "mset us \<subseteq># mset (tree_notes utxos token n)" "us \<noteq> []"
    "length us \<le> max_inputs_for_base_outputs base" "nat_sum utxos < 2 ^ 256"
  shows "\<exists>b. max_unshield_selection_with_output_count utxos token base = Some b \<and> nat_sum us \<le> unat (sel_total b)"
proof -
  let ?k = "max_inputs_for_base_outputs base"
  have "?k \<noteq> 0" using assms(2,3) by (cases us) auto
  from tree_max_dominates [OF assms] obtain s where
    s: "tree_max ?k (tree_notes utxos token n) = Some s" "nat_sum us \<le> unat (sel_total s)" by blast
  have "tree_notes utxos token n \<noteq> []" using assms(1,2) by auto
  then have "\<exists>x \<in> set (bt_values (token_utxos_by_tree utxos token)). tree_max ?k x = Some s"
    using s(1) by (auto simp: token_utxos_values)
  then have "\<exists>b. max_unshield_selection_with_output_count utxos token base = Some b \<and> sel_total s \<le> sel_total b"
    unfolding max_unshield_fold keep_better_def [symmetric] if_not_P [OF \<open>?k \<noteq> 0\<close>]
    by (intro foldl_prefer_best [where D = "\<lambda>_. True" and R = "\<lambda>a b. sel_total b \<le> sel_total a"])
       (auto simp: option.pred_set better_max_total better_max_total')
  then show ?thesis using s(2) by (meson le_trans word_le_nat_alt)
qed

lemma foldl_option_max:
  "foldl option_max m xs = (case m of None \<Rightarrow> (if xs = [] then None else Some (Max (set xs)))
     | Some y \<Rightarrow> Some (Max (insert y (set xs))))"
proof (induction xs arbitrary: m)
  case (Cons x xs)
  show ?case
    unfolding foldl.simps Cons.IH by (cases m; cases "xs = []") (auto simp: option_max_def ac_simps)
qed (simp split: option.splits)

text \<open>The totals of single transactions strictly below a limit.\<close>

definition totals_below :: "utxo list \<Rightarrow> address \<Rightarrow> u256 \<Rightarrow> nat \<Rightarrow> nat set" where
  "totals_below utxos token limit k =
     {nat_sum us |us. us \<noteq> [] \<and> (\<exists>n. mset us \<subseteq># mset (tree_notes utxos token n)) \<and> length us \<le> k \<and>
        nat_sum us < unat limit}"

lemma finite_totals_below: "finite (totals_below utxos token limit k)"
  by (rule finite_subset [of _ "{..< unat limit}"]) (auto simp: totals_below_def)

lemma max_set_between:
  assumes "A \<subseteq> B" "finite B" "max_set B \<subseteq> A"
  shows "max_set A = max_set B"
proof -
  have "max_set (A \<union> B) = max_set A"
    by (rule max_set_absorb) (use max_set_dominates [OF assms(2)] assms(3) in blast)
  with assms(1) show ?thesis by (simp add: Un_absorb1)
qed

abbreviation tree_totals_below :: "utxo list \<Rightarrow> u256 \<Rightarrow> nat \<Rightarrow> nat set" where
  "tree_totals_below cs limit k \<equiv>
     {nat_sum us |us. us \<noteq> [] \<and> mset us \<subseteq># mset cs \<and> length us \<le> k \<and> nat_sum us < unat limit}"

lemma tree_partial_ok:
  assumes "nat_sum utxos < 2 ^ 256" "distinct (map utxo_key utxos)"
  shows "partial_ok (ps_new (sort_search_candidates (tree_notes utxos token n)) limit k j)"
proof -
  let ?cs = "sort_search_candidates (tree_notes utxos token n)"
  have "nat_sum ?cs < 2 ^ 256"
    using nat_sum_mset [of ?cs "tree_notes utxos token n"] nat_sum_submset [OF mset_tree_notes, of utxos token n]
      assms(1) by simp
  moreover have "distinct (map utxo_key ?cs)"
    using distinct_keys_tree [OF assms(2)] by (simp add: sort_search_candidates_def)
  ultimately show ?thesis by (simp add: partial_ok_def ps_new_def descending_sort)
qed

lemma tree_below_sound:
  assumes "partial_ok (ps_new (sort_search_candidates cs) limit k j)"
  shows "tots (pt_best (ps_run (ps_new (sort_search_candidates cs) limit k j))) \<subseteq> tree_totals_below cs limit k"
proof -
  let ?cs = "sort_search_candidates cs" let ?s = "ps_new ?cs limit k j"
  show ?thesis
  proof (cases "pt_best (ps_run ?s)")
    case (Some b)
    have "list_inv ?s (ps_run ?s)" using assms by (intro ps_run_sound) (simp add: partial_ok_def)
    then have "psel_ok ?s b" using Some by (simp add: list_inv_def)
    then obtain "is" where idx: "indices_below (length ?cs) is" "is \<noteq> []" "length is \<le> k"
      "sel_total b = value_sum (picked ?cs is)" "sel_total b < limit"
      by (auto simp: psel_ok_def ps_new_def)
    have "unat (sel_total b) = nat_sum (picked ?cs is)"
      unfolding idx(4) using picked_nat_sum [OF idx(1)] assms by (intro unat_value_sum) (simp add: partial_ok_def ps_new_def)
    moreover have "mset (picked ?cs is) \<subseteq># mset cs" using picked_submset [OF idx(1)] by simp
    ultimately show ?thesis
      using idx Some by (auto simp: tots_def word_less_nat_alt picked_def intro!: exI [of _ "picked ?cs is"])
  qed (simp add: tots_def)
qed

lemma tree_below:
  assumes "nat_sum utxos < 2 ^ 256" "distinct (map utxo_key utxos)"
    "length (tree_notes utxos token n) \<le> MAX_CIRCUIT_INPUTS"
  shows "tots (pt_best (ps_run (ps_new (sort_search_candidates (tree_notes utxos token n)) limit k j))) =
    max_set (tree_totals_below (tree_notes utxos token n) limit k)"
    (is "tots (pt_best (ps_run ?s)) = max_set ?A")
proof -
  let ?cs = "sort_search_candidates (tree_notes utxos token n)"
  have ok: "partial_ok ?s" by (rule tree_partial_ok [OF assms(1,2)])
  from ps_run_optimal [OF ok] assms(3)
  have opt: "tots (pt_best (ps_run ?s)) = max_set (preach ?s 0 k 0)" by (simp add: ps_new_def)
  have sub: "?A \<subseteq> preach ?s 0 k 0"
  proof
    fix x assume "x \<in> ?A"
    then obtain us where us: "x = nat_sum us" "us \<noteq> []" "mset us \<subseteq># mset ?cs" "length us \<le> k" "x < unat limit"
      by auto
    then show "x \<in> preach ?s 0 k 0"
      using pick_sums_submset [OF us(3)] by (cases us) (auto simp: preach_def ps_new_def intro!: bexI)
  qed
  with opt tree_below_sound [OF ok] show ?thesis using max_set_between [of ?A "preach ?s 0 k 0"] by simp
qed

lemma UN_restrict: "(\<And>n x. x \<in> M n \<Longrightarrow> P n) \<Longrightarrow> (\<Union>n \<in> {n. P n}. M n) = (\<Union>n. M n)"
  by auto

lemma max_tree_total_below_max:
  assumes "nat_sum utxos < 2 ^ 256" "distinct (map utxo_key utxos)"
    "small_trees utxos token"
  shows "(case max_tree_total_below utxos token limit k of None \<Rightarrow> {} | Some t \<Rightarrow> {unat t}) =
    max_set (totals_below utxos token limit k)"
proof -
  let ?f = "\<lambda>cs. map_option sel_total (pt_best (ps_run (ps_new (sort_search_candidates cs) limit k 1)))"
  let ?A = "\<lambda>n. tree_totals_below (tree_notes utxos token n) limit k"
  let ?T = "totals_below utxos token limit k"
  let ?X = "List.map_filter ?f (bt_values (token_utxos_by_tree utxos token))"
  have A: "(case ?f (tree_notes utxos token n) of None \<Rightarrow> {} | Some t \<Rightarrow> {unat t}) = max_set (?A n)" for n
    using tree_below [OF assms(1,2) assms(3) [unfolded small_trees_def, rule_format], of n limit k 1] by (auto simp: tots_def split: option.splits)
  have fin: "finite (?A n)" for n by (rule finite_subset [of _ "{..< unat limit}"]) auto
  have T: "?T = (\<Union>n. ?A n)" by (auto simp: totals_below_def)
  have X: "unat ` set ?X = (\<Union>n. max_set (?A n))"
  proof -
    have "unat ` set ?X = (\<Union>n \<in> {n. tree_notes utxos token n \<noteq> []}. max_set (?A n))"
      unfolding set_map_filter token_utxos_values A [symmetric]
      by (auto split: option.splits intro!: imageI) (use option.sel in blast)
    moreover have "tree_notes utxos token n \<noteq> []" if "x \<in> max_set (?A n)" for n x
      using that by (auto simp: max_set_def)
    ultimately show ?thesis using UN_restrict [of "\<lambda>n. max_set (?A n)"] by simp
  qed
  have "max_set (unat ` set ?X) = max_set ?T"
  proof (rule max_set_between [OF _ finite_totals_below])
    show "unat ` set ?X \<subseteq> ?T" unfolding X T by (auto simp: max_set_def)
    show "max_set ?T \<subseteq> unat ` set ?X" unfolding X T by (auto simp: max_set_def)
  qed
  moreover have "(case max_tree_total_below utxos token limit k of None \<Rightarrow> {} | Some t \<Rightarrow> {unat t}) =
      max_set (unat ` set ?X)"
  proof (cases "?X = []")
    case True
    then show ?thesis by (simp add: max_tree_total_below_def max_set_def)
  next
    case False
    then have "Max (set ?X) \<in> set ?X" "\<forall>x \<in> set ?X. x \<le> Max (set ?X)" by simp_all
    then have "max_set (unat ` set ?X) = {unat (Max (set ?X))}"
      by (auto simp: max_set_def word_le_nat_alt intro: antisym)
    with False show ?thesis by (simp add: max_tree_total_below_def foldl_option_max)
  qed
  ultimately show ?thesis by simp
qed

lemma max_tree_total_below_sound:
  assumes "nat_sum utxos < 2 ^ 256" "distinct (map utxo_key utxos)" "max_tree_total_below utxos token limit k = Some t"
  shows "unat t \<in> totals_below utxos token limit k"
proof -
  let ?f = "\<lambda>cs. map_option sel_total (pt_best (ps_run (ps_new (sort_search_candidates cs) limit k 1)))"
  let ?X = "List.map_filter ?f (bt_values (token_utxos_by_tree utxos token))"
  have "?X \<noteq> []" "t = Max (set ?X)"
    using assms(3) by (auto simp: max_tree_total_below_def foldl_option_max split: if_splits)
  then have "t \<in> set ?X" by simp
  then obtain n where n: "?f (tree_notes utxos token n) = Some t"
    by (auto simp: set_map_filter token_utxos_values)
  then have "unat t \<in> tots (pt_best (ps_run (ps_new (sort_search_candidates (tree_notes utxos token n)) limit k 1)))"
    by (auto simp: tots_def)
  with tree_below_sound [OF tree_partial_ok [OF assms(1,2)]] have "unat t \<in> tree_totals_below (tree_notes utxos token n) limit k" ..
  then show ?thesis by (auto simp: totals_below_def)
qed

section \<open>What one transaction can spend\<close>

lemma best_unshield_choice:
  assumes "best_unshield_selection utxos token amount base = Some b" "nat_sum utxos < 2 ^ 256"
  shows "covering_choice utxos token amount base (sel_utxos b)" "unat (sel_total b) = nat_sum (sel_utxos b)"
proof -
  note ok = best_unshield_ok [OF assms(1)]
  show tot: "unat (sel_total b) = nat_sum (sel_utxos b)"
    using best.select_value [OF _ assms] by simp
  show "covering_choice utxos token amount base (sel_utxos b)"
    using ok(1) ok(2) chunk_okD(4) [OF ok(1)] tot
    by (auto simp: covering_choice_def chunk_ok_def covers_def word_le_nat_alt word_less_nat_alt split: if_splits)
qed

text \<open>
  Claim C8. The best selection is a choice of notes of one tree that covers the amount within the
  limits. No such choice with room for a change output has fewer inputs, and none exists when there
  is no selection, whatever the size of the trees. Where no tree holds more than
  \<open>MAX_CIRCUIT_INPUTS\<close> notes of the token, the same is true of every covering choice, and none with as
  many inputs has a smaller total.
\<close>

theorem best_unshield_optimal:
  assumes "nat_sum utxos < 2 ^ 256"
  shows "case best_unshield_selection utxos token amount base of
      None \<Rightarrow> \<not> (\<exists>us. covering_choice utxos token amount base us \<and> (small_trees utxos token \<or> change_room base us))
    | Some b \<Rightarrow> covering_choice utxos token amount base (sel_utxos b) \<and> unat (sel_total b) = nat_sum (sel_utxos b) \<and>
        (\<forall>us. covering_choice utxos token amount base us \<and> (small_trees utxos token \<or> change_room base us) \<longrightarrow>
           length (sel_utxos b) < length us \<or>
           length (sel_utxos b) = length us \<and> (small_trees utxos token \<longrightarrow> nat_sum (sel_utxos b) \<le> nat_sum us))"
proof (cases "best_unshield_selection utxos token amount base")
  case None
  then have "\<not> covering_choice utxos token amount base us" if "small_trees utxos token \<or> change_room base us" for us
    using best_unshield_covers [OF _ assms that, of amount] by auto
  with None show ?thesis by auto
next
  case (Some b)
  note b = best_unshield_choice [OF Some assms]
  have "length (sel_utxos b) < length us \<or>
      length (sel_utxos b) = length us \<and> (small_trees utxos token \<longrightarrow> nat_sum (sel_utxos b) \<le> nat_sum us)"
    if "covering_choice utxos token amount base us" "small_trees utxos token \<or> change_room base us" for us
    using best_unshield_covers [OF that(1) assms that(2)] Some b(2) by auto
  with Some b show ?thesis by simp
qed

text \<open>A note for the examples.\<close>

definition sample_utxo :: "address \<Rightarrow> u32 \<Rightarrow> u64 \<Rightarrow> u256 \<Rightarrow> utxo" where
  "sample_utxo token tree position v =
     utxo_new sum_list \<lparr>note_token_hash = token_hash_of token, note_value = v, note_random = [], note_npk = 0\<rparr>
       tree position \<lparr>src_tx_hash = 0, src_block_number = 0, src_block_timestamp = 0\<rparr> TransactCommitment"

lemma sample_utxo_simps [simp]:
  "utxo_tree (sample_utxo token tree position v) = tree"
  "utxo_position (sample_utxo token tree position v) = position"
  "utxo_value (sample_utxo token tree position v) = v"
  "utxo_key (sample_utxo token tree position v) = (tree, position)"
  "note_token_hash (utxo_note (sample_utxo token tree position v)) = token_hash_of token"
  by (simp_all add: sample_utxo_def utxo_new_def utxo_value_def utxo_key_def)

lemma eligible_sample [simp]: "eligible token (sample_utxo token tree position v) \<longleftrightarrow> v \<noteq> 0"
  by (simp add: eligible_def)

lemma val_sample [simp]: "val (sample_utxo token tree position v) = unat v"
  by (simp add: val_def)

lemma small_trees_short: "length utxos \<le> MAX_CIRCUIT_INPUTS \<Longrightarrow> small_trees utxos token"
  unfolding small_trees_def tree_notes_def by (intro allI le_trans [OF length_filter_le])

lemma sample_covering: "covering_choice [sample_utxo 9 0 7 4, sample_utxo 9 0 0 5] 9 5 1 [sample_utxo 9 0 0 5]"
  unfolding covering_choice_def
  by (auto simp: tree_notes_def MAX_CIRCUIT_INPUTS_def MAX_SIGNATURE_INPUTS_def intro!: exI [of _ 0])

lemma best_unshield_optimal_witness:
  "\<exists>b. best_unshield_selection [sample_utxo 9 0 7 4, sample_utxo 9 0 0 5] 9 5 1 = Some b \<and>
     length (sel_utxos b) = 1 \<and> sel_total b = 5"
proof -
  let ?us = "[sample_utxo 9 0 7 4, sample_utxo 9 0 0 5]"
  have small: "small_trees ?us 9" by (rule small_trees_short) (simp add: MAX_CIRCUIT_INPUTS_def)
  have opt: "case best_unshield_selection ?us 9 5 1 of
      None \<Rightarrow> False
    | Some b \<Rightarrow> covering_choice ?us 9 5 1 (sel_utxos b) \<and> unat (sel_total b) = nat_sum (sel_utxos b) \<and>
        (length (sel_utxos b) < 1 \<or> length (sel_utxos b) = 1 \<and> nat_sum (sel_utxos b) \<le> 5)"
    using best_unshield_optimal [of ?us 9 5 1] small sample_covering
    by (cases "best_unshield_selection ?us 9 5 1") fastforce+
  then obtain b where b: "best_unshield_selection ?us 9 5 1 = Some b" "length (sel_utxos b) = 1" "unat (sel_total b) = 5"
    by (auto simp: covering_choice_def split: option.splits)
  from b(3) have "sel_total b = 5" by (intro unat_eqI) simp
  with b show ?thesis by simp
qed

text \<open>
  Claim C29. The maximal selection is worth at least as much as any notes of one tree that fit into
  one transaction, and it is itself such a choice; it exists as soon as there is one.
\<close>

theorem max_unshield_optimal:
  assumes "nat_sum utxos < 2 ^ 256"
    and "mset us \<subseteq># mset (tree_notes utxos token n)" "us \<noteq> []" "length us \<le> max_inputs_for_base_outputs base"
  shows "\<exists>b. max_unshield_selection_with_output_count utxos token base = Some b \<and>
    nat_sum us \<le> nat_sum (sel_utxos b) \<and> unat (sel_total b) = nat_sum (sel_utxos b) \<and> chunk_ok utxos token base b"
proof -
  from max_unshield_dominates [OF assms(2-4,1)] obtain b where
    b: "max_unshield_selection_with_output_count utxos token base = Some b" "nat_sum us \<le> unat (sel_total b)" by blast
  with most.select_value [OF _ b(1) assms(1)] max_unshield_ok [OF b(1)] show ?thesis by auto
qed

lemma max_unshield_optimal_witness:
  "\<exists>b. max_unshield_selection_with_output_count [sample_utxo 9 0 0 5, sample_utxo 9 0 7 4] 9 1 = Some b \<and>
     9 \<le> nat_sum (sel_utxos b)"
  using max_unshield_optimal [of "[sample_utxo 9 0 0 5, sample_utxo 9 0 7 4]"
      "[sample_utxo 9 0 0 5, sample_utxo 9 0 7 4]" 9 0 1]
  by (auto simp: tree_notes_def max_inputs_for_base_outputs_def MAX_CIRCUIT_INPUTS_def MAX_SIGNATURE_INPUTS_def)

text \<open>
  Claim C30. A total that \<open>max_tree_total_below\<close> returns is one that at most \<open>max_inputs\<close> notes of one
  tree reach strictly below the limit. Where no tree holds more than \<open>MAX_CIRCUIT_INPUTS\<close> notes of the
  token, it is the greatest such total, and \<open>None\<close> is returned exactly when there is none.
\<close>

theorem max_tree_total_below_optimal:
  assumes "nat_sum utxos < 2 ^ 256" "distinct (map utxo_key utxos)"
  shows "(max_tree_total_below utxos token limit k = Some t \<longrightarrow> unat t \<in> totals_below utxos token limit k) \<and>
    (small_trees utxos token \<longrightarrow>
      (max_tree_total_below utxos token limit k = Some t \<longleftrightarrow>
        unat t \<in> totals_below utxos token limit k \<and> (\<forall>x \<in> totals_below utxos token limit k. x \<le> unat t)) \<and>
      (max_tree_total_below utxos token limit k = None \<longleftrightarrow> totals_below utxos token limit k = {}))"
proof (intro conjI impI)
  assume "max_tree_total_below utxos token limit k = Some t"
  then show "unat t \<in> totals_below utxos token limit k" by (rule max_tree_total_below_sound [OF assms])
next
  assume small: "small_trees utxos token"
  let ?T = "totals_below utxos token limit k"
  note m = max_tree_total_below_max [OF assms small, of limit k]
  have "max_set ?T = {} \<longleftrightarrow> ?T = {}"
    using max_set_dominates [OF finite_totals_below, of _ utxos token limit k] by (auto simp: max_set_def) blast
  with m show "max_tree_total_below utxos token limit k = None \<longleftrightarrow> ?T = {}"
    by (auto split: option.splits)
  have "unat t \<in> max_set ?T \<longleftrightarrow> max_tree_total_below utxos token limit k = Some t"
    unfolding m [symmetric] by (auto split: option.splits) (metis unsigned_word_eqI)
  then show "max_tree_total_below utxos token limit k = Some t \<longleftrightarrow> unat t \<in> ?T \<and> (\<forall>x \<in> ?T. x \<le> unat t)"
    by (auto simp: max_set_def)
qed

lemma max_tree_total_below_optimal_witness:
  "max_tree_total_below [sample_utxo 9 0 0 5, sample_utxo 9 0 7 4] 9 9 2 = Some 5 \<and>
     5 \<in> totals_below [sample_utxo 9 0 0 5, sample_utxo 9 0 7 4] 9 9 2 \<and>
     totals_below [sample_utxo 9 0 0 5, sample_utxo 9 0 7 4] 9 9 2 \<subseteq> {.. 5}"
proof -
  let ?us = "[sample_utxo 9 0 0 5, sample_utxo 9 0 7 4]"
  have "max_tree_total_below ?us 9 9 2 = Some 5" by code_simp
  then show ?thesis
    using max_tree_total_below_optimal [of ?us 9 9 2 5] small_trees_short [of ?us]
    by (auto simp: MAX_CIRCUIT_INPUTS_def)
qed

end
