(* ===== verification/WalletPending.thy ===== *)
theory WalletPending
  imports WalletDelta SelectionOptimal
begin

text \<open>
  The local locks of \<open>sync-service/src/wallet/worker.rs\<close>: the inputs of a submitted transaction are
  kept out of further selections until the chain confirms the spend or the lock expires. The locks
  and permits around the state are left out; each operation runs on the state it holds.
\<close>

section \<open>Operations\<close>

definition wallet_utxo_stable_identity :: "wallet_utxo \<Rightarrow> bytes" where
  "wallet_utxo_stable_identity w =
     (let n = utxo_note (wu_utxo w); source = utxo_source (wu_utxo w)
      in fb32_bytes (src_tx_hash source) @ u256_to_be_bytes (note_token_hash n) @ u256_to_be_bytes (note_value n)
         @ note_random n @ u256_to_be_bytes (note_npk n))"

definition matches_local_utxo :: "wallet_pending_spent \<Rightarrow> wallet_utxo \<Rightarrow> bool" where
  "matches_local_utxo p w \<longleftrightarrow>
     wps_key p = (utxo_tree (wu_utxo w), utxo_position (wu_utxo w)) \<and>
     wps_stable_identity p = Some (wallet_utxo_stable_identity w)"

definition submitted :: "utxo \<Rightarrow> b256 option \<Rightarrow> u64 \<Rightarrow> wallet_pending_spent" where
  "submitted u tx_hash now =
     \<lparr>wps_tree = utxo_tree u, wps_position = utxo_position u,
      wps_stable_identity = Some (wallet_utxo_stable_identity (wallet_utxo_new u)), wps_tx_hash = tx_hash,
      wps_block_number = None, wps_block_timestamp = Some now\<rparr>"

definition LOCAL_PENDING_SPENT_TTL :: u64 where
  "LOCAL_PENDING_SPENT_TTL = 600"

definition unexpired :: "u64 \<Rightarrow> wallet_pending_spent \<Rightarrow> bool" where
  "unexpired now p \<longleftrightarrow>
     saturating_sub now (case wps_block_timestamp p of None \<Rightarrow> now | Some t \<Rightarrow> t) < LOCAL_PENDING_SPENT_TTL"

definition prune_local_pending_spent ::
  "wallet_pending_overlay \<Rightarrow> wallet_utxo list \<Rightarrow> u64 \<Rightarrow> wallet_pending_overlay \<times> bool" where
  "prune_local_pending_spent overlay confirmed now =
     (let kept = filter (\<lambda>p. unexpired now p \<and> \<not> list_ex (\<lambda>w. is_spent w \<and> matches_local_utxo p w) confirmed)
            (wpo_local_pending_spent overlay)
      in (overlay\<lparr>wpo_local_pending_spent := kept\<rparr>, length kept \<noteq> length (wpo_local_pending_spent overlay)))"

datatype mark_outcome = Marked | AlreadyProtected

text \<open>The first lock with the key and identity is updated in place.\<close>

fun renew :: "(u32 \<times> u64) \<Rightarrow> bytes \<Rightarrow> b256 option \<Rightarrow> u64 \<Rightarrow> wallet_pending_spent list \<Rightarrow> (wallet_pending_spent list \<times> bool) option" where
  "renew key identity tx_hash now [] = None"
| "renew key identity tx_hash now (p # ps) =
     (if wps_key p = key \<and> wps_stable_identity p = Some identity
      then Some (if wps_tx_hash p \<noteq> tx_hash
                 then (p\<lparr>wps_tx_hash := tx_hash, wps_block_timestamp := Some now\<rparr> # ps, True)
                 else if tx_hash \<noteq> None \<and> wps_block_timestamp p \<noteq> Some now
                 then (p\<lparr>wps_block_timestamp := Some now\<rparr> # ps, True)
                 else (p # ps, False))
      else map_option (\<lambda>(qs, marked). (p # qs, marked)) (renew key identity tx_hash now ps))"

definition mark_one ::
  "(u32 \<times> u64 \<times> bytes \<times> bool) set \<Rightarrow> b256 option \<Rightarrow> u64 \<Rightarrow> wallet_pending_spent list \<times> bool \<Rightarrow> utxo \<Rightarrow>
     wallet_pending_spent list \<times> bool" where
  "mark_one current tx_hash now s u =
     (case s of (locks, marked) \<Rightarrow>
        let key = (utxo_tree u, utxo_position u);
            lock = submitted u tx_hash now;
            identity = wallet_utxo_stable_identity (wallet_utxo_new u)
        in if (utxo_tree u, utxo_position u, identity, True) \<in> current
           then let kept = filter (\<lambda>p. wps_key p \<noteq> key \<or> wps_stable_identity p \<noteq> Some identity) locks
                in (kept, marked \<or> length kept \<noteq> length locks)
           else case renew key identity tx_hash now locks of
                  Some (locks', renewed) \<Rightarrow> (locks', marked \<or> renewed)
                | None \<Rightarrow> (locks @ [lock], True))"

definition current_identities :: "wallet_utxo list \<Rightarrow> (u32 \<times> u64 \<times> bytes \<times> bool) set" where
  "current_identities confirmed =
     set (map (\<lambda>w. (utxo_tree (wu_utxo w), utxo_position (wu_utxo w), wallet_utxo_stable_identity w, is_spent w)) confirmed)"

definition mark_local_pending_spent ::
  "wallet_utxo list \<Rightarrow> u64 \<Rightarrow> utxo list \<Rightarrow> b256 option \<Rightarrow> wallet_pending_overlay \<Rightarrow> wallet_pending_overlay \<times> mark_outcome" where
  "mark_local_pending_spent confirmed now utxos tx_hash overlay =
     (let current = current_identities confirmed;
          (overlay, pruned) = prune_local_pending_spent overlay confirmed now;
          (locks, marked) = foldl (mark_one current tx_hash now) (wpo_local_pending_spent overlay, pruned) utxos
      in (overlay\<lparr>wpo_local_pending_spent := sort_by (\<lambda>a b. cmp (wps_key a) (wps_key b)) locks\<rparr>,
          if marked then Marked else AlreadyProtected))"

definition expire_local_pending_spent ::
  "wallet_utxo list \<Rightarrow> u64 \<Rightarrow> wallet_pending_overlay \<Rightarrow> wallet_pending_overlay \<times> bool" where
  "expire_local_pending_spent confirmed expiry overlay = prune_local_pending_spent overlay confirmed expiry"

definition clear_local_pending_spent :: "wallet_pending_overlay \<Rightarrow> wallet_pending_overlay \<times> bool" where
  "clear_local_pending_spent overlay =
     (overlay\<lparr>wpo_local_pending_spent := []\<rparr>, wpo_local_pending_spent overlay \<noteq> [])"

section \<open>Locks\<close>

definition identity_of :: "utxo \<Rightarrow> bytes" where
  "identity_of u = wallet_utxo_stable_identity (wallet_utxo_new u)"

definition lock_of :: "utxo \<Rightarrow> wallet_pending_spent \<Rightarrow> bool" where
  "lock_of u p \<longleftrightarrow> wps_key p = utxo_key u \<and> wps_stable_identity p = Some (identity_of u)"

definition confirmed_spent :: "wallet_utxo list \<Rightarrow> utxo \<Rightarrow> bool" where
  "confirmed_spent confirmed u \<longleftrightarrow>
     (\<exists>w \<in> set confirmed. is_spent w \<and> utxo_key (wu_utxo w) = utxo_key u \<and> wallet_utxo_stable_identity w = identity_of u)"

text \<open>A lock taken or renewed by a submission at \<open>now\<close>.\<close>

definition locked_at :: "utxo \<Rightarrow> b256 \<Rightarrow> u64 \<Rightarrow> wallet_pending_spent list \<Rightarrow> bool" where
  "locked_at u h now locks \<longleftrightarrow> (\<exists>p \<in> set locks. lock_of u p \<and> wps_tx_hash p = Some h \<and> wps_block_timestamp p = Some now)"

lemma identity_spent [simp]: "wallet_utxo_stable_identity (w\<lparr>wu_spent := s\<rparr>) = wallet_utxo_stable_identity w"
  by (simp add: wallet_utxo_stable_identity_def)

lemma renew_None: "renew (utxo_key u) (identity_of u) h now locks = None \<longleftrightarrow> \<not> list_ex (lock_of u) locks"
  by (induction locks) (auto simp: lock_of_def)

lemma renew_Some:
  "renew (utxo_key u) (identity_of u) (Some h) now locks = Some (locks', b) \<Longrightarrow>
     \<exists>xs p ys. locks = xs @ p # ys \<and> lock_of u p \<and> locks' = xs @ p\<lparr>wps_tx_hash := Some h, wps_block_timestamp := Some now\<rparr> # ys"
proof (induction locks arbitrary: locks')
  case (Cons q qs)
  show ?case
  proof (cases "lock_of u q")
    case True
    with Cons.prems show ?thesis
      by (intro exI [of _ "[]"] exI [of _ q] exI [of _ qs]) (auto simp: lock_of_def split: if_splits)
  next
    case False
    with Cons.prems obtain l where "renew (utxo_key u) (identity_of u) (Some h) now qs = Some (l, b)" "locks' = q # l"
      by (auto simp: lock_of_def)
    with Cons.IH [of l] show ?thesis by (metis append_Cons)
  qed
qed simp

lemma locked_renewed:
  assumes "lock_of u p"
  shows "locked_at u h now (xs @ p\<lparr>wps_tx_hash := Some h, wps_block_timestamp := Some now\<rparr> # ys)"
    "locked_at v h now (xs @ p # ys) \<Longrightarrow> locked_at v h now (xs @ p\<lparr>wps_tx_hash := Some h, wps_block_timestamp := Some now\<rparr> # ys)"
  using assms by (auto simp: locked_at_def lock_of_def wps_key_def)

text \<open>One input of the submission: it is locked afterwards, unless its spend is confirmed.\<close>

lemma current_spent: "(utxo_tree u, utxo_position u, identity_of u, True) \<in> current_identities confirmed \<longleftrightarrow> confirmed_spent confirmed u"
  by (force simp: current_identities_def confirmed_spent_def utxo_key_def)

lemma mark_one_locks:
  assumes "mark_one (current_identities confirmed) (Some h) now (locks, b) u = (locks', b')"
  shows "\<not> confirmed_spent confirmed u \<Longrightarrow> locked_at u h now locks'"
    "\<not> confirmed_spent confirmed v \<Longrightarrow> locked_at v h now locks \<Longrightarrow> locked_at v h now locks'"
proof -
  let ?k = "(utxo_tree u, utxo_position u)"
  have one: "mark_one (current_identities confirmed) (Some h) now (locks, b) u =
     (if confirmed_spent confirmed u
      then let kept = filter (\<lambda>p. \<not> lock_of u p) locks in (kept, b \<or> length kept \<noteq> length locks)
      else case renew (utxo_key u) (identity_of u) (Some h) now locks of
             Some (locks', renewed) \<Rightarrow> (locks', b \<or> renewed) | None \<Rightarrow> (locks @ [submitted u (Some h) now], True))"
    by (simp add: mark_one_def Let_def current_spent flip: identity_of_def utxo_key_def)
      (simp add: lock_of_def utxo_key_def)
  have new: "locked_at u h now [submitted u (Some h) now]"
    by (simp add: locked_at_def lock_of_def submitted_def wps_key_def utxo_key_def identity_of_def)
  { assume u: "\<not> confirmed_spent confirmed u"
    with assms new show "locked_at u h now locks'"
      by (auto simp: one locked_renewed(1) dest!: renew_Some split: option.splits) (auto simp: locked_at_def) }
  { assume v: "\<not> confirmed_spent confirmed v" "locked_at v h now locks"
    have spent: "confirmed_spent confirmed v" if "confirmed_spent confirmed u" "lock_of u p" "lock_of v p" for p
      using that by (auto simp: confirmed_spent_def lock_of_def)
    show "locked_at v h now locks'"
    proof (cases "confirmed_spent confirmed u")
      case True
      with assms have "locks' = filter (\<lambda>p. \<not> lock_of u p) locks" by (simp add: one Let_def)
      moreover obtain p where "p \<in> set locks" "lock_of v p" "wps_tx_hash p = Some h" "wps_block_timestamp p = Some now"
        using v(2) by (auto simp: locked_at_def)
      moreover have "\<not> lock_of u p" using spent [OF True] v(1) calculation(3) by blast
      ultimately show ?thesis by (auto simp: locked_at_def)
    next
      case False
      with assms v(2) show ?thesis
        by (auto simp: one dest!: renew_Some intro: locked_renewed(2) split: option.splits) (auto simp: locked_at_def)
    qed }
qed

lemma mark_all_locks:
  assumes "foldl (mark_one (current_identities confirmed) (Some h) now) (locks, b) us = (locks', b')" "\<not> confirmed_spent confirmed v"
    and "v \<in> set us \<or> locked_at v h now locks"
  shows "locked_at v h now locks'"
  using assms
proof (induction us arbitrary: locks b)
  case (Cons u us)
  obtain l1 b1 where one: "mark_one (current_identities confirmed) (Some h) now (locks, b) u = (l1, b1)" by fastforce
  show ?case
    by (rule Cons.IH [of l1 b1]) (use Cons.prems one mark_one_locks [OF one] in auto)
qed simp

text \<open>
  Claim C13. The inputs of a submitted transaction stay locked: after \<open>mark_local_pending_spent\<close> with a
  transaction hash, a pruning at any later time within the lifetime of a lock keeps a lock with that
  hash for every input, unless the chain has confirmed that it is spent.
\<close>

theorem submitted_inputs_locked:
  assumes "mark_local_pending_spent confirmed now utxos (Some h) overlay = (overlay', outcome)"
    and "u \<in> set utxos" "\<not> confirmed_spent confirmed u" "\<not> confirmed_spent confirmed' u"
    and "now \<le> later" "unat later < unat now + 600"
  shows "\<exists>p \<in> set (wpo_local_pending_spent (fst (prune_local_pending_spent overlay' confirmed' later))).
    wps_key p = utxo_key u \<and> wps_stable_identity p = Some (wallet_utxo_stable_identity (wallet_utxo_new u)) \<and> wps_tx_hash p = Some h"
proof -
  obtain o1 pr locks b where o1: "prune_local_pending_spent overlay confirmed now = (o1, pr)"
    and f: "foldl (mark_one (current_identities confirmed) (Some h) now) (wpo_local_pending_spent o1, pr) utxos = (locks, b)"
    by (metis surj_pair)
  have loc: "wpo_local_pending_spent overlay' = sort_by (\<lambda>a b. cmp (wps_key a) (wps_key b)) locks"
    using assms(1) f by (auto simp: mark_local_pending_spent_def o1 Let_def)
  have "locked_at u h now locks" by (rule mark_all_locks [OF f assms(3)]) (use assms(2) in simp)
  then obtain p where p: "p \<in> set (wpo_local_pending_spent overlay')" "lock_of u p" "wps_tx_hash p = Some h" "wps_block_timestamp p = Some now"
    by (auto simp: loc locked_at_def)
  have "unat (later - now) < 600" using assms(5,6) by (simp add: unat_sub word_le_nat_alt)
  then have "unexpired later p"
    using assms(5) by (simp add: unexpired_def p(4) saturating_sub_def LOCAL_PENDING_SPENT_TTL_def word_less_nat_alt not_less)
  moreover have "\<not> list_ex (\<lambda>w. is_spent w \<and> matches_local_utxo p w) confirmed'"
    using assms(4) p(2) by (auto simp: list_ex_iff matches_local_utxo_def confirmed_spent_def lock_of_def utxo_key_def)
  ultimately show ?thesis using p
    by (auto simp: prune_local_pending_spent_def Let_def lock_of_def identity_of_def)
qed

lemma submitted_inputs_locked_witness:
  "\<exists>overlay' outcome. mark_local_pending_spent [] 100 [sample_utxo 9 0 0 5] (Some 7)
       \<lparr>wpo_new_utxos = [], wpo_pending_spent = [], wpo_local_pending_spent = []\<rparr> = (overlay', outcome) \<and>
     list_ex (\<lambda>p. wps_tx_hash p = Some 7) (wpo_local_pending_spent (fst (prune_local_pending_spent overlay' [] 699)))"
proof -
  obtain overlay' outcome where m: "mark_local_pending_spent [] 100 [sample_utxo 9 0 0 5] (Some 7)
       \<lparr>wpo_new_utxos = [], wpo_pending_spent = [], wpo_local_pending_spent = []\<rparr> = (overlay', outcome)" by (metis surj_pair)
  from submitted_inputs_locked [OF m, of "sample_utxo 9 0 0 5" "[]" 699] m show ?thesis
    by (auto simp: confirmed_spent_def list_ex_iff)
qed

end
