(* ===== verification/SelectionBatch.thy ===== *)
theory SelectionBatch
  imports SelectionOptimal
begin

text \<open>
  Batches of transactions. \<open>chunks_ok\<close> is the contract of the list of chunks and \<open>staged\<close> how they
  divide the amount; the lemmas show both for the greedy batch, for the maximal batch and for every
  candidate of the bounded search, and that no note is spent twice.
\<close>

section \<open>The contract of a batch\<close>

text \<open>
  The chunks of a batch, each valid for the notes the earlier ones left, with the output count of
  the first and of the continuation transactions.
\<close>

fun chunks_ok :: "utxo list \<Rightarrow> address \<Rightarrow> nat \<Rightarrow> nat \<Rightarrow> utxo_selection list \<Rightarrow> bool" where
  "chunks_ok utxos token base cont [] \<longleftrightarrow> True"
| "chunks_ok utxos token base cont (c # cs) \<longleftrightarrow>
     chunk_ok utxos token base c \<and> chunks_ok (remove_selected_utxos utxos (sel_utxos c)) token cont cont cs"

text \<open>Every chunk but the last stays below what is left of the amount; the last one covers it.\<close>

fun staged :: "u256 \<Rightarrow> nat \<Rightarrow> nat \<Rightarrow> utxo_selection list \<Rightarrow> bool" where
  "staged amount base cont [] \<longleftrightarrow> False"
| "staged amount base cont [c] \<longleftrightarrow> covers amount base c"
| "staged amount base cont (c # cs) \<longleftrightarrow> sel_total c < amount \<and> staged (amount - sel_total c) cont cont cs"

lemma staged_Cons: "cs \<noteq> [] \<Longrightarrow>
    staged amount base cont (c # cs) \<longleftrightarrow> sel_total c < amount \<and> staged (amount - sel_total c) cont cont cs"
  by (cases cs) auto

definition chunk_inputs :: "utxo_selection list \<Rightarrow> utxo list" where
  "chunk_inputs cs = concat (map sel_utxos cs)"

lemma chunk_inputs_simps [simp]:
  "chunk_inputs [] = []" "chunk_inputs (c # cs) = sel_utxos c @ chunk_inputs cs"
  "chunk_inputs (cs @ ds) = chunk_inputs cs @ chunk_inputs ds"
  by (simp_all add: chunk_inputs_def)

lemma chunks_ok_inputs: "chunks_ok utxos token base cont cs \<Longrightarrow> mset (chunk_inputs cs) \<subseteq># mset utxos"
proof (induction utxos token base cont cs rule: chunks_ok.induct)
  case (2 utxos token base cont c cs)
  then have "mset (chunk_inputs cs) \<subseteq># mset (remove_selected_utxos utxos (sel_utxos c))"
    "mset (sel_utxos c) \<subseteq># mset utxos" using chunk_okD(1) by auto
  from subset_mset.order_trans [OF subset_mset.add_left_mono [OF this(1)] selected_and_removed [OF this(2)]]
  show ?case by simp
qed simp

lemma tree_notes_remove: "mset (tree_notes (remove_selected_utxos utxos us) token n) \<subseteq># mset (tree_notes utxos token n)"
proof -
  have "tree_notes (remove_selected_utxos utxos us) token n =
      filter (\<lambda>u. utxo_key u \<notin> utxo_key ` set us) (tree_notes utxos token n)"
    unfolding tree_notes_def remove_selected_filter filter_filter by (rule filter_cong) auto
  then show ?thesis by simp
qed

lemma chunk_ok_remove: "chunk_ok (remove_selected_utxos utxos us) token base c \<Longrightarrow> chunk_ok utxos token base c"
  unfolding chunk_ok_def using tree_notes_remove subset_mset.order_trans by blast

lemma chunks_ok_remove_chunk:
  "chunks_ok utxos token base cont cs \<Longrightarrow> (\<And>c base. chunk_ok utxos token base c \<Longrightarrow> chunk_ok utxos0 token base c) \<Longrightarrow>
     i < length cs \<Longrightarrow> chunk_ok utxos0 token (if i = 0 then base else cont) (cs ! i)"
proof (induction utxos token base cont cs arbitrary: i rule: chunks_ok.induct)
  case (2 utxos token base cont c cs)
  show ?case
  proof (cases i)
    case 0
    with 2 show ?thesis by simp
  next
    case (Suc j)
    have "chunk_ok utxos0 token (if j = 0 then cont else cont) (cs ! j)"
      by (rule "2.IH") (use 2 Suc chunk_ok_remove in auto)
    with Suc show ?thesis by simp
  qed
qed simp

lemmas chunks_ok_nth = chunks_ok_remove_chunk [OF _ _ , where utxos0 = utxos and utxos = utxos for utxos]

text \<open>What a selection of chunks is worth, and that it covers the amount.\<close>

lemma chunks_ok_total:
  assumes "chunks_ok utxos token base cont cs" "nat_sum utxos < 2 ^ 256"
  shows "unat (sum_list (map sel_total cs)) = nat_sum (chunk_inputs cs)"
  using assms
proof (induction utxos token base cont cs rule: chunks_ok.induct)
  case (2 utxos token base cont c cs)
  have rem: "nat_sum (remove_selected_utxos utxos (sel_utxos c)) \<le> nat_sum utxos"
    by (rule nat_sum_submset) (simp add: remove_selected_filter)
  then have tl: "unat (sum_list (map sel_total cs)) = nat_sum (chunk_inputs cs)" using 2 by auto
  have le: "nat_sum (chunk_inputs (c # cs)) \<le> nat_sum utxos"
    by (rule nat_sum_submset [OF chunks_ok_inputs [OF "2.prems"(1)]])
  then have hd: "unat (sel_total c) = nat_sum (sel_utxos c)"
    using 2 by (auto simp: chunk_ok_def intro!: unat_value_sum)
  have "unat (sel_total c + sum_list (map sel_total cs)) = nat_sum (sel_utxos c) + nat_sum (chunk_inputs cs)"
    using hd tl le "2.prems"(2) by (simp add: unat_add_no_overflow)
  then show ?case by simp
qed simp

lemma staged_total:
  assumes "staged amount base cont cs" "chunks_ok utxos token base cont cs" "nat_sum utxos < 2 ^ 256"
  shows "unat amount \<le> nat_sum (chunk_inputs cs)" "i < length cs \<Longrightarrow> nat_sum (chunk_inputs (take i cs)) < unat amount \<or> amount = 0"
proof -
  show "unat amount \<le> nat_sum (chunk_inputs cs)" using assms
  proof (induction amount base cont cs arbitrary: utxos rule: staged.induct)
    case (2 amount base cont c)
    then have "unat (sel_total c) = nat_sum (sel_utxos c)"
      using chunks_ok_total [of utxos token base cont "[c]"] by simp
    with 2 show ?case by (auto simp: covers_def word_le_nat_alt)
  next
    case (3 amount base cont c d cs)
    let ?r = "remove_selected_utxos utxos (sel_utxos c)"
    have "nat_sum ?r \<le> nat_sum utxos" by (rule nat_sum_submset) (simp add: remove_selected_filter)
    then have "unat (amount - sel_total c) \<le> nat_sum (chunk_inputs (d # cs))"
      using 3 by (intro "3.IH" [of ?r]) auto
    moreover have "unat (sel_total c) = nat_sum (sel_utxos c)"
      using chunks_ok_total [of utxos token base cont "[c]"] 3 by simp
    ultimately show ?case using "3.prems"(1) by (simp add: unat_sub word_less_nat_alt word_le_nat_alt)
  qed simp
  show "nat_sum (chunk_inputs (take i cs)) < unat amount \<or> amount = 0" if "i < length cs" using assms that
  proof (induction amount base cont cs arbitrary: utxos i rule: staged.induct)
    case (2 amount base cont c)
    then show ?case by (simp add: unat_gt_0)
  next
    case (3 amount base cont c d cs)
    let ?r = "remove_selected_utxos utxos (sel_utxos c)"
    have val: "unat (sel_total c) = nat_sum (sel_utxos c)"
      using chunks_ok_total [of utxos token base cont "[c]"] 3 by simp
    show ?case
    proof (cases i)
      case (Suc j)
      have "nat_sum ?r \<le> nat_sum utxos" by (rule nat_sum_submset) (simp add: remove_selected_filter)
      then have "nat_sum (chunk_inputs (take j (d # cs))) < unat (amount - sel_total c) \<or> amount - sel_total c = 0"
        using 3 Suc by (intro "3.IH" [of ?r]) auto
      with Suc val "3.prems"(1) show ?thesis by (auto simp: unat_sub word_less_nat_alt word_le_nat_alt)
    qed (simp add: unat_gt_0)
  qed simp
qed

section \<open>The loops keep the contract\<close>

lemma distinct_keys_remove:
  "distinct (map utxo_key utxos) \<Longrightarrow> distinct (map utxo_key (remove_selected_utxos utxos us))"
  by (simp add: remove_selected_filter distinct_map_filter)

lemma max_batch_loop_ok:
  "max_batch_loop n token base cont utxos chunks tot = (chunks', tot') \<Longrightarrow>
     \<exists>cs. chunks' = chunks @ cs \<and> chunks_ok utxos token base cont cs \<and> length cs \<le> n \<and>
       tot' = tot + sum_list (map sel_total cs)"
proof (induction n token base cont utxos chunks tot rule: max_batch_loop.induct)
  case (2 n token base cont utxos chunks tot)
  show ?case
  proof (cases "max_unshield_selection_with_output_count utxos token base")
    case (Some c)
    then have nz: "sel_total c \<noteq> 0" and ok: "chunk_ok utxos token base c" using max_unshield_ok by auto
    from "2.prems" have "max_batch_loop n token cont cont (remove_selected_utxos utxos (sel_utxos c)) (chunks @ [c])
        (tot + sel_total c) = (chunks', tot')" using Some nz by simp
    from "2.IH" [OF Some nz this] obtain cs where
      "chunks' = (chunks @ [c]) @ cs" "chunks_ok (remove_selected_utxos utxos (sel_utxos c)) token cont cont cs"
      "length cs \<le> n" "tot' = tot + sel_total c + sum_list (map sel_total cs)" by blast
    then show ?thesis using ok by (intro exI [of _ "c # cs"]) (simp add: add.assoc)
  qed (use 2 in auto)
qed simp

lemma max_batch_ok:
  assumes "max_batch_selection utxos token first cont m = Some b"
  shows "chunks_ok utxos token first cont (bs_chunks b)" "bs_chunks b \<noteq> []" "length (bs_chunks b) \<le> m"
    "bs_total b = sum_list (map sel_total (bs_chunks b))"
proof -
  obtain chunks tot where loop: "max_batch_loop m token first cont utxos [] 0 = (chunks, tot)" by force
  with assms have b: "b = \<lparr>bs_chunks = chunks, bs_total = tot\<rparr>" "chunks \<noteq> []"
    by (auto simp: max_batch_selection_def split: if_splits)
  with max_batch_loop_ok [OF loop]
  show "chunks_ok utxos token first cont (bs_chunks b)" "bs_chunks b \<noteq> []" "length (bs_chunks b) \<le> m"
    "bs_total b = sum_list (map sel_total (bs_chunks b))" by auto
qed

text \<open>What every covering batch of the code is.\<close>

definition batch_ok :: "utxo list \<Rightarrow> address \<Rightarrow> u256 \<Rightarrow> nat \<Rightarrow> nat \<Rightarrow> nat \<Rightarrow> batch_utxo_selection \<Rightarrow> bool" where
  "batch_ok utxos token amount first cont m b \<longleftrightarrow>
     chunks_ok utxos token first cont (bs_chunks b) \<and> staged amount first cont (bs_chunks b) \<and>
     length (bs_chunks b) \<le> m \<and> bs_total b = sum_list (map sel_total (bs_chunks b))"

text \<open>The same for a batch that extends the chunks chosen so far.\<close>

definition extends_ok :: "utxo list \<Rightarrow> address \<Rightarrow> u256 \<Rightarrow> nat \<Rightarrow> nat \<Rightarrow> nat \<Rightarrow> utxo_selection list \<Rightarrow> u256 \<Rightarrow>
    batch_utxo_selection \<Rightarrow> bool" where
  "extends_ok utxos token amount base cont n chunks tot b \<longleftrightarrow>
     (\<exists>cs. bs_chunks b = chunks @ cs \<and> chunks_ok utxos token base cont cs \<and> staged amount base cont cs \<and>
        length cs \<le> n \<and> bs_total b = tot + sum_list (map sel_total cs))"

lemma extends_Nil: "extends_ok utxos token amount base cont n [] 0 b \<longleftrightarrow> batch_ok utxos token amount base cont n b"
  by (auto simp: extends_ok_def batch_ok_def)

lemma extends_final:
  assumes "chunk_ok utxos token base c" "covers amount base c"
  shows "extends_ok utxos token amount base cont (Suc n) chunks tot
    \<lparr>bs_chunks = chunks @ [c], bs_total = tot + sel_total c\<rparr>"
  using assms by (auto simp: extends_ok_def intro!: exI [of _ "[c]"])

lemma extends_partial:
  assumes "chunk_ok utxos token base c" "sel_total c < amount"
    "extends_ok (remove_selected_utxos utxos (sel_utxos c)) token (amount - sel_total c) cont cont n
      (chunks @ [c]) (tot + sel_total c) b"
  shows "extends_ok utxos token amount base cont (Suc n) chunks tot b"
proof -
  from assms(3) obtain cs where cs: "bs_chunks b = (chunks @ [c]) @ cs"
    "chunks_ok (remove_selected_utxos utxos (sel_utxos c)) token cont cont cs"
    "staged (amount - sel_total c) cont cont cs" "length cs \<le> n"
    "bs_total b = tot + sel_total c + sum_list (map sel_total cs)" by (auto simp: extends_ok_def)
  then have "cs \<noteq> []" by auto
  with cs assms(1,2) show ?thesis
    unfolding extends_ok_def by (intro exI [of _ "c # cs"]) (simp add: staged_Cons add.assoc)
qed

lemma greedy_loop_ok:
  "greedy_loop n token base cont utxos amount chunks tot = Some b \<Longrightarrow> distinct (map utxo_key utxos) \<Longrightarrow>
     extends_ok utxos token amount base cont n chunks tot b"
proof (induction n token base cont utxos amount chunks tot rule: greedy_loop.induct)
  case (2 n token base cont utxos amount chunks tot)
  show ?case
  proof (cases "best_unshield_selection utxos token amount base")
    case (Some c)
    with 2 best_unshield_ok [OF Some] show ?thesis by (auto intro: extends_final)
  next
    case None
    with "2.prems"(1) obtain m where m: "max_unshield_selection_with_output_count utxos token base = Some m"
      by (auto split: option.splits)
    then have nz: "sel_total m \<noteq> 0" and mok: "chunk_ok utxos token base m" using max_unshield_ok by auto
    let ?sel = "if sel_total m < amount then Some m else best_partial_selection_below_amount utxos token amount base"
    from "2.prems"(1) None m nz obtain c where c: "?sel = Some c"
      and rest: "greedy_loop n token cont cont (remove_selected_utxos utxos (sel_utxos c)) (amount - sel_total c)
        (chunks @ [c]) (tot + sel_total c) = Some b" by (auto split: option.splits if_splits)
    have "chunk_ok utxos token base c" "sel_total c < amount"
      using c mok best_partial_ok [OF "2.prems"(2)] by (auto split: if_splits)
    then show ?thesis
      using "2.IH" [OF None m nz c rest distinct_keys_remove [OF "2.prems"(2)]] by (rule extends_partial)
  qed
qed simp

lemma greedy_batched_ok:
  assumes "greedy_batched_selection utxos token amount first cont m = Some b" "distinct (map utxo_key utxos)"
  shows "batch_ok utxos token amount first cont m b"
  using greedy_loop_ok [OF assms(1) [unfolded greedy_batched_selection_def] assms(2)] by (simp add: extends_Nil)

section \<open>The candidates\<close>

lemma collect_single_subset:
  "set (collect_single_candidates f ks acc) \<subseteq> set acc \<union> (\<Union>k \<in> set ks. set (f k))"
proof (induction ks arbitrary: acc)
  case (Cons k ks)
  have "set (take n (acc @ f k)) \<subseteq> set acc \<union> set (f k)" for n
    using set_take_subset [of n "acc @ f k"] by simp
  with Cons.IH [of "acc @ f k"] show ?case by (auto simp: Let_def subset_iff)
qed simp

lemma single_candidates_ok:
  assumes "b \<in> set (single_transaction_selection_candidates utxos token amount base)"
  shows "chunk_ok utxos token base b" "covers amount base b"
proof -
  from assms collect_single_subset obtain k where
    "k \<in> set [1 ..< max_inputs_for_base_outputs base + 1]"
    "b \<in> set (unshield_selection_candidates_for_input_count utxos token amount base k)"
    unfolding single_transaction_selection_candidates_def by fastforce
  then obtain n where k: "0 < k" "k \<le> max_inputs_for_base_outputs base"
    "st_best (ss_run (ss_new (sort_search_candidates (tree_notes utxos token n)) amount k base)) = Some b"
    unfolding unshield_selection_candidates_for_input_count_def
    by (auto simp: set_map_filter token_utxos_values less_Suc_eq_le simp del: upt_Suc)
  from sel_ok_chunk [OF ss_run_sound [OF k(3)] k(1,2) refl]
  show "chunk_ok utxos token base b" "covers amount base b" by auto
qed

definition unique_keys :: "batch_utxo_selection list \<Rightarrow> bool" where
  "unique_keys bs \<longleftrightarrow> distinct (map batch_selection_key bs)"

lemma push_unique_set: "set (push_unique_batch_candidate bs b) \<subseteq> insert b (set bs)"
  by (auto simp: push_unique_batch_candidate_def)

lemma push_unique_keys: "unique_keys bs \<Longrightarrow> unique_keys (push_unique_batch_candidate bs b)"
  by (auto simp: push_unique_batch_candidate_def unique_keys_def list_ex_iff image_iff)

lemma foldl_push_unique:
  "set (foldl push_unique_batch_candidate bs cs) \<subseteq> set bs \<union> set cs"
  "unique_keys bs \<Longrightarrow> unique_keys (foldl push_unique_batch_candidate bs cs)"
  by (induction cs arbitrary: bs) (use push_unique_set push_unique_keys in fastforce)+

lemma push_final_ok:
  assumes "push_final_candidates chunks tot sels bs = (bs', full)"
  shows "set bs' \<subseteq> set bs \<union> (\<lambda>c. \<lparr>bs_chunks = chunks @ [c], bs_total = tot + sel_total c\<rparr>) ` set sels"
    and "unique_keys bs \<Longrightarrow> unique_keys bs'"
  using assms
  by (induction chunks tot sels bs arbitrary: bs' full rule: push_final_candidates.induct)
     (use push_unique_set push_unique_keys in \<open>fastforce simp: Let_def split: if_splits\<close>)+

lemma collect_multi_loop_inv:
  "(\<And>c st. c \<in> set cs \<Longrightarrow> I st \<Longrightarrow> I (f c st)) \<Longrightarrow> I st \<Longrightarrow> I (collect_multi_loop f cs st)"
  by (induction cs arbitrary: st) (auto simp: Let_def)

lemma collect_multi_keys:
  "unique_keys (fst st) \<Longrightarrow> unique_keys (fst (collect_multi n token first cont utxos amount tot chunks st))"
proof (induction n arbitrary: utxos amount tot chunks st)
  case (Suc n)
  let ?sels = "single_transaction_selection_candidates utxos token amount (if chunks = [] then first else cont)"
  obtain bs1 full where p: "push_final_candidates chunks tot ?sels (fst st) = (bs1, full)" by force
  from push_final_ok(2) [OF p] Suc.prems have "unique_keys (fst (bs1, snd st - 1))" by simp
  then have "unique_keys (fst (collect_multi_loop
      (\<lambda>c. collect_multi n token first cont (remove_selected_utxos utxos (sel_utxos c)) (amount - sel_total c)
        (tot + sel_total c) (chunks @ [c])) cs (bs1, snd st - 1)))" for cs
    by (rule collect_multi_loop_inv [of cs "\<lambda>st. unique_keys (fst st)", rotated]) (rule Suc.IH)
  with Suc.prems p \<open>unique_keys (fst (bs1, snd st - 1))\<close> show ?case by (auto simp: Let_def)
qed simp

lemma collect_multi_ok:
  "distinct (map utxo_key utxos) \<Longrightarrow>
     b \<in> set (fst (collect_multi n token first cont utxos amount tot chunks st)) \<Longrightarrow>
     b \<in> set (fst st) \<or> extends_ok utxos token amount (if chunks = [] then first else cont) cont n chunks tot b"
proof (induction n arbitrary: utxos amount tot chunks st b)
  case (Suc n)
  let ?base = "if chunks = [] then first else cont"
  let ?ok = "\<lambda>b. b \<in> set (fst st) \<or> extends_ok utxos token amount ?base cont (Suc n) chunks tot b"
  let ?sels = "single_transaction_selection_candidates utxos token amount ?base"
  let ?ps = "partial_transaction_selection_candidates utxos token amount ?base"
  let ?f = "\<lambda>c. collect_multi n token first cont (remove_selected_utxos utxos (sel_utxos c)) (amount - sel_total c)
        (tot + sel_total c) (chunks @ [c])"
  obtain bs1 full where p: "push_final_candidates chunks tot ?sels (fst st) = (bs1, full)" by force
  have bs1: "\<forall>b \<in> set (fst (bs1, snd st - 1)). ?ok b"
    unfolding fst_conv using push_final_ok(1) [OF p] single_candidates_ok by (blast intro: extends_final)
  have "\<forall>b \<in> set (fst (collect_multi_loop ?f ?ps (bs1, snd st - 1))). ?ok b"
  proof (rule collect_multi_loop_inv [of ?ps "\<lambda>st. \<forall>b \<in> set (fst st). ?ok b", rotated, OF bs1])
    fix c and st' :: "batch_utxo_selection list \<times> nat" assume c: "c \<in> set ?ps" and inv: "\<forall>b \<in> set (fst st'). ?ok b"
    note c' = partial_candidates_ok [OF Suc.prems(1) c]
    show "\<forall>b \<in> set (fst (?f c st')). ?ok b"
    proof
      fix b assume "b \<in> set (fst (?f c st'))"
      from Suc.IH [OF distinct_keys_remove [OF Suc.prems(1)] this] show "?ok b"
        using inv extends_partial [OF c'] by auto
    qed
  qed
  note loop = this
  have "b \<in> set (fst st) \<or> b \<in> set bs1 \<or> b \<in> set (fst (collect_multi_loop ?f ?ps (bs1, snd st - 1)))"
    using Suc.prems(2) p by (auto simp: Let_def split: if_splits)
  then show ?case using bs1 loop by auto
qed simp

section \<open>What the selection functions return\<close>

lemma batch_ok_mono: "batch_ok utxos token amount first cont m b \<Longrightarrow> m \<le> m' \<Longrightarrow> batch_ok utxos token amount first cont m' b"
  by (auto simp: batch_ok_def)

lemma single_batch_ok:
  "chunk_ok utxos token first c \<Longrightarrow> covers amount first c \<Longrightarrow>
     batch_ok utxos token amount first cont (Suc 0) \<lparr>bs_chunks = [c], bs_total = sel_total c\<rparr>"
  by (simp add: batch_ok_def)

lemma select_batched_cases:
  assumes "select_batched_utxos_with_limit utxos token amount up_to first cont m = Inr b" "distinct (map utxo_key utxos)"
  shows "batch_ok utxos token amount first cont (max 1 m) b \<or>
    up_to \<and> max_batch_selection utxos token first cont m = Some b \<and> bs_total b < amount"
proof (cases "best_unshield_selection utxos token amount first")
  case (Some c)
  then show ?thesis
    using assms(1) best_unshield_ok [OF Some] single_batch_ok [of utxos token first c amount cont]
      batch_ok_mono [of utxos token amount first cont 1 _ "max 1 m"]
    by (auto simp: select_batched_utxos_with_limit_def Let_def split: if_splits)
next
  case None
  show ?thesis
  proof (cases "greedy_batched_selection utxos token amount first cont m")
    case (Some c)
    with None assms(1) have "b = c" by (auto simp: select_batched_utxos_with_limit_def Let_def split: if_splits)
    with greedy_batched_ok [OF Some assms(2)] show ?thesis using batch_ok_mono by auto
  next
    case none: None
    with None assms(1) show ?thesis
      by (auto simp: select_batched_utxos_with_limit_def Let_def split: if_splits option.splits)
  qed
qed

lemma chunk_tree: "chunk_ok utxos token base c \<Longrightarrow> \<exists>n. \<forall>u \<in> set (sel_utxos c). utxo_tree u = n \<and> eligible token u"
  using chunk_okD(2,3) [of utxos token base c] by blast

lemma submset_distinct_keys:
  assumes "mset us \<subseteq># mset utxos" "distinct (map utxo_key utxos)"
  shows "distinct (map utxo_key us)" "set us \<subseteq> set utxos"
proof -
  show "set us \<subseteq> set utxos" using assms(1) by (metis mset_subset_eqD set_mset_mset subsetI)
  have "mset (map utxo_key us) \<subseteq># mset (map utxo_key utxos)" using assms(1) by (simp add: image_mset_subseteq_mono)
  then obtain zs where "mset (map utxo_key utxos) = mset (map utxo_key us @ zs)"
    by (metis ex_mset mset_append subset_mset.add_diff_inverse)
  from mset_eq_imp_distinct_iff [OF this] assms(2) show "distinct (map utxo_key us)" by simp
qed

text \<open>
  A batch that may be spent: at least one and at most \<open>m\<close> transactions, each of notes of one tree
  with the token, a nonzero value, within the circuit and signature limits; no note occurs twice,
  all are notes of the wallet, and the total is what they are worth.
\<close>

definition spendable_batch :: "utxo list \<Rightarrow> address \<Rightarrow> nat \<Rightarrow> nat \<Rightarrow> nat \<Rightarrow> batch_utxo_selection \<Rightarrow> bool" where
  "spendable_batch utxos token first cont m b \<longleftrightarrow>
     bs_chunks b \<noteq> [] \<and> length (bs_chunks b) \<le> m \<and>
     (\<forall>i < length (bs_chunks b). let us = sel_utxos (bs_chunks b ! i) in
        us \<noteq> [] \<and> length us \<le> MAX_CIRCUIT_INPUTS \<and>
        2 + length us + (if i = 0 then first else cont) \<le> MAX_SIGNATURE_INPUTS \<and>
        (\<exists>n. \<forall>u \<in> set us. utxo_tree u = n \<and> eligible token u)) \<and>
     distinct (map utxo_key (chunk_inputs (bs_chunks b))) \<and> set (chunk_inputs (bs_chunks b)) \<subseteq> set utxos \<and>
     unat (bs_total b) = nat_sum (chunk_inputs (bs_chunks b))"

lemma chunks_spendable:
  assumes "chunks_ok utxos token first cont (bs_chunks b)" "bs_chunks b \<noteq> []" "length (bs_chunks b) \<le> m"
    "bs_total b = sum_list (map sel_total (bs_chunks b))"
    "distinct (map utxo_key utxos)" "nat_sum utxos < 2 ^ 256"
  shows "spendable_batch utxos token first cont m b"
proof -
  have nth: "chunk_ok utxos token (if i = 0 then first else cont) (bs_chunks b ! i)" if "i < length (bs_chunks b)" for i
    using chunks_ok_nth [OF assms(1) _ that] by blast
  show ?thesis
    unfolding spendable_batch_def Let_def
  proof (intro conjI allI impI)
    fix i assume i: "i < length (bs_chunks b)"
    show "sel_utxos (bs_chunks b ! i) \<noteq> []" using nth [OF i] by (simp add: chunk_ok_def)
    show "length (sel_utxos (bs_chunks b ! i)) \<le> MAX_CIRCUIT_INPUTS" using chunk_okD(4) [OF nth [OF i]] .
    show "2 + length (sel_utxos (bs_chunks b ! i)) + (if i = 0 then first else cont) \<le> MAX_SIGNATURE_INPUTS"
      using chunk_okD(5) [OF nth [OF i]] .
    show "\<exists>n. \<forall>u \<in> set (sel_utxos (bs_chunks b ! i)). utxo_tree u = n \<and> eligible token u"
      using chunk_tree [OF nth [OF i]] .
  qed (use assms submset_distinct_keys [OF chunks_ok_inputs [OF assms(1)] assms(5)]
      chunks_ok_total [OF assms(1,6)] in auto)
qed

lemma batch_ok_spendable:
  assumes "batch_ok utxos token amount first cont m b" "distinct (map utxo_key utxos)" "nat_sum utxos < 2 ^ 256"
  shows "spendable_batch utxos token first cont m b" "amount \<le> bs_total b"
proof -
  have ne: "bs_chunks b \<noteq> []" using assms(1) by (auto simp: batch_ok_def)
  show "spendable_batch utxos token first cont m b"
    using assms ne by (intro chunks_spendable) (auto simp: batch_ok_def)
  then show "amount \<le> bs_total b"
    using assms staged_total(1) by (auto simp: batch_ok_def spendable_batch_def word_le_nat_alt)
qed

lemma max_batch_spendable:
  assumes "max_batch_selection utxos token first cont m = Some b" "distinct (map utxo_key utxos)" "nat_sum utxos < 2 ^ 256"
  shows "spendable_batch utxos token first cont m b"
  using max_batch_ok [OF assms(1)] assms(2,3) by (intro chunks_spendable) auto

text \<open>
  Claim C7. A batch that \<open>select_batched_utxos_with_limit\<close> returns can be spent (see
  \<open>spendable_batch\<close>): no note is spent twice, every transaction fits the circuit, and the total is
  the value of the notes. The batch covers the amount, unless spending up to the amount was asked
  for; then it is the maximal batch.
\<close>

theorem select_batched_sound:
  assumes "distinct (map utxo_key utxos)" "nat_sum utxos < 2 ^ 256"
    and "select_batched_utxos_with_limit utxos token amount up_to first cont m = Inr b"
  shows "spendable_batch utxos token first cont (max 1 m) b \<and>
    (amount \<le> bs_total b \<or>
     up_to \<and> bs_total b = max_batch_spendable_with_limit utxos token first cont m \<and> bs_total b < amount)"
proof -
  consider (ok) "batch_ok utxos token amount first cont (max 1 m) b"
    | (up) "up_to" "max_batch_selection utxos token first cont m = Some b" "bs_total b < amount"
    using select_batched_cases [OF assms(3,1)] by blast
  then show ?thesis
  proof cases
    case ok
    with batch_ok_spendable [OF ok assms(1,2)] show ?thesis by blast
  next
    case up
    have "spendable_batch utxos token first cont m b" by (rule max_batch_spendable [OF up(2) assms(1,2)])
    then have "spendable_batch utxos token first cont (max 1 m) b" by (auto simp: spendable_batch_def)
    with up show ?thesis by (simp add: max_batch_spendable_with_limit_def max_total_def)
  qed
qed

text \<open>A wallet of one note that covers the amount exactly.\<close>

lemma sample_selection:
  "\<exists>c. best_unshield_selection [sample_utxo 9 0 0 5] 9 5 1 = Some c"
proof -
  let ?us = "[sample_utxo 9 0 0 5]"
  have "covering_choice ?us 9 5 1 ?us"
    unfolding covering_choice_def
    by (auto simp: tree_notes_def MAX_CIRCUIT_INPUTS_def MAX_SIGNATURE_INPUTS_def intro!: exI [of _ 0])
  from best_unshield_covers [OF this] show ?thesis
    using small_trees_short [of ?us] by (auto simp: MAX_CIRCUIT_INPUTS_def)
qed

lemma sample_batch:
  "\<exists>b. select_batched_utxos_with_limit [sample_utxo 9 0 0 5] 9 5 False 1 1 2 = Inr b"
  using sample_selection by (auto simp: select_batched_utxos_with_limit_def Let_def)

lemma select_batched_sound_witness:
  "\<exists>b. select_batched_utxos_with_limit [sample_utxo 9 0 0 5] 9 5 False 1 1 2 = Inr b \<and>
     spendable_batch [sample_utxo 9 0 0 5] 9 1 1 2 b \<and> 5 \<le> bs_total b"
proof -
  obtain b where b: "select_batched_utxos_with_limit [sample_utxo 9 0 0 5] 9 5 False 1 1 2 = Inr b"
    using sample_batch by blast
  from select_batched_sound [OF _ _ b] b show ?thesis by (auto simp: max_def)
qed

text \<open>A batch for an amount, or with spending up to the amount the maximal batch below it.\<close>

definition batch_or_max ::
  "utxo list \<Rightarrow> address \<Rightarrow> u256 \<Rightarrow> bool \<Rightarrow> nat \<Rightarrow> nat \<Rightarrow> nat \<Rightarrow> batch_utxo_selection \<Rightarrow> bool" where
  "batch_or_max utxos token amount up_to first cont m b \<longleftrightarrow>
     batch_ok utxos token amount first cont m b \<or>
     up_to \<and> max_batch_selection utxos token first cont m = Some b \<and> bs_total b < amount"

lemma candidates_cases:
  assumes "distinct (map utxo_key utxos)" "0 < m"
    and "select_batched_utxo_candidates_with_limit utxos token amount up_to first cont m = Inr bs"
  shows "bs \<noteq> []" "unique_keys bs" "\<forall>b \<in> set bs. batch_or_max utxos token amount up_to first cont m b"
proof -
  from assms(2,3) obtain p where p: "select_batched_utxos_with_limit utxos token amount up_to first cont m = Inr p"
    and bs: "bs = foldl push_unique_batch_candidate (foldl push_unique_batch_candidate [p]
      (map (\<lambda>s. \<lparr>bs_chunks = [s], bs_total = sel_total s\<rparr>)
        (single_transaction_selection_candidates utxos token amount first)))
      (multi_transaction_selection_candidates utxos token amount first cont m)"
    by (auto simp: select_batched_utxo_candidates_with_limit_def bind_result_def Let_def split: sum.splits)
  have "batch_or_max utxos token amount up_to first cont m p"
    using select_batched_cases [OF p assms(1)] assms(2)
    by (auto simp: batch_or_max_def max_def Suc_le_eq split: if_splits)
  moreover have "batch_ok utxos token amount first cont m \<lparr>bs_chunks = [c], bs_total = sel_total c\<rparr>"
    if "c \<in> set (single_transaction_selection_candidates utxos token amount first)" for c
    by (rule batch_ok_mono [OF single_batch_ok]) (use that single_candidates_ok assms(2) in auto)
  moreover have "batch_ok utxos token amount first cont m b"
    if "b \<in> set (multi_transaction_selection_candidates utxos token amount first cont m)" for b
    using that collect_multi_ok [OF assms(1), where chunks = "[]" and tot = 0 and st = "([], _)"]
    by (fastforce simp: multi_transaction_selection_candidates_def extends_Nil split: if_splits)
  ultimately show "\<forall>b \<in> set bs. batch_or_max utxos token amount up_to first cont m b"
    unfolding bs batch_or_max_def by (auto dest!: subsetD [OF foldl_push_unique(1)])
  show "unique_keys bs" unfolding bs by (intro foldl_push_unique(2)) (simp add: unique_keys_def)
  have "foldl push_unique_batch_candidate ds cs \<noteq> []" if "ds \<noteq> []" for ds cs
    using that by (induction cs arbitrary: ds) (auto simp: push_unique_batch_candidate_def)
  then show "bs \<noteq> []" unfolding bs by blast
qed

lemma batch_or_max_spendable:
  assumes "batch_or_max utxos token amount up_to first cont m b" "distinct (map utxo_key utxos)" "nat_sum utxos < 2 ^ 256"
  shows "spendable_batch utxos token first cont m b" "amount \<le> bs_total b \<or> up_to"
  using assms batch_ok_spendable max_batch_spendable by (auto simp: batch_or_max_def)

text \<open>
  Claim C28. Every alternative that \<open>select_batched_utxo_candidates_with_limit\<close> offers can be spent
  within the transaction limit, it covers the amount unless spending up to the amount was asked for,
  and no two alternatives spend the same notes in the same chunks.
\<close>

theorem select_candidates_sound:
  assumes "distinct (map utxo_key utxos)" "nat_sum utxos < 2 ^ 256" "0 < m"
    and "select_batched_utxo_candidates_with_limit utxos token amount up_to first cont m = Inr bs"
  shows "bs \<noteq> [] \<and> distinct (map batch_selection_key bs) \<and>
    (\<forall>b \<in> set bs. spendable_batch utxos token first cont m b \<and> (amount \<le> bs_total b \<or> up_to))"
  using candidates_cases [OF assms(1,3,4), unfolded unique_keys_def] batch_or_max_spendable [OF _ assms(1,2)] by blast

lemma select_candidates_sound_witness:
  "\<exists>bs. select_batched_utxo_candidates_with_limit [sample_utxo 9 0 0 5] 9 5 False 1 1 2 = Inr bs \<and> bs \<noteq> [] \<and>
     list_all (spendable_batch [sample_utxo 9 0 0 5] 9 1 1 2) bs"
proof -
  let ?us = "[sample_utxo 9 0 0 5]"
  obtain bs where b: "select_batched_utxo_candidates_with_limit ?us 9 5 False 1 1 2 = Inr bs"
    using sample_batch by (auto simp: select_batched_utxo_candidates_with_limit_def Let_def)
  from select_candidates_sound [OF _ _ _ b] b show ?thesis by (auto simp: list_all_iff)
qed



end
