(* ===== verification/SpendPlan.thy ===== *)
theory SpendPlan
  imports SelectionBatch TxTypes
begin

text \<open>
  How a selection becomes amounts: the planning half of \<open>railgun-wallet/src/tx/builder.rs\<close>, namely
  \<open>spend_allocations\<close>, pinned inputs, the backtracking selection of composite legs and the selection
  of mixed actions with their proofless preview.
\<close>

section \<open>Allocations\<close>

record spend_allocation =
  sa_amount :: u256
  sa_change :: u256
  sa_fee :: "broadcaster_fee_output option"

definition fee_value :: "broadcaster_fee_output option \<Rightarrow> u256" where
  "fee_value fee = (case fee of None \<Rightarrow> 0 | Some f \<Rightarrow> bf_amount f)"

text \<open>The loop over the chunks; only the first one carries the fee. \<open>tot\<close> is \<open>selection.total\<close>.\<close>

fun allocate_chunks ::
  "u256 \<Rightarrow> broadcaster_fee_output option \<Rightarrow> utxo_selection list \<Rightarrow> u256 \<Rightarrow>
     build_error + spend_allocation list \<times> u256" where
  "allocate_chunks tot fee [] remaining = Inr ([], remaining)"
| "allocate_chunks tot fee (chunk # chunks) remaining =
     (let chunk_fee = fee_value fee
      in if sel_total chunk \<le> chunk_fee then Inl (InsufficientBalance tot)
         else
           let spendable = sel_total chunk - chunk_fee;
               amount = min spendable remaining
           in if amount = 0 then Inl (InsufficientBalance tot)
              else
                let change = spendable - amount
                in bind_result (allocate_chunks tot None chunks (remaining - amount)) (\<lambda>(allocations, rest).
                     Inr (\<lparr>sa_amount = amount, sa_change = change, sa_fee = fee\<rparr> # allocations, rest)))"

definition spend_allocations ::
  "batch_utxo_selection \<Rightarrow> u256 \<Rightarrow> u256 \<Rightarrow> broadcaster_fee_output option \<Rightarrow> bool \<Rightarrow>
     build_error + spend_allocation list" where
  "spend_allocations selection requested_amount fee_amount broadcaster_fee spend_up_to =
     (if bs_total selection < fee_amount then Inl (InsufficientBalance (bs_total selection))
      else
        let spendable_after_fee = bs_total selection - fee_amount
        in if \<not> spend_up_to \<and> spendable_after_fee < requested_amount
             then Inl (InsufficientBalance (bs_total selection))
           else
             let amount = (if spend_up_to then min spendable_after_fee requested_amount else requested_amount)
             in if amount = 0 then Inl (InsufficientBalance (bs_total selection))
                else bind_result (allocate_chunks (bs_total selection) broadcaster_fee (bs_chunks selection) amount)
                       (\<lambda>(allocations, remaining).
                          if remaining = 0 then Inr allocations
                          else Inl (InsufficientBalance (bs_total selection))))"

section \<open>Pinned inputs\<close>

fun resolve_pinned_loop ::
  "(selected_input_identity, utxo) btree_map \<Rightarrow> selected_input_identity list \<Rightarrow>
     selected_input_identity list \<Rightarrow> build_error + utxo list" where
  "resolve_pinned_loop available seen [] = Inr []"
| "resolve_pinned_loop available seen (identity # identities) =
     (if identity \<in> set seen then Inl (DuplicatePinnedInput (fst identity) (snd identity))
      else
        bind_result (ok_or (bt_get available identity) (PinnedInputUnavailable (fst identity) (snd identity)))
          (\<lambda>u. bind_result (resolve_pinned_loop available (identity # seen) identities) (\<lambda>pinned. Inr (u # pinned))))"

definition resolve_pinned_utxos ::
  "utxo list \<Rightarrow> selected_input_identity list \<Rightarrow> build_error + utxo list" where
  "resolve_pinned_utxos utxos pinned_inputs =
     (let available = foldl (\<lambda>m u. bt_insert (utxo_key u) u m) [] utxos
      in resolve_pinned_loop available [] pinned_inputs)"

section \<open>Composite legs\<close>

definition retain_preferred_selection_error :: "build_error option \<Rightarrow> build_error \<Rightarrow> build_error option" where
  "retain_preferred_selection_error current candidate =
     Some (case current of
        None \<Rightarrow> candidate
      | Some cur \<Rightarrow>
          (case candidate of
             TooManyBatchTransactions _ _ \<Rightarrow> candidate
           | InsufficientBalance candidate_max \<Rightarrow>
               (case cur of
                  InsufficientBalance current_max \<Rightarrow> InsufficientBalance (max current_max candidate_max)
                | TooManyBatchTransactions _ _ \<Rightarrow> cur
                | _ \<Rightarrow> candidate)
           | _ \<Rightarrow> candidate))"

definition leg_fee_options ::
  "composite_unshield_leg \<Rightarrow> broadcaster_fee_output option \<Rightarrow> nat option \<Rightarrow> broadcaster_fee_output option list" where
  "leg_fee_options leg embedded_fee embedded_fee_leg_index =
     (case embedded_fee of
        Some fee \<Rightarrow>
          if embedded_fee_leg_index = None \<and> leg_token_address leg = bf_token_address fee
          then [Some fee, None] else [None]
      | None \<Rightarrow> [None])"

definition composite_build_leg_order :: "nat \<Rightarrow> nat option \<Rightarrow> nat list" where
  "composite_build_leg_order leg_count embedded_fee_leg_index =
     (case option_filter (\<lambda>index. index < leg_count) embedded_fee_leg_index of None \<Rightarrow> [] | Some index \<Rightarrow> [index])
     @ filter (\<lambda>index. Some index \<noteq> embedded_fee_leg_index) [0 ..< leg_count]"

text \<open>
  A loop that returns the first success and otherwise goes on with the error kept so far.
\<close>

fun first_ok :: "('a \<Rightarrow> 'e option \<Rightarrow> 'e option + 'r) \<Rightarrow> 'a list \<Rightarrow> 'e option \<Rightarrow> 'e option + 'r" where
  "first_ok f [] last_error = Inl last_error"
| "first_ok f (x # xs) last_error =
     (case f x last_error of Inr r \<Rightarrow> Inr r | Inl last_error' \<Rightarrow> first_ok f xs last_error')"

definition remove_batch :: "utxo list \<Rightarrow> batch_utxo_selection \<Rightarrow> utxo list" where
  "remove_batch utxos candidate =
     foldl (\<lambda>us chunk. remove_selected_utxos us (sel_utxos chunk)) utxos (bs_chunks candidate)"

text \<open>
  \<open>rest\<close> is the recursive call for the following legs: it gets the notes left, the number of
  transactions used, the selections so far and the leg that carries the fee. The pushes are undone
  on failure, so only the error of a failed branch is kept.
\<close>

definition select_leg ::
  "(utxo list \<Rightarrow> nat \<Rightarrow> batch_utxo_selection list \<Rightarrow> nat option \<Rightarrow>
      build_error + batch_utxo_selection list \<times> nat option) \<Rightarrow>
     utxo list \<Rightarrow> composite_unshield_leg \<Rightarrow> broadcaster_fee_output option \<Rightarrow> bool \<Rightarrow> nat \<Rightarrow> nat \<Rightarrow>
     batch_utxo_selection list \<Rightarrow> nat option \<Rightarrow> nat \<Rightarrow>
     broadcaster_fee_output option \<Rightarrow> build_error option \<Rightarrow>
     build_error option + batch_utxo_selection list \<times> nat option" where
  "select_leg rest utxos leg embedded_fee spend_up_to leg_index used_transaction_count selections
       embedded_fee_leg_index remaining_slots leg_fee last_error =
     (let first_base_output_count = 1 + (if leg_fee \<noteq> None then 1 else 0);
          target_amount = leg_amount leg + fee_value leg_fee
      in case select_batched_utxo_candidates_with_limit utxos (leg_token_address leg) target_amount
                spend_up_to first_base_output_count 1 remaining_slots of
           Inl error \<Rightarrow>
             Inl (case (if remaining_slots < MAX_BATCH_TRANSACTIONS
                        then select_batched_utxos_with_limit utxos (leg_token_address leg) target_amount
                               spend_up_to first_base_output_count 1 MAX_BATCH_TRANSACTIONS
                        else Inl error) of
                    Inr required \<Rightarrow>
                      if remaining_slots < length (bs_chunks required)
                      then retain_preferred_selection_error last_error
                             (TooManyBatchTransactions (used_transaction_count + length (bs_chunks required))
                                MAX_BATCH_TRANSACTIONS)
                      else retain_preferred_selection_error last_error error
                  | Inl _ \<Rightarrow> retain_preferred_selection_error last_error error)
         | Inr candidates \<Rightarrow>
             first_ok (\<lambda>candidate last_error.
                 case rest (remove_batch utxos candidate)
                        (used_transaction_count + length (bs_chunks candidate)) (selections @ [candidate])
                        (if leg_fee \<noteq> None then Some leg_index else embedded_fee_leg_index) of
                   Inr r \<Rightarrow> Inr r
                 | Inl error \<Rightarrow> Inl (retain_preferred_selection_error last_error error))
               candidates last_error)"

primrec select_composite_leg_selections_inner ::
  "composite_unshield_leg list \<Rightarrow> broadcaster_fee_output option \<Rightarrow> bool list \<Rightarrow> nat \<Rightarrow>
     utxo list \<Rightarrow> nat \<Rightarrow> batch_utxo_selection list \<Rightarrow> nat option \<Rightarrow>
     build_error + batch_utxo_selection list \<times> nat option" where
  "select_composite_leg_selections_inner [] embedded_fee spend_up_to_by_leg leg_index utxos
       used_transaction_count selections embedded_fee_leg_index =
     (if embedded_fee \<noteq> None \<and> embedded_fee_leg_index = None then Inl (InsufficientBalance 0)
      else Inr (selections, embedded_fee_leg_index))"
| "select_composite_leg_selections_inner (leg # legs) embedded_fee spend_up_to_by_leg leg_index utxos
       used_transaction_count selections embedded_fee_leg_index =
     (let spend_up_to = (if leg_index < length spend_up_to_by_leg then spend_up_to_by_leg ! leg_index else False);
          remaining_slots = MAX_BATCH_TRANSACTIONS - used_transaction_count
      in if remaining_slots = 0
           then Inl (TooManyBatchTransactions (used_transaction_count + 1) MAX_BATCH_TRANSACTIONS)
         else
           case first_ok
                  (select_leg (select_composite_leg_selections_inner legs embedded_fee spend_up_to_by_leg (leg_index + 1))
                     utxos leg embedded_fee spend_up_to leg_index used_transaction_count selections
                     embedded_fee_leg_index remaining_slots)
                  (leg_fee_options leg embedded_fee embedded_fee_leg_index) None of
             Inr r \<Rightarrow> Inr r
           | Inl last_error \<Rightarrow> Inl (case last_error of None \<Rightarrow> InsufficientBalance 0 | Some e \<Rightarrow> e))"

definition select_composite_leg_selections_with_policy ::
  "utxo list \<Rightarrow> composite_unshield_leg list \<Rightarrow> broadcaster_fee_output option \<Rightarrow> bool list \<Rightarrow> nat \<Rightarrow>
     build_error + batch_utxo_selection list \<times> nat option" where
  "select_composite_leg_selections_with_policy utxos legs embedded_fee spend_up_to_by_leg used_transaction_count =
     select_composite_leg_selections_inner legs embedded_fee spend_up_to_by_leg 0 utxos
       used_transaction_count [] None"

definition select_composite_leg_selections ::
  "utxo list \<Rightarrow> composite_unshield_leg list \<Rightarrow> broadcaster_fee_output option \<Rightarrow> bool \<Rightarrow> nat \<Rightarrow>
     build_error + batch_utxo_selection list \<times> nat option" where
  "select_composite_leg_selections utxos legs embedded_fee spend_up_to used_transaction_count =
     select_composite_leg_selections_with_policy utxos legs embedded_fee (replicate (length legs) spend_up_to)
       used_transaction_count"

section \<open>Mixed actions\<close>

definition tb_composite_execution ::
  "transaction_builder \<Rightarrow> bool \<Rightarrow> composite_adapter option \<Rightarrow> build_error + composite_execution" where
  "tb_composite_execution builder uses_adapter adapter =
     (case adapter of
        None \<Rightarrow> if uses_adapter then Inl MissingCompositeAdapter else Inr (Direct (tb_railgun_contract builder))
      | Some (RelayAdaptAdapter contract) \<Rightarrow>
          if uses_adapter then Inr (RelayAdaptExecution contract) else Inl UnusedRelayAdapt
      | Some (ExecutorAdapter context) \<Rightarrow>
          if uses_adapter \<and> tb_chain_type builder = 0 \<and> ec_chain_id context = tb_chain_id builder
          then Inr (ExecutorExecution context) else Inl InvalidExecutorContext)"

record mixed_private_action_selection_plan =
  msp_selections :: "batch_utxo_selection list"
  msp_preview :: mixed_private_action_preview

definition is_executor_adapter :: "composite_adapter option \<Rightarrow> bool" where
  "is_executor_adapter a = (case a of Some (ExecutorAdapter _) \<Rightarrow> True | _ \<Rightarrow> False)"

definition shapes_of :: "batch_utxo_selection \<Rightarrow> spend_allocation list \<Rightarrow> bool \<Rightarrow> transaction_shape list" where
  "shapes_of selection allocations has_unshield =
     map (\<lambda>(chunk, allocation).
         \<lparr>ts_input_count = length (sel_utxos chunk),
          ts_output_count = 1 + (if sa_change allocation \<noteq> 0 then 1 else 0), ts_has_unshield = has_unshield\<rparr>)
       (zip (bs_chunks selection) allocations)"

definition send_leg :: "mixed_private_send \<Rightarrow> composite_unshield_leg" where
  "send_leg send =
     \<lparr>leg_token_address = mps_token_address send, leg_amount = mps_amount send,
      leg_recipient = PublicRecipient 0, leg_role = OtherLeg\<rparr>"

definition sort_unstable :: "selected_input_identity list \<Rightarrow> selected_input_identity list" where
  "sort_unstable ids = sort_by cmp ids"

text \<open>The shapes of all transactions: private sends first, then the public unshields.\<close>

definition mixed_transactions ::
  "mixed_private_action_request \<Rightarrow> batch_utxo_selection list \<Rightarrow> build_error + transaction_shape list" where
  "mixed_transactions request selections =
     bind_result (map_result (\<lambda>(send_index, send).
         let selection = selections ! (length (mar_public_unshields request) + send_index)
         in bind_result (spend_allocations selection (mps_amount send) 0 None (mar_spend_up_to request))
              (\<lambda>allocations. Inr (shapes_of selection allocations False)))
       (enumerate 0 (mar_private_sends request))) (\<lambda>sends.
     bind_result (map_result (\<lambda>(unshield_index, leg).
         let selection = selections ! unshield_index
         in bind_result (spend_allocations selection (leg_amount leg) 0 None False)
              (\<lambda>allocations. Inr (shapes_of selection allocations True)))
       (enumerate 0 (mar_public_unshields request))) (\<lambda>unshields.
       Inr (concat sends @ concat unshields)))"

definition mixed_relay_call_count :: "mixed_private_action_request \<Rightarrow> nat" where
  "mixed_relay_call_count request =
     length (mar_executor_calls request)
     + (case mar_relay_actions request of None \<Rightarrow> 0 | Some actions \<Rightarrow> length (cra_calls actions))"

text \<open>The preview of the selected transactions, and the comparison with a pinned rebuild.\<close>

definition mixed_preview ::
  "composite_execution \<Rightarrow> nat \<Rightarrow> bool \<Rightarrow> batch_utxo_selection list \<Rightarrow> transaction_shape list \<Rightarrow>
     mixed_private_action_preview" where
  "mixed_preview execution relay_call_count uses_relay selections transactions =
     (let public_output_count = length (filter ts_has_unshield transactions);
          private_output_count = sum_list (map ts_output_count transactions) - public_output_count;
          selected_inputs = sort_unstable (map utxo_key
            (concat (map (\<lambda>selection. concat (map sel_utxos (bs_chunks selection))) selections)))
      in \<lparr>map_selected_inputs = selected_inputs,
          map_shape = \<lparr>cps_execution = execution,
            cps_transaction_count = sum_list (map (\<lambda>selection. length (bs_chunks selection)) selections),
            cps_input_count = length selected_inputs,
            cps_private_output_count = private_output_count,
            cps_public_output_count = public_output_count,
            cps_relay_call_count = relay_call_count, cps_uses_relay_adapt = uses_relay\<rparr>,
          map_transactions = transactions\<rparr>)"

definition check_rebuild ::
  "mixed_private_action_rebuild_constraint option \<Rightarrow> mixed_private_action_preview \<Rightarrow>
     build_error + mixed_private_action_preview" where
  "check_rebuild rebuild preview =
     (case rebuild of
        None \<Rightarrow> Inr preview
      | Some constraint \<Rightarrow>
          let expected_inputs = sort_unstable (mrc_selected_inputs constraint)
          in if map_selected_inputs preview \<noteq> expected_inputs
               then Inl (PinnedInputsChanged expected_inputs (map_selected_inputs preview))
             else if map_shape preview \<noteq> mrc_expected_shape constraint
               then Inl (CompositePlanShapeChanged (mrc_expected_shape constraint) (map_shape preview))
             else Inr preview)"

definition select_mixed_private_action_plan ::
  "transaction_builder \<Rightarrow> utxo list \<Rightarrow> mixed_private_action_request \<Rightarrow>
     build_error + mixed_private_action_selection_plan" where
  "select_mixed_private_action_plan builder utxos request =
     (if mar_private_sends request = [] \<and> mar_public_unshields request = []
        then Inl EmptyMixedPrivateActionRequest
      else if mar_executor_calls request \<noteq> [] \<and> \<not> is_executor_adapter (mar_adapter request)
        then Inl InvalidExecutorContext
      else if mar_executor_calls request \<noteq> [] \<and> mar_relay_actions request \<noteq> None
        then Inl ConflictingExecutorActions
      else
        let has_relay_adapt_leg = list_ex (\<lambda>leg. uses_relay_adapt (leg_recipient leg)) (mar_public_unshields request);
            relay_call_count = mixed_relay_call_count request
        in if has_relay_adapt_leg \<and> relay_call_count = 0 then Inl MissingCompositeRelayActions
           else
             let uses_relay = has_relay_adapt_leg \<or> 0 < relay_call_count \<or> is_executor_adapter (mar_adapter request)
             in bind_result (tb_composite_execution builder uses_relay (mar_adapter request)) (\<lambda>execution.
                bind_result (case mar_rebuild request of None \<Rightarrow> Inr utxos
                    | Some constraint \<Rightarrow> resolve_pinned_utxos utxos (mrc_selected_inputs constraint)) (\<lambda>candidate_utxos.
                let selection_legs = mar_public_unshields request @ map send_leg (mar_private_sends request);
                    spend_up_to_by_leg = replicate (length (mar_public_unshields request)) False
                      @ replicate (length (mar_private_sends request)) (mar_spend_up_to request)
                in bind_result
                     (case select_composite_leg_selections_with_policy candidate_utxos selection_legs None
                             spend_up_to_by_leg 0 of
                        Inl (InsufficientBalance most) \<Rightarrow>
                          Inl (if mar_rebuild request \<noteq> None then PinnedInputsInsufficient most
                               else InsufficientBalance most)
                      | other \<Rightarrow> other) (\<lambda>(selections, _).
                   bind_result (mixed_transactions request selections) (\<lambda>transactions.
                     bind_result (check_rebuild (mar_rebuild request)
                         (mixed_preview execution relay_call_count uses_relay selections transactions)) (\<lambda>preview.
                       Inr \<lparr>msp_selections = selections, msp_preview = preview\<rparr>))))))"

definition preview_mixed_private_action_plan ::
  "transaction_builder \<Rightarrow> utxo list \<Rightarrow> mixed_private_action_request \<Rightarrow>
     build_error + mixed_private_action_preview" where
  "preview_mixed_private_action_plan builder utxos request =
     bind_result (select_mixed_private_action_plan builder utxos request) (\<lambda>plan. Inr (msp_preview plan))"

end
