(* ===== verification/SpendSpec.thy ===== *)
theory SpendSpec
  imports SpendPlan
begin

text \<open>
  What the planning functions promise: allocations balance with the notes they spend and succeed on
  selected batches, every transaction has room for its outputs, composite legs never share a note,
  and the proofless preview describes the transactions of the plan.
\<close>

section \<open>Allocations balance\<close>

definition alloc_fee :: "broadcaster_fee_output option \<Rightarrow> nat \<Rightarrow> broadcaster_fee_output option" where
  "alloc_fee fee i = (if i = 0 then fee else None)"

definition chunk_total_sum :: "utxo_selection list \<Rightarrow> nat" where
  "chunk_total_sum cs = sum_list (map (\<lambda>c. unat (sel_total c)) cs)"

lemma chunk_total_sum_simps [simp]:
  "chunk_total_sum [] = 0" "chunk_total_sum (c # cs) = unat (sel_total c) + chunk_total_sum cs"
  by (simp_all add: chunk_total_sum_def)

lemma fee_value_simps [simp]: "fee_value None = 0" "fee_value (Some f) = bf_amount f"
  by (simp_all add: fee_value_def)

text \<open>What each chunk holds is what it pays, keeps as change and gives as the fee.\<close>

definition balanced :: "utxo_selection \<Rightarrow> spend_allocation \<Rightarrow> bool" where
  "balanced c a \<longleftrightarrow> sa_amount a \<noteq> 0 \<and>
     unat (sel_total c) = unat (sa_amount a) + unat (sa_change a) + unat (fee_value (sa_fee a))"

lemma unat_min: "unat (min a b) = min (unat a) (unat (b :: 'a::len word))"
  by (simp add: min_def word_le_nat_alt)

lemma unat_sub_less: "a < b \<Longrightarrow> unat (b - a) = unat b - unat (a :: 'a::len word)"
  by (simp add: unat_sub less_imp_le)

lemma allocate_ConsE:
  assumes "allocate_chunks tot fee (c # cs) rem = Inr (as, r)"
  obtains sp am as' where "sp = sel_total c - fee_value fee" "am = min sp rem" "fee_value fee < sel_total c" "am \<noteq> 0"
    "allocate_chunks tot None cs (rem - am) = Inr (as', r)"
    "as = \<lparr>sa_amount = am, sa_change = sp - am, sa_fee = fee\<rparr> # as'"
  using assms by (auto simp: Let_def not_le split: if_splits)

lemma allocate_balanced:
  "allocate_chunks tot fee cs rem = Inr (as, r) \<Longrightarrow>
     list_all2 balanced cs as \<and> unat rem = sum_list (map (\<lambda>a. unat (sa_amount a)) as) + unat r \<and>
     (\<forall>i < length as. sa_fee (as ! i) = alloc_fee fee i)"
proof (induction cs arbitrary: fee rem as r)
  case (Cons c cs)
  from Cons.prems obtain sp am as' where sp: "sp = sel_total c - fee_value fee" and am: "am = min sp rem"
    and fee: "fee_value fee < sel_total c" and nz: "am \<noteq> 0"
    and as': "allocate_chunks tot None cs (rem - am) = Inr (as', r)"
    and as: "as = \<lparr>sa_amount = am, sa_change = sp - am, sa_fee = fee\<rparr> # as'" by (rule allocate_ConsE)
  note IH = Cons.IH [OF as']
  have "unat (rem - am) = unat rem - unat am" "unat am \<le> unat rem" by (simp_all add: am unat_sub unat_min)
  moreover have "balanced c \<lparr>sa_amount = am, sa_change = sp - am, sa_fee = fee\<rparr>"
    using nz unat_sub_less [OF fee] unat_sub [of am sp] fee
    by (simp add: balanced_def am sp unat_min word_less_nat_alt)
  moreover have "sa_fee (as ! i) = alloc_fee fee i" if "i < length as" for i
    using IH that by (cases i) (auto simp: as alloc_fee_def)
  ultimately show ?case using IH by (auto simp: as)
qed simp

lemma allocate_progress:
  assumes "cs \<noteq> []" "\<forall>c \<in> set cs. sel_total c \<noteq> 0" "fee_value fee < sel_total (hd cs)"
    "chunk_total_sum (butlast cs) < unat rem + unat (fee_value fee)" "unat rem + unat (fee_value fee) \<le> chunk_total_sum cs"
    "rem \<noteq> 0"
  shows "\<exists>as. allocate_chunks tot fee cs rem = Inr (as, 0)"
  using assms
proof (induction cs arbitrary: fee rem)
  case (Cons c cs)
  let ?sp = "sel_total c - fee_value fee"
  have sp: "unat ?sp = unat (sel_total c) - unat (fee_value fee)" "?sp \<noteq> 0" "unat (fee_value fee) < unat (sel_total c)"
    using Cons.prems(3) by (auto simp: unat_sub_less) (simp add: word_less_nat_alt)
  show ?case
  proof (cases "cs = []")
    case True
    then have "rem \<le> ?sp" using Cons.prems(5) sp by (simp add: word_le_nat_alt)
    with True Cons.prems show ?thesis by (simp add: Let_def min_absorb2 not_le bind_result_def)
  next
    case False
    then have lt: "?sp < rem" using Cons.prems(4) sp by (simp add: word_less_nat_alt)
    have r: "unat (rem - ?sp) = unat rem - unat ?sp" using lt by (simp add: unat_sub less_imp_le)
    obtain d ds where cs: "cs = d # ds" using False by (cases cs) auto
    have "\<exists>as. allocate_chunks tot None cs (rem - ?sp) = Inr (as, 0)"
    proof (rule Cons.IH)
      show "fee_value None < sel_total (hd cs)" using Cons.prems(2) cs by (simp add: word_neq_0_conv)
      show "chunk_total_sum (butlast cs) < unat (rem - ?sp) + unat (fee_value None)"
        using Cons.prems(4) r sp cs by simp
      show "unat (rem - ?sp) + unat (fee_value None) \<le> chunk_total_sum cs" using Cons.prems(5) r sp by simp
    qed (use Cons.prems(2) False lt in auto)
    with lt sp Cons.prems(3) show ?thesis by (auto simp: Let_def min_absorb1 not_le bind_result_def)
  qed
qed simp

section \<open>The chunks of a selected batch\<close>

lemma chunk_worth:
  assumes "chunk_ok utxos token base c" "nat_sum utxos < 2 ^ 256"
  shows "unat (sel_total c) = nat_sum (sel_utxos c)" "sel_total c \<noteq> 0"
proof -
  show eq: "unat (sel_total c) = nat_sum (sel_utxos c)"
    using chunks_ok_total [of utxos token base base "[c]"] assms by simp
  obtain u us where u: "sel_utxos c = u # us" using assms(1) by (cases "sel_utxos c") (auto simp: chunk_ok_def)
  then have "utxo_value u \<noteq> 0" using chunk_okD(2) [OF assms(1)] by (simp add: eligible_def)
  then have "0 < nat_sum (sel_utxos c)" by (simp add: u nat_sum_def val_def unat_gt_0)
  with eq show "sel_total c \<noteq> 0" by auto
qed

lemma chunks_worth:
  "chunks_ok utxos token base cont cs \<Longrightarrow> nat_sum utxos < 2 ^ 256 \<Longrightarrow>
     chunk_total_sum cs = nat_sum (chunk_inputs cs) \<and> (\<forall>c \<in> set cs. sel_total c \<noteq> 0)"
proof (induction utxos token base cont cs rule: chunks_ok.induct)
  case (2 utxos token base cont c cs)
  have "nat_sum (remove_selected_utxos utxos (sel_utxos c)) \<le> nat_sum utxos"
    by (rule nat_sum_submset) (simp add: remove_selected_filter)
  with 2 chunk_worth [of utxos token base c] show ?case by simp
qed simp

lemma butlast_total: "cs \<noteq> [] \<Longrightarrow> \<forall>c \<in> set cs. sel_total c \<noteq> 0 \<Longrightarrow> chunk_total_sum (butlast cs) < chunk_total_sum cs"
  by (induction cs) (auto simp: unat_gt_0)

lemma staged_butlast: "staged target base cont cs \<Longrightarrow> target \<noteq> 0 \<Longrightarrow> chunk_total_sum (butlast cs) < unat target"
proof (induction target base cont cs rule: staged.induct)
  case (3 target base cont c d cs)
  then have "sel_total c < target" "chunk_total_sum (butlast (d # cs)) < unat (target - sel_total c)" by auto
  then show ?case by (simp add: unat_sub_less less_diff_conv)
qed (auto simp: unat_gt_0)

lemma batch_or_max_chunks:
  assumes "batch_or_max utxos token target up_to first cont m b"
  shows "chunks_ok utxos token first cont (bs_chunks b)" "bs_chunks b \<noteq> []" "length (bs_chunks b) \<le> m"
    "bs_total b = sum_list (map sel_total (bs_chunks b))"
  using assms max_batch_ok [of utxos token first cont m b] by (auto simp: batch_or_max_def batch_ok_def)

text \<open>
  What the planner relies on: all notes but those of the last chunk are worth less than the target
  amount, and the batch covers it unless spending up to it was asked for.
\<close>

lemma batch_or_max_bounds:
  assumes "batch_or_max utxos token target up_to first cont m b" "nat_sum utxos < 2 ^ 256" "target \<noteq> 0"
  shows "bs_chunks b \<noteq> []" "\<forall>c \<in> set (bs_chunks b). sel_total c \<noteq> 0"
    "unat (bs_total b) = chunk_total_sum (bs_chunks b)"
    "chunk_total_sum (butlast (bs_chunks b)) < min (unat target) (unat (bs_total b))"
    "chunks_ok utxos token first cont (bs_chunks b)" "length (bs_chunks b) \<le> m"
proof -
  note ok = batch_or_max_chunks [OF assms(1)]
  note w = chunks_worth [OF ok(1) assms(2)]
  have tot: "unat (bs_total b) = chunk_total_sum (bs_chunks b)"
    using chunks_ok_total [OF ok(1) assms(2)] w by (simp add: ok(4))
  have lt: "chunk_total_sum (butlast (bs_chunks b)) < unat (bs_total b)" using butlast_total [OF ok(2)] w tot by simp
  have "chunk_total_sum (butlast (bs_chunks b)) < unat target"
  proof (cases "batch_ok utxos token target first cont m b")
    case True
    then have st: "staged target first cont (bs_chunks b)" by (simp add: batch_ok_def)
    from staged_butlast [OF this assms(3)] show ?thesis .
  next
    case False
    with assms(1) have "bs_total b < target" by (simp add: batch_or_max_def)
    with lt show ?thesis by (simp add: word_less_nat_alt)
  qed
  with ok w tot lt show "bs_chunks b \<noteq> []" "\<forall>c \<in> set (bs_chunks b). sel_total c \<noteq> 0"
    "unat (bs_total b) = chunk_total_sum (bs_chunks b)"
    "chunk_total_sum (butlast (bs_chunks b)) < min (unat target) (unat (bs_total b))"
    "chunks_ok utxos token first cont (bs_chunks b)" "length (bs_chunks b) \<le> m" by auto
qed

section \<open>What a selected batch pays\<close>

definition paid :: "spend_allocation list \<Rightarrow> nat" where
  "paid as = sum_list (map (\<lambda>a. unat (sa_amount a)) as)"

definition kept :: "spend_allocation list \<Rightarrow> nat" where
  "kept as = sum_list (map (\<lambda>a. unat (sa_change a)) as)"

lemma spend_allocations_Inr:
  assumes "spend_allocations b amount (fee_value fee) fee up_to = Inr as"
  shows "list_all2 balanced (bs_chunks b) as" "\<forall>i < length as. sa_fee (as ! i) = alloc_fee fee i"
    "fee_value fee \<le> bs_total b" "up_to \<or> unat amount + unat (fee_value fee) \<le> unat (bs_total b)"
    "paid as = (if up_to then min (unat (bs_total b) - unat (fee_value fee)) (unat amount) else unat amount)"
proof -
  let ?f = "fee_value fee"
  let ?a = "if up_to then min (bs_total b - ?f) amount else amount"
  from assms have le: "?f \<le> bs_total b"
    and al: "allocate_chunks (bs_total b) fee (bs_chunks b) ?a = Inr (as, 0)"
    and am: "up_to \<or> amount \<le> bs_total b - ?f"
    by (auto simp: spend_allocations_def Let_def not_less split: if_splits)
  note bal = allocate_balanced [OF al]
  have u: "unat (bs_total b - ?f) = unat (bs_total b) - unat ?f" "unat ?f \<le> unat (bs_total b)"
    using le by (auto simp: unat_sub word_le_nat_alt)
  from bal le show "list_all2 balanced (bs_chunks b) as" "\<forall>i < length as. sa_fee (as ! i) = alloc_fee fee i"
    "?f \<le> bs_total b" by auto
  show "up_to \<or> unat amount + unat ?f \<le> unat (bs_total b)" using am u by (auto simp: word_le_nat_alt)
  from bal show "paid as = (if up_to then min (unat (bs_total b) - unat ?f) (unat amount) else unat amount)"
    by (simp add: paid_def unat_min u split: if_splits)
qed

lemma spend_allocations_selected:
  assumes "batch_or_max utxos token (amount + fee_value fee) up_to first cont m b" "distinct (map utxo_key utxos)"
    "nat_sum utxos < 2 ^ 256" "amount \<noteq> 0" "unat amount + unat (fee_value fee) < 2 ^ 256"
    "fee_value fee < sel_total (hd (bs_chunks b))"
  shows "\<exists>as. spend_allocations b amount (fee_value fee) fee up_to = Inr as"
proof -
  let ?f = "fee_value fee"
  have T: "unat (amount + ?f) = unat amount + unat ?f" using assms(5) by (simp add: unat_add_no_overflow)
  then have nz: "amount + ?f \<noteq> 0" using assms(4) by (metis add_is_0 unat_0 unat_eq_zero)
  note bd = batch_or_max_bounds [OF assms(1,3) nz]
  have hd: "unat (sel_total (hd (bs_chunks b))) \<le> chunk_total_sum (bs_chunks b)"
    using bd(1) by (cases "bs_chunks b") auto
  then have flt: "?f < bs_total b" using assms(6) bd(3) by (simp add: word_less_nat_alt)
  let ?a = "if up_to then min (bs_total b - ?f) amount else amount"
  have cov: "up_to \<or> unat amount + unat ?f \<le> unat (bs_total b)"
    using batch_or_max_spendable(2) [OF assms(1,2,3)] T by (auto simp: word_le_nat_alt)
  have u: "unat (bs_total b - ?f) = unat (bs_total b) - unat ?f" "unat ?f < unat (bs_total b)"
    using flt by (auto simp: unat_sub_less) (simp add: word_less_nat_alt)
  have a: "unat ?a = min (unat (bs_total b) - unat ?f) (unat amount)"
    using cov u by (auto simp: unat_min)
  have nza: "?a \<noteq> 0" using a u(2) assms(4) by (auto simp: unat_gt_0 simp flip: unat_gt_0)
  have "\<exists>as. allocate_chunks (bs_total b) fee (bs_chunks b) ?a = Inr (as, 0)"
  proof (rule allocate_progress)
    show "chunk_total_sum (butlast (bs_chunks b)) < unat ?a + unat ?f" using bd(4) T u(2) unfolding a by linarith
    show "unat ?a + unat ?f \<le> chunk_total_sum (bs_chunks b)" using bd(3) u(2) unfolding a by linarith
  qed (use bd assms(6) nza in auto)
  then obtain as where as: "allocate_chunks (bs_total b) fee (bs_chunks b) ?a = Inr (as, 0)" ..
  have "\<not> bs_total b < ?f" using flt by simp
  moreover have "up_to \<or> \<not> bs_total b - ?f < amount" using cov u by (auto simp: word_less_nat_alt)
  ultimately have "spend_allocations b amount ?f fee up_to = Inr as"
    using as nza unfolding spend_allocations_def Let_def by auto
  then show ?thesis ..
qed

lemma sum_balanced:
  "list_all2 balanced cs as \<Longrightarrow> \<forall>i < length as. sa_fee (as ! i) = alloc_fee fee i \<Longrightarrow> cs \<noteq> [] \<Longrightarrow>
     chunk_total_sum cs = paid as + kept as + unat (fee_value fee)"
proof (induction cs as arbitrary: fee rule: list_all2_induct)
  case (Cons c cs a as)
  have tl: "\<forall>i < length as. sa_fee (as ! i) = alloc_fee None i"
    using Cons.prems(1) by (force simp: alloc_fee_def)
  have "sa_fee a = fee" using Cons.prems(1) by (force simp: alloc_fee_def)
  moreover have "chunk_total_sum cs = paid as + kept as"
  proof (cases "cs = []")
    case True
    with Cons.hyps(2) show ?thesis by (simp add: paid_def kept_def)
  next
    case False
    from Cons.IH [OF tl False] show ?thesis by simp
  qed
  ultimately show ?case using Cons.hyps(1) by (simp add: balanced_def paid_def kept_def)
qed simp

text \<open>Every transaction has room for its change output.\<close>

definition fits :: "nat \<Rightarrow> utxo_selection \<Rightarrow> spend_allocation \<Rightarrow> bool" where
  "fits base c a \<longleftrightarrow>
     2 + length (sel_utxos c) + base + (if sa_change a \<noteq> 0 then 1 else 0) \<le> MAX_SIGNATURE_INPUTS"

fun all_fit :: "nat \<Rightarrow> nat \<Rightarrow> utxo_selection list \<Rightarrow> spend_allocation list \<Rightarrow> bool" where
  "all_fit base cont (c # cs) (a # as) \<longleftrightarrow> fits base c a \<and> all_fit cont cont cs as"
| "all_fit base cont [] [] \<longleftrightarrow> True"
| "all_fit base cont _ _ \<longleftrightarrow> False"

lemma all_fit_nth:
  "all_fit base cont cs as \<Longrightarrow> i < length cs \<Longrightarrow> fits (if i = 0 then base else cont) (cs ! i) (as ! i)"
proof (induction base cont cs as arbitrary: i rule: all_fit.induct)
  case (1 base cont c cs a as)
  then show ?case by (cases i) (force split: if_splits)+
qed auto

lemma staged_fits:
  assumes "staged (rem + fee_value fee) base cont cs" "unat rem + unat (fee_value fee) < 2 ^ 256"
    "allocate_chunks tot fee cs rem = Inr (as, r)" "chunks_ok utxos token base cont cs"
  shows "all_fit base cont cs as"
  using assms
proof (induction "rem + fee_value fee" base cont cs arbitrary: rem fee as utxos rule: staged.induct)
  case (2 base cont c)
  let ?f = "fee_value fee"
  have T: "unat (rem + ?f) = unat rem + unat ?f" using 2 by (simp add: unat_add_no_overflow)
  from "2.prems"(3) obtain sp am where sp: "sp = sel_total c - ?f" and am: "am = min sp rem" and f: "?f < sel_total c"
    and as: "as = [\<lparr>sa_amount = am, sa_change = sp - am, sa_fee = fee\<rparr>]"
    by (rule allocate_ConsE) auto
  have "rem + ?f < sel_total c" if "sp - am \<noteq> 0"
  proof -
    from that have "rem < sp" by (auto simp: am min_def not_le split: if_splits)
    then show ?thesis using T unat_sub_less [OF f] by (simp add: sp word_less_nat_alt)
  qed
  with "2.prems"(1) show ?case by (auto simp: as fits_def covers_def)
next
  case (3 base cont c d cs)
  let ?f = "fee_value fee"
  have T: "unat (rem + ?f) = unat rem + unat ?f" using 3 by (simp add: unat_add_no_overflow)
  from "3.prems"(3) obtain sp am as' where sp: "sp = sel_total c - ?f" and am: "am = min sp rem" and f: "?f < sel_total c"
    and as': "allocate_chunks tot None (d # cs) (rem - am) = Inr (as', r)"
    and as: "as = \<lparr>sa_amount = am, sa_change = sp - am, sa_fee = fee\<rparr> # as'" by (rule allocate_ConsE)
  have "unat (sel_total c) < unat rem + unat ?f" "unat ?f < unat (sel_total c)"
    using "3.prems"(1) T f by (simp_all add: word_less_nat_alt)
  then have "sp < rem" using unat_sub_less [OF f] by (simp add: sp word_less_nat_alt)
  then have am': "am = sp" by (simp add: am)
  have eq: "rem - am + fee_value None = rem + ?f - sel_total c" by (simp add: am' sp)
  have "all_fit cont cont (d # cs) as'"
  proof (rule "3.hyps" [OF eq [symmetric] _ _ as'])
    show "staged (rem - am + fee_value None) cont cont (d # cs)" unfolding eq using "3.prems"(1) by simp
    show "unat (rem - am) + unat (fee_value None) < 2 ^ 256" using unsigned_less [of "rem - am"] by simp
    show "chunks_ok (remove_selected_utxos utxos (sel_utxos c)) token cont cont (d # cs)" using "3.prems"(4) by simp
  qed
  moreover have "2 + length (sel_utxos c) + base \<le> MAX_SIGNATURE_INPUTS"
    using chunk_okD(5) "3.prems"(4) by auto
  ultimately show ?case by (simp add: as am' fits_def)
qed simp

lemma no_change_fits:
  "chunks_ok utxos token base cont cs \<Longrightarrow> length as = length cs \<Longrightarrow> \<forall>a \<in> set as. sa_change a = 0 \<Longrightarrow> all_fit base cont cs as"
proof (induction utxos token base cont cs arbitrary: as rule: chunks_ok.induct)
  case (2 utxos token base cont c cs)
  then obtain a as' where "as = a # as'" by (cases as) auto
  with 2 show ?case using chunk_okD(5) [of utxos token base c] by (auto simp: fits_def)
qed simp

lemma spend_allocations_fit:
  assumes "batch_or_max utxos token (amount + fee_value fee) up_to first cont m b" "distinct (map utxo_key utxos)"
    "nat_sum utxos < 2 ^ 256" "unat amount + unat (fee_value fee) < 2 ^ 256"
    "spend_allocations b amount (fee_value fee) fee up_to = Inr as"
  shows "all_fit first cont (bs_chunks b) as"
proof -
  let ?f = "fee_value fee"
  have T: "unat (amount + ?f) = unat amount + unat ?f" using assms(4) by (simp add: unat_add_no_overflow)
  have nz: "amount + ?f \<noteq> 0"
  proof
    assume "amount + ?f = 0"
    then have "amount = 0" using T by (simp add: unat_eq_zero)
    with assms(5) show False by (auto simp: spend_allocations_def Let_def split: if_splits)
  qed
  note bd = batch_or_max_bounds [OF assms(1,3) nz] and al = spend_allocations_Inr [OF assms(5)]
  show ?thesis
  proof (cases "amount + ?f \<le> bs_total b")
    case True
    then have st: "staged (amount + ?f) first cont (bs_chunks b)"
      using assms(1) by (auto simp: batch_or_max_def batch_ok_def)
    have "amount \<le> bs_total b - ?f" using True T al(3) by (simp add: word_le_nat_alt unat_sub)
    then have "allocate_chunks (bs_total b) fee (bs_chunks b) amount = Inr (as, 0)"
      using assms(5) by (auto simp: spend_allocations_def Let_def min_absorb2 split: if_splits)
    from staged_fits [OF st assms(4) this bd(5)] show ?thesis .
  next
    case False
    then have lt: "unat (bs_total b) - unat ?f \<le> unat amount" "up_to"
      using T al(4) by (auto simp: word_le_nat_alt)
    then have "paid as = unat (bs_total b) - unat ?f" using al(5) by simp
    moreover have "unat (bs_total b) = paid as + kept as + unat ?f"
      using sum_balanced [OF al(1,2) bd(1)] bd(3) by simp
    ultimately have "kept as = 0" using al(3) by (simp add: word_le_nat_alt)
    then have "\<forall>a \<in> set as. sa_change a = 0" by (auto simp: kept_def unat_eq_zero)
    with no_change_fits [OF bd(5)] al(1) show ?thesis by (simp add: list_all2_lengthD)
  qed
qed

text \<open>
  Claim C21. The allocations of a batch conserve value: chunk by chunk, the notes spent are worth the
  amount paid, the change and the fee; only the first chunk carries the fee, no chunk pays nothing,
  and together they pay exactly the requested amount, or with spending up to it at most what the
  batch holds after the fee.
\<close>

theorem spend_allocations_conserve:
  assumes "spend_allocations b amount (fee_value fee) fee up_to = Inr as"
  shows "length as = length (bs_chunks b) \<and>
    (\<forall>i < length as. sa_amount (as ! i) \<noteq> 0 \<and> sa_fee (as ! i) = (if i = 0 then fee else None) \<and>
       unat (sel_total (bs_chunks b ! i)) =
         unat (sa_amount (as ! i)) + unat (sa_change (as ! i)) + unat (fee_value (sa_fee (as ! i)))) \<and>
    sum_list (map (\<lambda>a. unat (sa_amount a)) as) =
      (if up_to then min (unat (bs_total b) - unat (fee_value fee)) (unat amount) else unat amount)"
  using spend_allocations_Inr [OF assms]
  by (auto simp: list_all2_conv_all_nth balanced_def alloc_fee_def paid_def)

text \<open>Two chunks, the first of which pays a fee.\<close>

definition sample_fee :: "address \<Rightarrow> u256 \<Rightarrow> broadcaster_fee_output option" where
  "sample_fee token amount =
     Some \<lparr>bf_recipient = \<lparr>ad_master_public_key = 0, ad_viewing_public_key = []\<rparr>,
           bf_token_address = token, bf_amount = amount\<rparr>"

definition sample_chunk :: "u32 \<Rightarrow> u256 \<Rightarrow> utxo_selection" where
  "sample_chunk tree amount = \<lparr>sel_utxos = [sample_utxo 9 tree 0 amount], sel_total = amount\<rparr>"

lemma spend_allocations_conserve_witness:
  "spend_allocations \<lparr>bs_chunks = [sample_chunk 0 7, sample_chunk 1 5], bs_total = 12\<rparr> 8 2 (sample_fee 9 2) False =
     Inr [\<lparr>sa_amount = 5, sa_change = 0, sa_fee = sample_fee 9 2\<rparr>, \<lparr>sa_amount = 3, sa_change = 2, sa_fee = None\<rparr>] \<and>
   sum_list (map (\<lambda>a. unat (sa_amount a)) [\<lparr>sa_amount = 5, sa_change = 0, sa_fee = sample_fee 9 2\<rparr>,
     \<lparr>sa_amount = 3, sa_change = 2, sa_fee = None\<rparr>]) = 8"
proof -
  let ?b = "\<lparr>bs_chunks = [sample_chunk 0 7, sample_chunk 1 5], bs_total = 12\<rparr>"
  let ?as = "[\<lparr>sa_amount = 5, sa_change = 0, sa_fee = sample_fee 9 2\<rparr>, \<lparr>sa_amount = 3, sa_change = 2, sa_fee = None\<rparr>]"
  have f: "fee_value (sample_fee 9 2) = 2" by (simp add: sample_fee_def)
  have as: "spend_allocations ?b 8 (fee_value (sample_fee 9 2)) (sample_fee 9 2) False = Inr ?as"
    by (simp add: spend_allocations_def Let_def f sample_chunk_def)
  from spend_allocations_conserve [OF this, THEN conjunct2, THEN conjunct2] as show ?thesis unfolding f by simp
qed

text \<open>
  Claim C26. A selected batch can be allocated: when \<open>select_batched_utxos_with_limit\<close> returns a batch
  for the amount and the fee, and the first chunk is worth more than the fee, \<open>spend_allocations\<close>
  succeeds, and every transaction has room in its signature message for its outputs, the change
  included.
\<close>

theorem selected_batch_allocates:
  assumes "distinct (map utxo_key utxos)" "nat_sum utxos < 2 ^ 256" "amount \<noteq> 0"
    "unat amount + unat (fee_value fee) < 2 ^ 256" "0 < m"
    "select_batched_utxos_with_limit utxos token (amount + fee_value fee) up_to first cont m = Inr b"
    "fee_value fee < sel_total (hd (bs_chunks b))"
  shows "\<exists>as. spend_allocations b amount (fee_value fee) fee up_to = Inr as \<and>
    (\<forall>i < length as. 2 + length (sel_utxos (bs_chunks b ! i)) + (if i = 0 then first else cont)
       + (if sa_change (as ! i) \<noteq> 0 then 1 else 0) \<le> MAX_SIGNATURE_INPUTS)"
proof -
  have b: "batch_or_max utxos token (amount + fee_value fee) up_to first cont m b"
    using select_batched_cases [OF assms(6,1)] assms(5) by (auto simp: batch_or_max_def max_def Suc_le_eq split: if_splits)
  obtain as where as: "spend_allocations b amount (fee_value fee) fee up_to = Inr as"
    using spend_allocations_selected [OF b assms(1-4,7)] ..
  note fit = spend_allocations_fit [OF b assms(1,2,4) as]
  have "length as = length (bs_chunks b)"
    using spend_allocations_Inr(1) [OF as] by (simp add: list_all2_lengthD)
  with as all_fit_nth [OF fit] show ?thesis by (auto simp: fits_def)
qed

lemma selected_batch_allocates_witness:
  "\<exists>b as. select_batched_utxos_with_limit [sample_utxo 9 0 0 5] 9 5 False 2 1 2 = Inr b \<and>
     spend_allocations b 3 2 (sample_fee 9 2) False = Inr as"
proof -
  let ?us = "[sample_utxo 9 0 0 5]"
  have sel: "select_batched_utxos_with_limit ?us 9 5 False 2 1 2 =
      Inr \<lparr>bs_chunks = [\<lparr>sel_utxos = ?us, sel_total = 5\<rparr>], bs_total = 5\<rparr>" by code_simp
  have f: "fee_value (sample_fee 9 2) = 2" by (simp add: sample_fee_def)
  have "\<exists>as. spend_allocations \<lparr>bs_chunks = [\<lparr>sel_utxos = ?us, sel_total = 5\<rparr>], bs_total = 5\<rparr> 3
      (fee_value (sample_fee 9 2)) (sample_fee 9 2) False = Inr as"
    using selected_batch_allocates [of ?us 3 "sample_fee 9 2" 2 9 False 2 1] sel unfolding f by auto
  with sel show ?thesis unfolding f by blast
qed

text \<open>The condition on the first chunk is needed.\<close>

lemma two_tree_selection:
  "select_batched_utxos [sample_utxo 9 0 0 5, sample_utxo 9 1 0 5] 9 9 False 2 1 =
     Inr \<lparr>bs_chunks = [sample_chunk 0 5, sample_chunk 1 5], bs_total = 10\<rparr>"
  by code_simp

text \<open>
  Claim C40. The fee preview accepts a wallet with one note of 5 in each of two trees for an amount
  of 3 and a fee of 6 in the same token, and plans two transactions; the batch the plan then selects
  cannot be allocated, since its first transaction cannot pay the fee alone.
\<close>

theorem preview_accepts_unpayable_fee:
  "\<exists>info b. unshield_selection_info_with_broadcaster_fee [sample_utxo 9 0 0 5, sample_utxo 9 1 0 5] 9 3 6 False = Inr info \<and>
     info_transaction_count info = 2 \<and>
     select_batched_utxos [sample_utxo 9 0 0 5, sample_utxo 9 1 0 5] 9 9 False 2 1 = Inr b \<and>
     spend_allocations b 3 6 (sample_fee 9 6) False = Inl (InsufficientBalance 10)"
  by (simp add: unshield_selection_info_with_broadcaster_fee_def selection_info_with_fee_def two_tree_selection [simplified]
      map_insufficient_balance_def info_of_def batch_shape_of_def Let_def case_prod_beta
      spend_allocations_def sample_chunk_def sample_fee_def)

end
