(* ===== verification/CompositeSpec.thy ===== *)
theory CompositeSpec
  imports SpendSpec
begin

text \<open>
  Composite and mixed actions. \<open>legs_ok\<close> is the contract of the backtracking search over the legs;
  the lemmas give that legs never share a note, that the fee is placed once, and that the preview of
  a mixed action describes transactions within the limits of the circuit.
\<close>

section \<open>Pinned inputs\<close>

lemma pinned_available:
  "bt_get (foldl (\<lambda>m u. bt_insert (utxo_key u) u m) m utxos) k =
     (case find (\<lambda>u. utxo_key u = k) (rev utxos) of None \<Rightarrow> bt_get m k | Some u \<Rightarrow> Some u)"
  by (induction utxos arbitrary: m rule: rev_induct) (auto split: option.splits)

lemma resolve_pinned_loop_iff:
  "resolve_pinned_loop av seen ids = Inr us \<longleftrightarrow>
     distinct ids \<and> set ids \<inter> set seen = {} \<and> map (bt_get av) ids = map Some us"
proof (induction av seen ids arbitrary: us rule: resolve_pinned_loop.induct)
  case (2 av seen i ids)
  then show ?case by (cases us) (auto simp: ok_or_def split: option.splits)
qed auto

lemma resolve_pinned_utxos_iff:
  "resolve_pinned_utxos utxos ids = Inr us \<longleftrightarrow>
     distinct ids \<and> map (\<lambda>k. find (\<lambda>u. utxo_key u = k) (rev utxos)) ids = map Some us"
proof -
  let ?av = "foldl (\<lambda>m u. bt_insert (utxo_key u) u m) [] utxos"
  have "bt_get ?av = (\<lambda>k. find (\<lambda>u. utxo_key u = k) (rev utxos))"
    by (rule ext) (simp add: pinned_available split: option.splits)
  then show ?thesis by (simp add: resolve_pinned_utxos_def resolve_pinned_loop_iff)
qed

lemma map_find_Some:
  "map (\<lambda>k. find (\<lambda>u. f u = k) xs) ks = map Some us \<Longrightarrow> map f us = ks \<and> set us \<subseteq> set xs"
proof (induction ks arbitrary: us)
  case (Cons k ks)
  then obtain u us' where "us = u # us'" by (cases us) auto
  with Cons show ?case by (auto simp: find_Some_iff)
qed simp

lemma map_find_all: "set ks \<subseteq> f ` set xs \<Longrightarrow> \<exists>us. map (\<lambda>k. find (\<lambda>u. f u = k) xs) ks = map Some us"
proof (induction ks)
  case (Cons k ks)
  from Cons.prems have "find (\<lambda>u. f u = k) xs \<noteq> None" by (auto simp: find_None_iff)
  then obtain u where "find (\<lambda>u. f u = k) xs = Some u" by blast
  moreover obtain us where "map (\<lambda>k. find (\<lambda>u. f u = k) xs) ks = map Some us" using Cons by auto
  ultimately show ?case by (intro exI [of _ "u # us"]) simp
qed simp

text \<open>The error names the first identity that is repeated or missing.\<close>

lemma resolve_pinned_loop_error:
  "resolve_pinned_loop av seen ids = Inl e \<Longrightarrow>
     \<exists>i < length ids. distinct (take i ids) \<and> set (take i ids) \<inter> set seen = {} \<and> (\<forall>k \<in> set (take i ids). bt_get av k \<noteq> None) \<and>
       (if ids ! i \<in> set seen \<union> set (take i ids) then e = DuplicatePinnedInput (fst (ids ! i)) (snd (ids ! i))
        else bt_get av (ids ! i) = None \<and> e = PinnedInputUnavailable (fst (ids ! i)) (snd (ids ! i)))"
proof (induction av seen ids rule: resolve_pinned_loop.induct)
  case (2 av seen k ids)
  show ?case
  proof (cases "k \<in> set seen \<or> bt_get av k = None")
    case True
    with "2.prems" show ?thesis by (intro exI [of _ 0]) (auto simp: ok_or_def split: if_splits)
  next
    case False
    then obtain u where u: "k \<notin> set seen" "bt_get av k = Some u" by auto
    with "2.prems" have "resolve_pinned_loop av (k # seen) ids = Inl e"
      by (auto simp: bind_result_def split: sum.splits)
    from "2.IH" [OF u(1) this] obtain i where "i < length ids" "distinct (take i ids)" "set (take i ids) \<inter> set (k # seen) = {}"
      "\<forall>k \<in> set (take i ids). bt_get av k \<noteq> None"
      "if ids ! i \<in> set (k # seen) \<union> set (take i ids) then e = DuplicatePinnedInput (fst (ids ! i)) (snd (ids ! i))
        else bt_get av (ids ! i) = None \<and> e = PinnedInputUnavailable (fst (ids ! i)) (snd (ids ! i))" by blast
    then show ?thesis using u by (intro exI [of _ "Suc i"]) (auto split: if_splits)
  qed
qed simp

text \<open>
  Claim C31. Pinned inputs resolve exactly when they are distinct and all in the wallet; the resolved
  notes are then wallet notes with the pinned identities, in the pinned order. Otherwise the error
  names the first identity that repeats an earlier one, as a duplicate, or that the wallet does not
  have, as unavailable; all identities before it are distinct and in the wallet.
\<close>

theorem resolve_pinned_correct:
  "(\<exists>us. resolve_pinned_utxos utxos ids = Inr us) = (distinct ids \<and> set ids \<subseteq> utxo_key ` set utxos) \<and>
   {us. resolve_pinned_utxos utxos ids = Inr us} \<subseteq> {us. map utxo_key us = ids \<and> set us \<subseteq> set utxos} \<and>
   {e. resolve_pinned_utxos utxos ids = Inl e} \<subseteq>
     {e. \<exists>i < length ids. distinct (take i ids) \<and> set (take i ids) \<subseteq> utxo_key ` set utxos \<and>
        (if ids ! i \<in> set (take i ids) then e = DuplicatePinnedInput (fst (ids ! i)) (snd (ids ! i))
         else ids ! i \<notin> utxo_key ` set utxos \<and> e = PinnedInputUnavailable (fst (ids ! i)) (snd (ids ! i)))}"
proof -
  have 1: "distinct ids \<and> map utxo_key us = ids \<and> set us \<subseteq> set utxos" if "resolve_pinned_utxos utxos ids = Inr us" for us
    using that map_find_Some [of utxo_key "rev utxos" ids us] unfolding resolve_pinned_utxos_iff by simp
  have 2: "set ids \<subseteq> utxo_key ` set utxos" if "map utxo_key us = ids" "set us \<subseteq> set utxos" for us
    using that by (metis image_mono list.set_map)
  have 3: "\<exists>us. resolve_pinned_utxos utxos ids = Inr us" if "distinct ids" "set ids \<subseteq> utxo_key ` set utxos"
    using map_find_all [of ids utxo_key "rev utxos"] that unfolding resolve_pinned_utxos_iff by simp
  have "bt_get (foldl (\<lambda>m u. bt_insert (utxo_key u) u m) [] utxos) k = find (\<lambda>u. utxo_key u = k) (rev utxos)" for k
    by (simp add: pinned_available split: option.splits)
  then have get: "bt_get (foldl (\<lambda>m u. bt_insert (utxo_key u) u m) [] utxos) k = None \<longleftrightarrow> k \<notin> utxo_key ` set utxos" for k
    by (auto simp: find_None_iff)
  have 4: "\<exists>i < length ids. distinct (take i ids) \<and> set (take i ids) \<subseteq> utxo_key ` set utxos \<and>
        (if ids ! i \<in> set (take i ids) then e = DuplicatePinnedInput (fst (ids ! i)) (snd (ids ! i))
         else ids ! i \<notin> utxo_key ` set utxos \<and> e = PinnedInputUnavailable (fst (ids ! i)) (snd (ids ! i)))"
    if "resolve_pinned_utxos utxos ids = Inl e" for e
    using resolve_pinned_loop_error [OF that [unfolded resolve_pinned_utxos_def Let_def]] unfolding get by (simp add: subset_eq)
  from 1 2 3 have "(\<exists>us. resolve_pinned_utxos utxos ids = Inr us) = (distinct ids \<and> set ids \<subseteq> utxo_key ` set utxos)" by blast
  moreover have "{us. resolve_pinned_utxos utxos ids = Inr us} \<subseteq> {us. map utxo_key us = ids \<and> set us \<subseteq> set utxos}"
    using 1 by blast
  ultimately show ?thesis using 4 by (intro conjI subsetI [of "{e. _ = Inl e}"] CollectI) simp_all
qed

section \<open>Composite legs\<close>

lemma first_ok_Inr: "first_ok f xs e = Inr r \<Longrightarrow> \<exists>x \<in> set xs. \<exists>e'. f x e' = Inr r"
  by (induction f xs e rule: first_ok.induct) (auto split: sum.splits)

definition leg_up_to :: "bool list \<Rightarrow> nat \<Rightarrow> bool" where
  "leg_up_to ups i = (if i < length ups then ups ! i else False)"

text \<open>
  The contract of the backtracking search: each leg's batch is selected from the notes the earlier
  legs left and within the transactions left, and at most one leg carries the fee.
\<close>

fun legs_ok ::
  "broadcaster_fee_output option \<Rightarrow> bool list \<Rightarrow> utxo list \<Rightarrow> nat \<Rightarrow> nat \<Rightarrow> nat option \<Rightarrow>
     composite_unshield_leg list \<Rightarrow> batch_utxo_selection list \<Rightarrow> nat option \<Rightarrow> bool" where
  "legs_ok fee ups utxos i used idx [] bs idx' \<longleftrightarrow> bs = [] \<and> idx' = idx \<and> (fee = None \<or> idx \<noteq> None)"
| "legs_ok fee ups utxos i used idx (leg # legs) [] idx' \<longleftrightarrow> False"
| "legs_ok fee ups utxos i used idx (leg # legs) (b # bs) idx' \<longleftrightarrow>
     (\<exists>leg_fee. leg_fee \<in> set (leg_fee_options leg fee idx) \<and> used < MAX_BATCH_TRANSACTIONS \<and>
        batch_or_max utxos (leg_token_address leg) (leg_amount leg + fee_value leg_fee) (leg_up_to ups i)
          (1 + (if leg_fee \<noteq> None then 1 else 0)) 1 (MAX_BATCH_TRANSACTIONS - used) b \<and>
        legs_ok fee ups (remove_batch utxos b) (i + 1) (used + length (bs_chunks b))
          (if leg_fee \<noteq> None then Some i else idx) legs bs idx')"

lemma remove_batch_mset:
  assumes "chunks_ok utxos token base cont (bs_chunks b)"
  shows "mset (chunk_inputs (bs_chunks b)) + mset (remove_batch utxos b) \<subseteq># mset utxos"
proof -
  have "mset (chunk_inputs cs) + mset (foldl (\<lambda>us c. remove_selected_utxos us (sel_utxos c)) utxos cs) \<subseteq># mset utxos"
    if "chunks_ok utxos token base cont cs" for cs using that
  proof (induction utxos token base cont cs rule: chunks_ok.induct)
    case (2 utxos token base cont c cs)
    let ?r = "remove_selected_utxos utxos (sel_utxos c)"
    from 2 have "mset (chunk_inputs cs) + mset (foldl (\<lambda>us c. remove_selected_utxos us (sel_utxos c)) ?r cs) \<subseteq># mset ?r"
      by auto
    moreover have "mset (sel_utxos c) \<subseteq># mset utxos" using chunk_okD(1) "2.prems" by auto
    ultimately show ?case
      using subset_mset.order_trans [OF subset_mset.add_left_mono selected_and_removed] by (simp add: add.assoc)
  qed simp
  from this [OF assms] show ?thesis by (simp add: remove_batch_def)
qed

lemma remove_batch_distinct:
  "distinct (map utxo_key utxos) \<Longrightarrow> distinct (map utxo_key (remove_batch utxos b))"
proof -
  have "distinct (map utxo_key utxos) \<Longrightarrow>
      distinct (map utxo_key (foldl (\<lambda>us c. remove_selected_utxos us (sel_utxos c)) utxos cs))" for cs
    by (induction cs arbitrary: utxos) (auto simp: distinct_keys_remove)
  then show "distinct (map utxo_key utxos) \<Longrightarrow> ?thesis" by (simp add: remove_batch_def)
qed

lemma select_inner_ok:
  "select_composite_leg_selections_inner legs fee ups i utxos used sels idx = Inr (sels', idx') \<Longrightarrow>
     distinct (map utxo_key utxos) \<Longrightarrow>
     \<exists>bs. sels' = sels @ bs \<and> legs_ok fee ups utxos i used idx legs bs idx'"
proof (induction legs arbitrary: i utxos used sels idx)
  case Nil
  then show ?case by (auto split: if_splits)
next
  case (Cons leg legs)
  let ?m = "MAX_BATCH_TRANSACTIONS - used" let ?up = "leg_up_to ups i"
  from Cons.prems(1) have m: "0 < ?m" by (auto simp: Let_def split: if_splits)
  from Cons.prems(1) have "first_ok (select_leg (select_composite_leg_selections_inner legs fee ups (i + 1))
      utxos leg fee ?up i used sels idx ?m) (leg_fee_options leg fee idx) None = Inr (sels', idx')"
    by (auto simp: Let_def leg_up_to_def split: if_splits sum.splits)
  from first_ok_Inr [OF this] obtain leg_fee e where lf: "leg_fee \<in> set (leg_fee_options leg fee idx)"
    and sl: "select_leg (select_composite_leg_selections_inner legs fee ups (i + 1))
      utxos leg fee ?up i used sels idx ?m leg_fee e = Inr (sels', idx')" by blast
  let ?first = "1 + (if leg_fee \<noteq> None then 1 else 0)" let ?T = "leg_amount leg + fee_value leg_fee"
  from sl obtain bs0 where cands: "select_batched_utxo_candidates_with_limit utxos (leg_token_address leg) ?T ?up ?first 1 ?m = Inr bs0"
    by (auto simp: select_leg_def Let_def split: sum.splits)
  let ?rest = "\<lambda>b. select_composite_leg_selections_inner legs fee ups (i + 1) (remove_batch utxos b)
      (used + length (bs_chunks b)) (sels @ [b]) (if leg_fee \<noteq> None then Some i else idx)"
  from sl cands have "\<exists>e. first_ok (\<lambda>b e. case ?rest b of Inr r \<Rightarrow> Inr r | Inl err \<Rightarrow> Inl (retain_preferred_selection_error e err))
      bs0 e = Inr (sels', idx')"
    by (auto simp: select_leg_def Let_def)
  then obtain b where b: "b \<in> set bs0" and rest: "?rest b = Inr (sels', idx')"
    by (auto dest!: first_ok_Inr split: sum.splits)
  from Cons.IH [OF rest remove_batch_distinct [OF Cons.prems(2)]] obtain bs where
    "sels' = (sels @ [b]) @ bs" "legs_ok fee ups (remove_batch utxos b) (i + 1) (used + length (bs_chunks b))
      (if leg_fee \<noteq> None then Some i else idx) legs bs idx'" by blast
  moreover have "batch_or_max utxos (leg_token_address leg) ?T ?up ?first 1 ?m b"
    using candidates_cases(3) [OF Cons.prems(2) m cands] b by blast
  ultimately show ?case using lf m by (intro exI [of _ "b # bs"]) auto
qed

lemma legs_ok_sizes:
  "legs_ok fee ups utxos i used idx legs bs idx' \<Longrightarrow>
     length bs = length legs \<and>
     (used \<le> MAX_BATCH_TRANSACTIONS \<longrightarrow>
        used + sum_list (map (\<lambda>b. length (bs_chunks b)) bs) \<le> MAX_BATCH_TRANSACTIONS)"
proof (induction fee ups utxos i used idx legs bs idx' rule: legs_ok.induct)
  case (3 fee ups utxos i used idx leg legs b bs idx')
  then obtain leg_fee where used: "used < MAX_BATCH_TRANSACTIONS"
    and b: "batch_or_max utxos (leg_token_address leg) (leg_amount leg + fee_value leg_fee) (leg_up_to ups i)
          (1 + (if leg_fee \<noteq> None then 1 else 0)) 1 (MAX_BATCH_TRANSACTIONS - used) b"
    and rest: "legs_ok fee ups (remove_batch utxos b) (i + 1) (used + length (bs_chunks b))
          (if leg_fee \<noteq> None then Some i else idx) legs bs idx'" by auto
  have "length (bs_chunks b) \<le> MAX_BATCH_TRANSACTIONS - used" using batch_or_max_chunks(3) [OF b] .
  then show ?case using "3.IH" [OF rest] used by auto
qed auto

lemma legs_ok_inputs:
  "legs_ok fee ups utxos i used idx legs bs idx' \<Longrightarrow>
     mset (concat (map (\<lambda>b. chunk_inputs (bs_chunks b)) bs)) \<subseteq># mset utxos"
proof (induction fee ups utxos i used idx legs bs idx' rule: legs_ok.induct)
  case (3 fee ups utxos i used idx leg legs b bs idx')
  then obtain leg_fee where
    b: "batch_or_max utxos (leg_token_address leg) (leg_amount leg + fee_value leg_fee) (leg_up_to ups i)
          (1 + (if leg_fee \<noteq> None then 1 else 0)) 1 (MAX_BATCH_TRANSACTIONS - used) b"
    and rest: "legs_ok fee ups (remove_batch utxos b) (i + 1) (used + length (bs_chunks b))
          (if leg_fee \<noteq> None then Some i else idx) legs bs idx'" by auto
  from subset_mset.order_trans [OF subset_mset.add_left_mono [OF "3.IH" [OF rest]]
      remove_batch_mset [OF batch_or_max_chunks(1) [OF b]]]
  show ?case by simp
qed auto

lemma leg_fee_options_iff:
  "x \<in> set (leg_fee_options leg fee idx) \<longleftrightarrow>
     x = None \<or> idx = None \<and> x = fee \<and> fee \<noteq> None \<and> leg_token_address leg = bf_token_address (the fee)"
  by (auto simp: leg_fee_options_def split: option.splits if_splits)

definition fee_placed ::
  "broadcaster_fee_output option \<Rightarrow> composite_unshield_leg list \<Rightarrow> nat \<Rightarrow> nat option \<Rightarrow> nat option \<Rightarrow> bool" where
  "fee_placed fee legs i idx idx' \<longleftrightarrow>
     (if idx \<noteq> None then idx' = idx
      else fee = None \<and> idx' = None \<or>
        fee \<noteq> None \<and> (\<exists>j < length legs. idx' = Some (i + j) \<and> leg_token_address (legs ! j) = bf_token_address (the fee)))"

lemma legs_ok_fee: "legs_ok fee ups utxos i used idx legs bs idx' \<Longrightarrow> fee_placed fee legs i idx idx'"
proof (induction fee ups utxos i used idx legs bs idx' rule: legs_ok.induct)
  case (3 fee ups utxos i used idx leg legs b bs idx')
  then obtain leg_fee where lf: "leg_fee \<in> set (leg_fee_options leg fee idx)"
    and rest: "legs_ok fee ups (remove_batch utxos b) (i + 1) (used + length (bs_chunks b))
          (if leg_fee \<noteq> None then Some i else idx) legs bs idx'" by auto
  note IH = "3.IH" [OF rest]
  show ?case
  proof (cases "leg_fee = None")
    case True
    with IH have "fee_placed fee legs (i + 1) idx idx'" by simp
    then show ?thesis by (fastforce simp: fee_placed_def)
  next
    case False
    with IH have "idx' = Some i" by (simp add: fee_placed_def)
    with lf False show ?thesis by (auto simp: fee_placed_def leg_fee_options_iff intro!: exI [of _ 0])
  qed
qed (auto simp: fee_placed_def)

text \<open>The batch of one leg, selected from some of the notes of the wallet.\<close>

definition leg_batch ::
  "utxo list \<Rightarrow> composite_unshield_leg \<Rightarrow> broadcaster_fee_output option \<Rightarrow> bool \<Rightarrow> batch_utxo_selection \<Rightarrow> bool" where
  "leg_batch utxos leg leg_fee up b \<longleftrightarrow>
     (\<exists>us m. mset us \<subseteq># mset utxos \<and> m \<le> MAX_BATCH_TRANSACTIONS \<and>
        batch_or_max us (leg_token_address leg) (leg_amount leg + fee_value leg_fee) up
          (1 + (if leg_fee \<noteq> None then 1 else 0)) 1 m b)"

lemma leg_batch_mono: "leg_batch us leg fee up b \<Longrightarrow> mset us \<subseteq># mset utxos \<Longrightarrow> leg_batch utxos leg fee up b"
  unfolding leg_batch_def using subset_mset.order_trans by blast

lemma spendable_batch_mono:
  "spendable_batch us token first cont m b \<Longrightarrow> set us \<subseteq> set utxos \<Longrightarrow> m \<le> m' \<Longrightarrow> spendable_batch utxos token first cont m' b"
  unfolding spendable_batch_def by (elim conjE, intro conjI) (simp_all add: subset_trans)

lemma leg_batchE:
  assumes "leg_batch utxos leg fee up b" "distinct (map utxo_key utxos)" "nat_sum utxos < 2 ^ 256"
  obtains us m where "distinct (map utxo_key us)" "nat_sum us < 2 ^ 256" "set us \<subseteq> set utxos" "m \<le> MAX_BATCH_TRANSACTIONS"
    "batch_or_max us (leg_token_address leg) (leg_amount leg + fee_value fee) up (1 + (if fee \<noteq> None then 1 else 0)) 1 m b"
proof -
  from assms(1) obtain us m where sub: "mset us \<subseteq># mset utxos" and "m \<le> MAX_BATCH_TRANSACTIONS"
    "batch_or_max us (leg_token_address leg) (leg_amount leg + fee_value fee) up (1 + (if fee \<noteq> None then 1 else 0)) 1 m b"
    by (auto simp: leg_batch_def)
  then show ?thesis
    by (intro that [OF submset_distinct_keys(1) [OF sub assms(2)] le_less_trans [OF nat_sum_submset [OF sub] assms(3)]
          submset_distinct_keys(2) [OF sub assms(2)]])
qed

lemma leg_batch_spendable:
  assumes "leg_batch utxos leg fee up b" "distinct (map utxo_key utxos)" "nat_sum utxos < 2 ^ 256"
  shows "spendable_batch utxos (leg_token_address leg) (1 + (if fee \<noteq> None then 1 else 0)) 1 MAX_BATCH_TRANSACTIONS b"
    "leg_amount leg + fee_value fee \<le> bs_total b \<or> up"
proof -
  obtain us m where us: "distinct (map utxo_key us)" "nat_sum us < 2 ^ 256" "set us \<subseteq> set utxos" "m \<le> MAX_BATCH_TRANSACTIONS"
    and b: "batch_or_max us (leg_token_address leg) (leg_amount leg + fee_value fee) up (1 + (if fee \<noteq> None then 1 else 0)) 1 m b"
    by (rule leg_batchE [OF assms])
  note sp = batch_or_max_spendable [OF b us(1,2)]
  show "spendable_batch utxos (leg_token_address leg) (1 + (if fee \<noteq> None then 1 else 0)) 1 MAX_BATCH_TRANSACTIONS b"
    by (rule spendable_batch_mono [OF sp(1) us(3,4)])
  show "leg_amount leg + fee_value fee \<le> bs_total b \<or> up" by (rule sp(2))
qed

definition leg_fee_at :: "broadcaster_fee_output option \<Rightarrow> nat option \<Rightarrow> nat \<Rightarrow> broadcaster_fee_output option" where
  "leg_fee_at fee idx j = (if idx = Some j then fee else None)"

lemma legs_ok_batches:
  "legs_ok fee ups utxos i used idx legs bs idx' \<Longrightarrow> j < length legs \<Longrightarrow>
     leg_batch utxos (legs ! j) (if idx = None then leg_fee_at fee idx' (i + j) else None) (leg_up_to ups (i + j)) (bs ! j)"
proof (induction fee ups utxos i used idx legs bs idx' arbitrary: j rule: legs_ok.induct)
  case (3 fee ups utxos i used idx leg legs b bs idx')
  then obtain leg_fee where lf: "leg_fee \<in> set (leg_fee_options leg fee idx)"
    and b: "batch_or_max utxos (leg_token_address leg) (leg_amount leg + fee_value leg_fee) (leg_up_to ups i)
          (1 + (if leg_fee \<noteq> None then 1 else 0)) 1 (MAX_BATCH_TRANSACTIONS - used) b"
    and rest: "legs_ok fee ups (remove_batch utxos b) (i + 1) (used + length (bs_chunks b))
          (if leg_fee \<noteq> None then Some i else idx) legs bs idx'" by auto
  note placed = legs_ok_fee [OF rest]
  have at: "leg_fee = (if idx = None then leg_fee_at fee idx' i else None)"
  proof (cases "leg_fee = None")
    case True
    with placed have "idx = None \<Longrightarrow> idx' \<noteq> Some i \<or> fee = None" by (auto simp: fee_placed_def)
    with True show ?thesis by (auto simp: leg_fee_at_def)
  next
    case False
    with placed lf show ?thesis by (auto simp: fee_placed_def leg_fee_at_def leg_fee_options_iff)
  qed
  show ?case
  proof (cases j)
    case 0
    with b at show ?thesis unfolding leg_batch_def by (auto intro!: exI [of _ utxos] exI [of _ "MAX_BATCH_TRANSACTIONS - used"])
  next
    case (Suc k)
    then have "leg_batch (remove_batch utxos b) (legs ! k)
        (if (if leg_fee \<noteq> None then Some i else idx) = None then leg_fee_at fee idx' (i + 1 + k) else None)
        (leg_up_to ups (i + 1 + k)) (bs ! k)"
      using "3.IH" [OF rest, of k] "3.prems"(2) by simp
    moreover have "mset (remove_batch utxos b) \<subseteq># mset utxos"
      using remove_batch_mset [OF batch_or_max_chunks(1) [OF b]] by (metis mset_subset_eq_add_right subset_mset.order_trans)
    moreover have "(if (if leg_fee \<noteq> None then Some i else idx) = None then leg_fee_at fee idx' (i + 1 + k) else None) =
        (if idx = None then leg_fee_at fee idx' (i + j) else None)"
      using placed Suc by (auto simp: fee_placed_def leg_fee_at_def)
    ultimately show ?thesis using leg_batch_mono [of "remove_batch utxos b"] Suc by simp
  qed
qed auto

text \<open>
  Claim C22. When the legs of a composite action are selected, every leg has a batch that can be
  spent and covers its amount (unless spending up to it was asked for), no note is spent twice
  across all legs, at most \<open>MAX_BATCH_TRANSACTIONS\<close> transactions are used, and the broadcaster fee
  is added to exactly one leg, one with the fee's token.
\<close>

theorem composite_selections_sound:
  assumes "distinct (map utxo_key utxos)" "nat_sum utxos < 2 ^ 256" "used \<le> MAX_BATCH_TRANSACTIONS"
    and "select_composite_leg_selections_with_policy utxos legs fee ups used = Inr (bs, idx)"
  shows "length bs = length legs \<and>
    used + sum_list (map (\<lambda>b. length (bs_chunks b)) bs) \<le> MAX_BATCH_TRANSACTIONS \<and>
    distinct (map utxo_key (concat (map (\<lambda>b. chunk_inputs (bs_chunks b)) bs))) \<and>
    (if fee = None then idx = None
     else \<exists>j < length legs. idx = Some j \<and> leg_token_address (legs ! j) = bf_token_address (the fee)) \<and>
    (\<forall>j < length legs.
       spendable_batch utxos (leg_token_address (legs ! j)) (if idx = Some j then 2 else 1) 1 MAX_BATCH_TRANSACTIONS (bs ! j) \<and>
       (leg_amount (legs ! j) + fee_value (leg_fee_at fee idx j) \<le> bs_total (bs ! j) \<or> leg_up_to ups j))"
proof -
  have ok: "legs_ok fee ups utxos 0 used None legs bs idx"
    using select_inner_ok [OF assms(4) [unfolded select_composite_leg_selections_with_policy_def] assms(1)] by simp
  have placed: "fee_placed fee legs 0 None idx" by (rule legs_ok_fee [OF ok])
  have leg: "spendable_batch utxos (leg_token_address (legs ! j)) (if idx = Some j then 2 else 1) 1 MAX_BATCH_TRANSACTIONS (bs ! j) \<and>
      (leg_amount (legs ! j) + fee_value (leg_fee_at fee idx j) \<le> bs_total (bs ! j) \<or> leg_up_to ups j)" if "j < length legs" for j
  proof -
    have out: "1 + (if leg_fee_at fee idx j \<noteq> None then 1 else 0) = (if idx = Some j then 2 else 1 :: nat)"
      using placed by (auto simp: fee_placed_def leg_fee_at_def split: if_splits)
    have "leg_batch utxos (legs ! j) (leg_fee_at fee idx j) (leg_up_to ups j) (bs ! j)"
      using legs_ok_batches [OF ok that] by simp
    from leg_batch_spendable [OF this assms(1,2), unfolded out] show ?thesis by simp
  qed
  show ?thesis
    using legs_ok_sizes [OF ok] assms(3) submset_distinct_keys(1) [OF legs_ok_inputs [OF ok] assms(1)] placed leg
    by (auto simp: fee_placed_def)
qed

definition sample_leg :: composite_unshield_leg where
  "sample_leg = \<lparr>leg_token_address = 9, leg_amount = 5, leg_recipient = PublicRecipient 0, leg_role = OtherLeg\<rparr>"

lemma sample_legs:
  "\<exists>bs. select_composite_leg_selections_with_policy [sample_utxo 9 0 0 5] [sample_leg] None [False] 0 = Inr (bs, None)"
proof -
  let ?us = "[sample_utxo 9 0 0 5]"
  obtain cs where cs: "select_batched_utxo_candidates_with_limit ?us 9 5 False (Suc 0) (Suc 0) MAX_BATCH_TRANSACTIONS = Inr cs"
    using sample_selection
    by (auto simp: select_batched_utxo_candidates_with_limit_def select_batched_utxos_with_limit_def Let_def
        MAX_BATCH_TRANSACTIONS_def)
  have "cs \<noteq> []" using candidates_cases(1) [OF _ _ cs] by (simp add: MAX_BATCH_TRANSACTIONS_def)
  then obtain c cs' where "cs = c # cs'" by (cases cs) auto
  with cs show ?thesis
    by (simp add: select_composite_leg_selections_with_policy_def select_leg_def leg_fee_options_def sample_leg_def
        MAX_BATCH_TRANSACTIONS_def)
qed

lemma composite_selections_sound_witness:
  "\<exists>bs. select_composite_leg_selections_with_policy [sample_utxo 9 0 0 5] [sample_leg] None [False] 0 = Inr (bs, None) \<and>
     length bs = 1 \<and> spendable_batch [sample_utxo 9 0 0 5] 9 1 1 MAX_BATCH_TRANSACTIONS (bs ! 0) \<and> 5 \<le> bs_total (bs ! 0)"
proof -
  obtain bs where bs: "select_composite_leg_selections_with_policy [sample_utxo 9 0 0 5] [sample_leg] None [False] 0 = Inr (bs, None)"
    using sample_legs ..
  from composite_selections_sound [OF _ _ _ bs] bs show ?thesis
    by (auto simp: sample_leg_def leg_up_to_def leg_fee_at_def)
qed

section \<open>The preview of a mixed action\<close>

text \<open>The shapes of one leg: one per chunk, with its inputs, and all within the limits of the circuit.\<close>

definition fits_circuit :: "transaction_shape \<Rightarrow> bool" where
  "fits_circuit t \<longleftrightarrow> 0 < ts_input_count t \<and> ts_input_count t \<le> MAX_CIRCUIT_INPUTS \<and>
     0 < ts_output_count t \<and> 2 + ts_input_count t + ts_output_count t \<le> MAX_SIGNATURE_INPUTS"

definition leg_shapes :: "bool \<Rightarrow> batch_utxo_selection \<Rightarrow> transaction_shape list \<Rightarrow> bool" where
  "leg_shapes unshield b ts \<longleftrightarrow>
     map ts_input_count ts = map (\<lambda>c. length (sel_utxos c)) (bs_chunks b) \<and>
     list_all (\<lambda>t. fits_circuit t \<and> ts_has_unshield t = unshield) ts"

lemma shapes_of_leg:
  assumes "leg_batch utxos leg None up b" "distinct (map utxo_key utxos)" "nat_sum utxos < 2 ^ 256"
    "spend_allocations b (leg_amount leg) 0 None up = Inr as"
  shows "leg_shapes unshield b (shapes_of b as unshield)"
proof -
  obtain us m where us: "distinct (map utxo_key us)" "nat_sum us < 2 ^ 256" "set us \<subseteq> set utxos" "m \<le> MAX_BATCH_TRANSACTIONS"
    and "batch_or_max us (leg_token_address leg) (leg_amount leg + fee_value None) up
      (1 + (if None \<noteq> (None :: broadcaster_fee_output option) then 1 else 0)) 1 m b"
    by (rule leg_batchE [OF assms(1-3)])
  then have b: "batch_or_max us (leg_token_address leg) (leg_amount leg + fee_value None) up 1 1 m b" by simp
  have as: "spend_allocations b (leg_amount leg) (fee_value None) None up = Inr as" using assms(4) by simp
  have len: "length as = length (bs_chunks b)" using spend_allocations_Inr(1) [OF as] by (simp add: list_all2_lengthD)
  have "unat (leg_amount leg) + unat (fee_value None) < 2 ^ 256" using unsigned_less [of "leg_amount leg"] by simp
  note fit = spend_allocations_fit [OF b us(1,2) this as]
  have "fits_circuit (shapes_of b as unshield ! i) \<and> ts_has_unshield (shapes_of b as unshield ! i) = unshield"
    if i: "i < length (bs_chunks b)" for i
  proof -
    have "chunk_ok us (leg_token_address leg) (if i = 0 then 1 else 1) (bs_chunks b ! i)"
      by (rule chunks_ok_nth [OF batch_or_max_chunks(1) [OF b] _ i])
    then have "chunk_ok us (leg_token_address leg) 1 (bs_chunks b ! i)" by simp
    then show ?thesis
      using all_fit_nth [OF fit i] i len chunk_okD(4) [of us "leg_token_address leg" 1 "bs_chunks b ! i"]
      by (auto simp: shapes_of_def fits_circuit_def fits_def chunk_ok_def split: if_splits)
  qed
  then show ?thesis
    using len by (auto simp: leg_shapes_def list_all_length shapes_of_def intro!: nth_equalityI)
qed

text \<open>
  What the transactions of a leg look like: one for each chunk, with a payment and, in the last one, a
  change output when the batch is worth more than the amount of the leg.
\<close>

definition leg_transactions :: "bool \<Rightarrow> u256 \<Rightarrow> batch_utxo_selection \<Rightarrow> transaction_shape list" where
  "leg_transactions unshield amount b =
     map (\<lambda>(i, c). \<lparr>ts_input_count = length (sel_utxos c),
         ts_output_count = 1 + (if Suc i = length (bs_chunks b) \<and> amount < bs_total b then 1 else 0),
         ts_has_unshield = unshield\<rparr>) (enumerate 0 (bs_chunks b))"

lemma allocate_change:
  "allocate_chunks tot None cs rem = Inr (as, r) \<Longrightarrow> cs \<noteq> [] \<Longrightarrow> chunk_total_sum (butlast cs) < unat rem \<Longrightarrow>
     unat rem \<le> chunk_total_sum cs \<Longrightarrow>
     map (\<lambda>a. sa_change a \<noteq> 0) as = replicate (length cs - 1) False @ [unat rem < chunk_total_sum cs]"
proof (induction cs arbitrary: rem as)
  case (Cons c cs)
  from Cons.prems(1) obtain sp am as' where sp: "sp = sel_total c - fee_value None" and am: "am = min sp rem"
    and as': "allocate_chunks tot None cs (rem - am) = Inr (as', r)"
    and as: "as = \<lparr>sa_amount = am, sa_change = sp - am, sa_fee = None\<rparr> # as'" by (rule allocate_ConsE)
  show ?case
  proof (cases "cs = []")
    case True
    then have "rem \<le> sel_total c" using Cons.prems(4) by (simp add: word_le_nat_alt)
    then show ?thesis using True as as' by (auto simp: am sp min_def word_less_nat_alt [symmetric] le_less)
  next
    case False
    then have lt: "unat (sel_total c) + chunk_total_sum (butlast cs) < unat rem" using Cons.prems(3) by simp
    then have am': "am = sel_total c" by (simp add: am sp min_def word_le_nat_alt)
    have sub: "unat (rem - am) = unat rem - unat (sel_total c)" using lt by (simp add: am' unat_sub word_le_nat_alt)
    have "map (\<lambda>a. sa_change a \<noteq> 0) as' = replicate (length cs - 1) False @ [unat (rem - am) < chunk_total_sum cs]"
      using lt Cons.prems(4) by (intro Cons.IH [OF as' False]) (simp_all add: sub)
    moreover have "unat (rem - am) < chunk_total_sum cs \<longleftrightarrow> unat rem < unat (sel_total c) + chunk_total_sum cs"
      unfolding sub using lt by linarith
    moreover obtain d ds where "cs = d # ds" using False by (cases cs) auto
    ultimately show ?thesis by (simp add: as am' sp)
  qed
qed simp

lemma shapes_of_exact:
  assumes "leg_batch utxos leg None up b" "distinct (map utxo_key utxos)" "nat_sum utxos < 2 ^ 256"
    "spend_allocations b (leg_amount leg) 0 None up = Inr as"
  shows "shapes_of b as unshield = leg_transactions unshield (leg_amount leg) b"
proof -
  let ?n = "length (bs_chunks b)"
  define amount where "amount = (if up then min (bs_total b) (leg_amount leg) else leg_amount leg)"
  obtain us m where us: "nat_sum us < 2 ^ 256"
    and b: "batch_or_max us (leg_token_address leg) (leg_amount leg) up 1 1 m b"
    using leg_batchE [OF assms(1-3)] by (metis add.right_neutral fee_value_simps(1))
  have al: "allocate_chunks (bs_total b) None (bs_chunks b) amount = Inr (as, 0)" and nz: "leg_amount leg \<noteq> 0"
    and cov: "up \<or> leg_amount leg \<le> bs_total b"
    using assms(4) by (auto simp: spend_allocations_def Let_def not_less amount_def split: if_splits)
  note bd = batch_or_max_bounds [OF b us nz]
  have a: "unat amount = min (unat (leg_amount leg)) (unat (bs_total b))"
    using cov by (auto simp: amount_def unat_min word_le_nat_alt)
  have "map (\<lambda>a. sa_change a \<noteq> 0) as = replicate (?n - 1) False @ [unat amount < chunk_total_sum (bs_chunks b)]"
    using bd(3,4) by (intro allocate_change [OF al bd(1)]) (simp_all add: a)
  also have "unat amount < chunk_total_sum (bs_chunks b) \<longleftrightarrow> leg_amount leg < bs_total b"
    unfolding a using bd(3) by (auto simp: word_less_nat_alt)
  finally have ch: "map (\<lambda>a. sa_change a \<noteq> 0) as = replicate (?n - 1) False @ [leg_amount leg < bs_total b]" .
  have "length as = ?n" using arg_cong [OF ch, of length] bd(1) by (cases "bs_chunks b") simp_all
  moreover have "sa_change (as ! i) \<noteq> 0 \<longleftrightarrow> Suc i = ?n \<and> leg_amount leg < bs_total b" if "i < ?n" for i
    using arg_cong [OF ch, of "\<lambda>xs. xs ! i"] that \<open>length as = ?n\<close> by (auto simp: nth_append split: if_splits)
  ultimately show ?thesis
    by (intro nth_equalityI) (auto simp: shapes_of_def leg_transactions_def nth_enumerate_eq)
qed

lemma leg_shapes_sums:
  assumes "list_all2 (leg_shapes unshield) bs tss"
  shows "length (concat tss) = sum_list (map (\<lambda>b. length (bs_chunks b)) bs)"
    "sum_list (map ts_input_count (concat tss)) = length (concat (map (\<lambda>b. chunk_inputs (bs_chunks b)) bs))"
    "\<forall>t \<in> set (concat tss). fits_circuit t \<and> ts_has_unshield t = unshield"
  using assms
proof (induction bs tss rule: list_all2_induct)
  case (Cons b bs ts tss)
  have "length ts = length (bs_chunks b)" using Cons.hyps(1) by (metis leg_shapes_def length_map)
  moreover have "sum_list (map ts_input_count ts) = length (chunk_inputs (bs_chunks b))"
    using Cons.hyps(1) by (simp add: leg_shapes_def chunk_inputs_def length_concat comp_def)
  moreover have "\<forall>t \<in> set ts. fits_circuit t \<and> ts_has_unshield t = unshield"
    using Cons.hyps(1) by (simp add: leg_shapes_def list_all_iff)
  ultimately show "length (concat (ts # tss)) = sum_list (map (\<lambda>b. length (bs_chunks b)) (b # bs))"
    "sum_list (map ts_input_count (concat (ts # tss))) = length (concat (map (\<lambda>b. chunk_inputs (bs_chunks b)) (b # bs)))"
    "\<forall>t \<in> set (concat (ts # tss)). fits_circuit t \<and> ts_has_unshield t = unshield"
    using Cons.IH by auto
qed simp_all

lemma leg_shapes_counts:
  assumes "list_all2 (leg_shapes False) (drop u bs) tss" "list_all2 (leg_shapes True) (take u bs) uss"
  shows "length (concat tss @ concat uss) = sum_list (map (\<lambda>b. length (bs_chunks b)) bs)"
    "sum_list (map ts_input_count (concat tss @ concat uss)) = length (concat (map (\<lambda>b. chunk_inputs (bs_chunks b)) bs))"
    "\<forall>t \<in> set (concat tss @ concat uss). fits_circuit t"
    "length (filter ts_has_unshield (concat tss @ concat uss)) \<le> sum_list (map ts_output_count (concat tss @ concat uss))"
proof -
  note sends = leg_shapes_sums [OF assms(1)] and unshields = leg_shapes_sums [OF assms(2)]
  have split: "bs = take u bs @ drop u bs" by simp
  show "length (concat tss @ concat uss) = sum_list (map (\<lambda>b. length (bs_chunks b)) bs)"
    by (subst split) (simp only: map_append sum_list_append length_append sends(1) unshields(1) add.commute)
  show "sum_list (map ts_input_count (concat tss @ concat uss)) = length (concat (map (\<lambda>b. chunk_inputs (bs_chunks b)) bs))"
    by (subst split) (simp only: map_append concat_append sum_list_append length_append sends(2) unshields(2) add.commute)
  show fit: "\<forall>t \<in> set (concat tss @ concat uss). fits_circuit t" using sends(3) unshields(3) by auto
  have "length (filter ts_has_unshield ts) \<le> sum_list (map ts_output_count ts)" if "\<forall>t \<in> set ts. fits_circuit t" for ts
    using that by (induction ts) (auto simp: fits_circuit_def)
  from this [OF fit] show "length (filter ts_has_unshield (concat tss @ concat uss)) \<le>
      sum_list (map ts_output_count (concat tss @ concat uss))" .
qed

lemma send_leg_amount [simp]: "leg_amount (send_leg s) = mps_amount s"
  by (simp add: send_leg_def)

lemma mixed_transactions_shapes:
  assumes "mixed_transactions request bs = Inr ts"
    and "legs_ok None (replicate (length (mar_public_unshields request)) False
       @ replicate (length (mar_private_sends request)) (mar_spend_up_to request)) utxos 0 used None
       (mar_public_unshields request @ map send_leg (mar_private_sends request)) bs idx"
    and "distinct (map utxo_key utxos)" "nat_sum utxos < 2 ^ 256"
  obtains tss uss where "ts = concat tss @ concat uss"
    "list_all2 (leg_shapes False) (drop (length (mar_public_unshields request)) bs) tss"
    "list_all2 (leg_shapes True) (take (length (mar_public_unshields request)) bs) uss"
    "tss = map (\<lambda>k. leg_transactions False (mps_amount (mar_private_sends request ! k)) (bs ! (length (mar_public_unshields request) + k)))
       [0 ..< length (mar_private_sends request)]"
    "uss = map (\<lambda>k. leg_transactions True (leg_amount (mar_public_unshields request ! k)) (bs ! k))
       [0 ..< length (mar_public_unshields request)]"
proof -
  let ?u = "length (mar_public_unshields request)" let ?s = "length (mar_private_sends request)"
  let ?ups = "replicate ?u False @ replicate ?s (mar_spend_up_to request)"
  from assms(1) obtain tss uss where ts: "ts = concat tss @ concat uss"
    and tss: "map_result (\<lambda>(send_index, send).
         let selection = bs ! (?u + send_index)
         in bind_result (spend_allocations selection (mps_amount send) 0 None (mar_spend_up_to request))
              (\<lambda>allocations. Inr (shapes_of selection allocations False)))
       (enumerate 0 (mar_private_sends request)) = Inr tss"
    and uss: "map_result (\<lambda>(unshield_index, leg).
         let selection = bs ! unshield_index
         in bind_result (spend_allocations selection (leg_amount leg) 0 None False)
              (\<lambda>allocations. Inr (shapes_of selection allocations True)))
       (enumerate 0 (mar_public_unshields request)) = Inr uss"
    unfolding mixed_transactions_def by auto
  have len: "length bs = ?u + ?s" using legs_ok_sizes [OF assms(2)] by simp
  have batch: "leg_batch utxos ((mar_public_unshields request @ map send_leg (mar_private_sends request)) ! j) None
      (leg_up_to ?ups j) (bs ! j)" if "j < ?u + ?s" for j
    using legs_ok_batches [OF assms(2), of j] that by (simp add: leg_fee_at_def)
  have sends: "leg_shapes False (bs ! (?u + k)) (tss ! k) \<and>
      tss ! k = leg_transactions False (mps_amount (mar_private_sends request ! k)) (bs ! (?u + k))" if k: "k < ?s" for k
  proof -
    have "leg_batch utxos (send_leg (mar_private_sends request ! k)) None (mar_spend_up_to request) (bs ! (?u + k))"
      using batch [of "?u + k"] k by (simp add: nth_append leg_up_to_def)
    moreover obtain as where "spend_allocations (bs ! (?u + k)) (leg_amount (send_leg (mar_private_sends request ! k))) 0 None
        (mar_spend_up_to request) = Inr as" "tss ! k = shapes_of (bs ! (?u + k)) as False"
      using map_result_Inr [OF tss] k by (auto simp: nth_enumerate_eq send_leg_def Let_def)
    ultimately show ?thesis
      using shapes_of_leg [OF _ assms(3,4)] shapes_of_exact [OF _ assms(3,4)] by (metis send_leg_amount)
  qed
  have unshields: "leg_shapes True (bs ! k) (uss ! k) \<and>
      uss ! k = leg_transactions True (leg_amount (mar_public_unshields request ! k)) (bs ! k)" if k: "k < ?u" for k
  proof -
    have "leg_batch utxos (mar_public_unshields request ! k) None False (bs ! k)"
      using batch [of k] k by (simp add: nth_append leg_up_to_def)
    moreover obtain as where "spend_allocations (bs ! k) (leg_amount (mar_public_unshields request ! k)) 0 None False = Inr as"
        "uss ! k = shapes_of (bs ! k) as True"
      using map_result_Inr [OF uss] k by (auto simp: nth_enumerate_eq Let_def)
    ultimately show ?thesis
      using shapes_of_leg [OF _ assms(3,4)] shapes_of_exact [OF _ assms(3,4)] by metis
  qed
  have lens: "length tss = ?s" "length uss = ?u" using map_result_Inr [OF tss] map_result_Inr [OF uss] by simp_all
  show ?thesis
  proof (rule that [OF ts])
    show "list_all2 (leg_shapes False) (drop ?u bs) tss" "list_all2 (leg_shapes True) (take ?u bs) uss"
      using sends [THEN conjunct1] unshields [THEN conjunct1] len lens by (simp_all add: list_all2_conv_all_nth)
  qed (use sends [THEN conjunct2] unshields [THEN conjunct2] lens in \<open>auto intro!: nth_equalityI\<close>)
qed

definition mixed_legs :: "mixed_private_action_request \<Rightarrow> composite_unshield_leg list" where
  "mixed_legs request = mar_public_unshields request @ map send_leg (mar_private_sends request)"

definition mixed_up_to :: "mixed_private_action_request \<Rightarrow> bool list" where
  "mixed_up_to request = replicate (length (mar_public_unshields request)) False
     @ replicate (length (mar_private_sends request)) (mar_spend_up_to request)"

lemma case_insufficient_Inr:
  "(case r of Inl (InsufficientBalance most) \<Rightarrow> Inl (f most) | other \<Rightarrow> other) = Inr x \<longleftrightarrow> r = Inr x"
  by (auto split: sum.splits build_error.splits)

lemma check_rebuild_Inr:
  "check_rebuild rebuild p = Inr q \<longleftrightarrow>
     q = p \<and> (case rebuild of None \<Rightarrow> True | Some c \<Rightarrow>
       map_selected_inputs p = sort_unstable (mrc_selected_inputs c) \<and> map_shape p = mrc_expected_shape c)"
  by (auto simp: check_rebuild_def Let_def split: option.splits)

lemma select_mixed_Inr:
  assumes "select_mixed_private_action_plan builder utxos request = Inr plan"
  obtains cu idx execution calls relay ts where
    "case mar_rebuild request of None \<Rightarrow> cu = utxos | Some c \<Rightarrow> resolve_pinned_utxos utxos (mrc_selected_inputs c) = Inr cu"
    "select_composite_leg_selections_with_policy cu (mixed_legs request) None (mixed_up_to request) 0 =
       Inr (msp_selections plan, idx)"
    "mixed_transactions request (msp_selections plan) = Inr ts"
    "msp_preview plan = mixed_preview execution calls relay (msp_selections plan) ts"
    "check_rebuild (mar_rebuild request) (msp_preview plan) = Inr (msp_preview plan)"
  using assms unfolding select_mixed_private_action_plan_def mixed_legs_def [symmetric] mixed_up_to_def [symmetric] Let_def
  by (auto simp: case_insufficient_Inr check_rebuild_Inr split: if_splits option.splits)

lemma candidate_utxos:
  assumes "case mar_rebuild request of None \<Rightarrow> cu = utxos | Some c \<Rightarrow> resolve_pinned_utxos utxos (mrc_selected_inputs c) = Inr cu"
    "distinct (map utxo_key utxos)"
  shows "mset cu \<subseteq># mset utxos" "distinct (map utxo_key cu)"
proof -
  have "distinct (map utxo_key cu) \<and> set cu \<subseteq> set utxos"
    using assms map_find_Some [of utxo_key "rev utxos" _ cu]
    by (auto simp: resolve_pinned_utxos_iff split: option.splits)
  then show "distinct (map utxo_key cu)" "mset cu \<subseteq># mset utxos"
    using assms(2) subset_imp_msubset_mset_set [of "set cu" "set utxos"]
    by (auto simp: distinct_map simp flip: mset_set_set)
qed

text \<open>The selections behind a preview: one batch for each leg, in its token and worth its amount.\<close>

definition legs_covered :: "utxo list \<Rightarrow> mixed_private_action_request \<Rightarrow> batch_utxo_selection list \<Rightarrow> bool" where
  "legs_covered utxos request bs \<longleftrightarrow> length bs = length (mixed_legs request) \<and>
     (\<forall>j < length bs. spendable_batch utxos (leg_token_address (mixed_legs request ! j)) 1 1 MAX_BATCH_TRANSACTIONS (bs ! j) \<and>
        (leg_amount (mixed_legs request ! j) \<le> bs_total (bs ! j) \<or>
         length (mar_public_unshields request) \<le> j \<and> mar_spend_up_to request))"

lemma legs_ok_covered:
  assumes "legs_ok None (mixed_up_to request) cu 0 0 None (mixed_legs request) bs idx"
    "distinct (map utxo_key cu)" "nat_sum cu < 2 ^ 256" "set cu \<subseteq> set utxos"
  shows "legs_covered utxos request bs"
proof -
  have len: "length bs = length (mixed_legs request)" using legs_ok_sizes [OF assms(1)] by simp
  have "spendable_batch utxos (leg_token_address (mixed_legs request ! j)) 1 1 MAX_BATCH_TRANSACTIONS (bs ! j) \<and>
      (leg_amount (mixed_legs request ! j) \<le> bs_total (bs ! j) \<or>
       length (mar_public_unshields request) \<le> j \<and> mar_spend_up_to request)" if j: "j < length bs" for j
  proof -
    have "leg_batch cu (mixed_legs request ! j) None (leg_up_to (mixed_up_to request) j) (bs ! j)"
      using legs_ok_batches [OF assms(1), of j] j len by (simp add: leg_fee_at_def)
    note b = leg_batch_spendable [OF this assms(2,3)]
    have "spendable_batch utxos (leg_token_address (mixed_legs request ! j)) 1 1 MAX_BATCH_TRANSACTIONS (bs ! j)"
      using spendable_batch_mono [OF b(1) assms(4) order_refl] by simp
    moreover have "leg_up_to (mixed_up_to request) j \<Longrightarrow> length (mar_public_unshields request) \<le> j \<and> mar_spend_up_to request"
      by (auto simp: leg_up_to_def mixed_up_to_def nth_append split: if_splits)
    ultimately show ?thesis using b(2) by auto
  qed
  with len show ?thesis by (simp add: legs_covered_def)
qed

text \<open>
  Claim C23. The preview of a mixed action describes transactions that can be built. Behind it stands
  one batch for each leg, of notes of the wallet in the token of the leg that are worth its amount
  (only private sends may fall short, when spending up to the amount is allowed). The preview lists
  exactly the inputs of these batches, all distinct, and exactly their transactions, sends before
  unshields: one for each chunk, with one payment, and with a change output only in the last
  transaction of a leg and exactly when its batch is worth more than the amount. There are at most
  \<open>MAX_BATCH_TRANSACTIONS\<close> of them, each fits the circuit and the signature message, and the counts of
  the shape are those of the transactions. A pinned rebuild spends exactly the pinned notes in the
  expected shape.
\<close>

theorem mixed_preview_sound:
  assumes "distinct (map utxo_key utxos)" "nat_sum utxos < 2 ^ 256"
    and "preview_mixed_private_action_plan builder utxos request = Inr p"
  shows "(\<exists>bs. legs_covered utxos request bs \<and>
      mset (map_selected_inputs p) = mset (map utxo_key (concat (map (\<lambda>b. chunk_inputs (bs_chunks b)) bs))) \<and>
      map_transactions p =
        concat (map (\<lambda>k. leg_transactions False (mps_amount (mar_private_sends request ! k))
            (bs ! (length (mar_public_unshields request) + k))) [0 ..< length (mar_private_sends request)]) @
        concat (map (\<lambda>k. leg_transactions True (leg_amount (mar_public_unshields request ! k)) (bs ! k))
          [0 ..< length (mar_public_unshields request)])) \<and>
    distinct (map_selected_inputs p) \<and> set (map_selected_inputs p) \<subseteq> utxo_key ` set utxos \<and>
    length (map_transactions p) = cps_transaction_count (map_shape p) \<and>
    length (map_transactions p) \<le> MAX_BATCH_TRANSACTIONS \<and>
    list_all fits_circuit (map_transactions p) \<and>
    sum_list (map ts_input_count (map_transactions p)) = cps_input_count (map_shape p) \<and>
    cps_input_count (map_shape p) = length (map_selected_inputs p) \<and>
    sum_list (map ts_output_count (map_transactions p)) =
      cps_private_output_count (map_shape p) + cps_public_output_count (map_shape p) \<and>
    (case mar_rebuild request of None \<Rightarrow> True | Some c \<Rightarrow>
       set (map_selected_inputs p) = set (mrc_selected_inputs c) \<and> map_shape p = mrc_expected_shape c)"
proof -
  from assms(3) obtain plan where plan: "select_mixed_private_action_plan builder utxos request = Inr plan"
    and p: "p = msp_preview plan" by (auto simp: preview_mixed_private_action_plan_def)
  let ?bs = "msp_selections plan" let ?ins = "concat (map (\<lambda>b. chunk_inputs (bs_chunks b)) ?bs)"
  let ?u = "length (mar_public_unshields request)"
  obtain cu idx execution calls relay ts where
    cu: "case mar_rebuild request of None \<Rightarrow> cu = utxos | Some c \<Rightarrow> resolve_pinned_utxos utxos (mrc_selected_inputs c) = Inr cu"
    and sel: "select_composite_leg_selections_with_policy cu (mixed_legs request) None (mixed_up_to request) 0 = Inr (?bs, idx)"
    and ts: "mixed_transactions request ?bs = Inr ts"
    and pre: "msp_preview plan = mixed_preview execution calls relay ?bs ts"
    and reb: "check_rebuild (mar_rebuild request) (msp_preview plan) = Inr (msp_preview plan)"
    by (rule select_mixed_Inr [OF plan])
  note cu' = candidate_utxos [OF cu assms(1)]
  have sum: "nat_sum cu < 2 ^ 256" using nat_sum_submset [OF cu'(1)] assms(2) by simp
  have ok: "legs_ok None (mixed_up_to request) cu 0 0 None (mixed_legs request) ?bs idx"
    using select_inner_ok [OF sel [unfolded select_composite_leg_selections_with_policy_def] cu'(2)] by simp
  obtain tss uss where t: "ts = concat tss @ concat uss"
    and tss: "list_all2 (leg_shapes False) (drop ?u ?bs) tss" and uss: "list_all2 (leg_shapes True) (take ?u ?bs) uss"
    and exact: "tss = map (\<lambda>k. leg_transactions False (mps_amount (mar_private_sends request ! k)) (?bs ! (?u + k)))
        [0 ..< length (mar_private_sends request)]"
      "uss = map (\<lambda>k. leg_transactions True (leg_amount (mar_public_unshields request ! k)) (?bs ! k)) [0 ..< ?u]"
    by (rule mixed_transactions_shapes [OF ts ok [unfolded mixed_up_to_def mixed_legs_def] cu'(2) sum])
  note ins = submset_distinct_keys [OF legs_ok_inputs [OF ok] cu'(2)]
  note counts = leg_shapes_counts [OF tss uss, folded t]
  have ids: "map_selected_inputs p = sort_unstable (map utxo_key ?ins)"
    by (simp add: p pre mixed_preview_def Let_def chunk_inputs_def)
  have "distinct (map_selected_inputs p)" "set (map_selected_inputs p) \<subseteq> utxo_key ` set utxos"
    using ins cu'(1) distinct_map_sort_by [of id] unfolding ids sort_unstable_def
    by (auto dest!: mset_subset_eqD)
  moreover have "case mar_rebuild request of None \<Rightarrow> True | Some c \<Rightarrow>
      set (map_selected_inputs p) = set (mrc_selected_inputs c) \<and> map_shape p = mrc_expected_shape c"
    using reb unfolding p check_rebuild_Inr
    by (auto simp: sort_unstable_def split: option.splits dest: arg_cong [where f = set])
  moreover have "legs_covered utxos request ?bs"
    using cu'(1) by (intro legs_ok_covered [OF ok cu'(2) sum]) (metis set_mset_mono set_mset_mset)
  moreover have "mset (map_selected_inputs p) = mset (map utxo_key ?ins)" by (simp add: ids sort_unstable_def)
  moreover have "map_transactions p = concat tss @ concat uss" by (simp add: p pre mixed_preview_def Let_def t)
  ultimately show ?thesis
    using counts legs_ok_sizes [OF ok] unfolding exact
    by (intro conjI exI [of _ ?bs]) (simp_all add: p pre mixed_preview_def Let_def chunk_inputs_def list_all_iff sort_unstable_def)
qed

lemma leg_allocates:
  assumes "leg_batch utxos leg None up b" "distinct (map utxo_key utxos)" "nat_sum utxos < 2 ^ 256" "leg_amount leg \<noteq> 0"
  shows "\<exists>as. spend_allocations b (leg_amount leg) 0 None up = Inr as"
proof -
  obtain us m where us: "distinct (map utxo_key us)" "nat_sum us < 2 ^ 256" "set us \<subseteq> set utxos" "m \<le> MAX_BATCH_TRANSACTIONS"
    and "batch_or_max us (leg_token_address leg) (leg_amount leg + fee_value None) up
      (1 + (if None \<noteq> (None :: broadcaster_fee_output option) then 1 else 0)) 1 m b"
    by (rule leg_batchE [OF assms(1-3)])
  then have b: "batch_or_max us (leg_token_address leg) (leg_amount leg + fee_value None) up 1 1 m b" by simp
  have "fee_value None < sel_total (hd (bs_chunks b))"
    using batch_or_max_bounds(1,2) [OF b us(2)] assms(4) by (simp add: word_neq_0_conv)
  with spend_allocations_selected [OF b us(1,2) assms(4)] unsigned_less [of "leg_amount leg"]
  show ?thesis by simp
qed

definition sample_request :: mixed_private_action_request where
  "sample_request = \<lparr>mar_adapter = None, mar_executor_calls = [], mar_private_sends = [], mar_public_unshields = [sample_leg],
     mar_relay_actions = None, mar_min_gas_price = 0, mar_verify_proof = False, mar_spend_up_to = False, mar_rebuild = None\<rparr>"

lemma sample_preview: "\<exists>p. preview_mixed_private_action_plan builder [sample_utxo 9 0 0 5] sample_request = Inr p"
proof -
  let ?us = "[sample_utxo 9 0 0 5]"
  obtain bs where bs: "select_composite_leg_selections_with_policy ?us [sample_leg] None [False] 0 = Inr (bs, None)"
    using sample_legs ..
  have ok: "legs_ok None [False] ?us 0 0 None [sample_leg] bs None"
    using select_inner_ok [OF bs [unfolded select_composite_leg_selections_with_policy_def]] by simp
  have "leg_batch ?us sample_leg None False (bs ! 0)"
    using legs_ok_batches [OF ok, of 0] by (simp add: leg_fee_at_def leg_up_to_def)
  then obtain as where "spend_allocations (bs ! 0) 5 0 None False = Inr as"
    using leg_allocates [of ?us sample_leg False "bs ! 0"] by (auto simp: sample_leg_def)
  with bs show ?thesis
    by (simp add: preview_mixed_private_action_plan_def select_mixed_private_action_plan_def sample_request_def
        tb_composite_execution_def is_executor_adapter_def mixed_relay_call_count_def mixed_transactions_def
        check_rebuild_def sample_leg_def uses_relay_adapt_def)
qed

lemma mixed_preview_sound_witness:
  "\<exists>p bs. preview_mixed_private_action_plan \<lparr>tb_chain_type = 0, tb_chain_id = 1, tb_railgun_contract = 0\<rparr> [sample_utxo 9 0 0 5] sample_request = Inr p \<and>
     legs_covered [sample_utxo 9 0 0 5] sample_request bs \<and> map_transactions p = leg_transactions True 5 (bs ! 0) \<and>
     list_all fits_circuit (map_transactions p) \<and> set (map_selected_inputs p) \<subseteq> {(0, 0)}"
proof -
  obtain p where p: "preview_mixed_private_action_plan \<lparr>tb_chain_type = 0, tb_chain_id = 1, tb_railgun_contract = 0\<rparr>
      [sample_utxo 9 0 0 5] sample_request = Inr p" using sample_preview by blast
  from mixed_preview_sound [OF _ _ p] p show ?thesis by (auto simp: sample_request_def sample_leg_def)
qed

end
