(* ===== verification/DenseTree.thy ===== *)
theory DenseTree
  imports Forest
begin

text \<open>
  \<open>DenseMerkleTree\<close> of \<open>merkletree/src/tree/mod.rs\<close>: every layer of the tree stored as a vector.
  The lemmas show that every constructor stores the nodes of the perfect tree over its leaves,
  that \<open>set_leaf\<close> keeps this for the updated leaf function, and that its proofs are those of the
  sparse tree.
\<close>

section \<open>Data and operations\<close>

record dense_merkle_tree =
  dmt_layers :: "u256 list list"

text \<open>\<open>Vec::resize\<close>.\<close>

definition vec_resize :: "nat \<Rightarrow> 'a \<Rightarrow> 'a list \<Rightarrow> 'a list" where
  "vec_resize n v xs = take n xs @ replicate (n - length xs) v"

definition prefix_layer_step ::
  "hash_fn \<Rightarrow> u256 list \<times> u256 list list \<times> nat \<Rightarrow> nat \<Rightarrow> u256 list \<times> u256 list list \<times> nat" where
  "prefix_layer_step hash st level =
     (case st of (layer, layers, active_count) \<Rightarrow>
        let parent_count = length layer div 2;
            active_parent_count = (active_count + 1) div 2;
            parents = replicate parent_count (ZERO_HASHES hash (level + 1));
            parents = hash_parent_prefix hash layer (take active_parent_count parents)
                        @ drop active_parent_count parents
        in (parents, layers @ [parents], active_parent_count))"

definition from_prefix_leaf_layer :: "hash_fn \<Rightarrow> u256 list \<Rightarrow> nat \<Rightarrow> dense_merkle_tree" where
  "from_prefix_leaf_layer hash layer active_leaf_count =
     (let layer = take (unat TREE_LEAF_COUNT) (vec_resize (unat TREE_LEAF_COUNT) MERKLE_ZERO_VALUE layer);
          active_count = min active_leaf_count (unat TREE_LEAF_COUNT)
      in case foldl (prefix_layer_step hash) (layer, [layer], active_count) [0 ..< TREE_DEPTH] of
           (_, layers, _) \<Rightarrow> \<lparr>dmt_layers = layers\<rparr>)"

definition from_forest_prefix :: "hash_fn \<Rightarrow> merkle_forest \<Rightarrow> u32 \<Rightarrow> u64 \<Rightarrow> dense_merkle_tree" where
  "from_forest_prefix hash forest tree_number leaf_count =
     (let clamped_leaf_count = min leaf_count TREE_LEAF_COUNT;
          leaves = replicate (unat TREE_LEAF_COUNT) MERKLE_ZERO_VALUE;
          leaves = (case bt_get (mf_trees forest) tree_number of
                      None \<Rightarrow> leaves
                    | Some tree \<Rightarrow>
                        foldl (\<lambda>ls (position, leaf). ls[unat position := leaf]) leaves
                          (bt_range (mt_leaves tree) 0 clamped_leaf_count))
      in from_prefix_leaf_layer hash leaves (unat clamped_leaf_count))"

definition from_ordered_leaves :: "hash_fn \<Rightarrow> u256 list \<Rightarrow> u64 \<Rightarrow> dense_merkle_tree" where
  "from_ordered_leaves hash leaves leaf_count =
     (let clamped_leaf_count = unat (min leaf_count TREE_LEAF_COUNT);
          layer = foldl (\<lambda>l (index, leaf). l[index := leaf])
                    (replicate (unat TREE_LEAF_COUNT) MERKLE_ZERO_VALUE)
                    (enumerate 0 (take clamped_leaf_count leaves))
      in from_prefix_leaf_layer hash layer clamped_leaf_count)"

function push_layers :: "hash_fn \<Rightarrow> u256 list \<Rightarrow> u256 list list \<Rightarrow> u256 list list" where
  "push_layers hash layer layers =
     (if 1 < length layer
      then let layer' = hash_layer hash layer in push_layers hash layer' (layers @ [layer'])
      else layers)"
  by pat_completeness auto
termination
  by (relation "measure (\<lambda>(hash, layer, layers). length layer)") auto

declare push_layers.simps [simp del]

definition from_full_leaf_layer :: "hash_fn \<Rightarrow> u256 list \<Rightarrow> dense_merkle_tree" where
  "from_full_leaf_layer hash layer =
     (let layer = vec_resize (unat TREE_LEAF_COUNT) MERKLE_ZERO_VALUE layer;
          layer = (if unat TREE_LEAF_COUNT < length layer then take (unat TREE_LEAF_COUNT) layer else layer)
      in \<lparr>dmt_layers = push_layers hash layer [layer]\<rparr>)"

definition dense_root :: "dense_merkle_tree \<Rightarrow> u256" where
  "dense_root d =
     (if dmt_layers d = [] then MERKLE_ZERO_VALUE
      else (case last (dmt_layers d) of [] \<Rightarrow> MERKLE_ZERO_VALUE | r # _ \<Rightarrow> r))"

definition set_leaf_step :: "hash_fn \<Rightarrow> u256 list list \<times> nat \<Rightarrow> nat \<Rightarrow> u256 list list \<times> nat" where
  "set_leaf_step hash st level =
     (case st of (layers, index) \<Rightarrow>
        let parent_index = index div 2;
            left = layers ! level ! (parent_index * 2);
            right = layers ! level ! (parent_index * 2 + 1)
        in (layers[level + 1 := (layers ! (level + 1))[parent_index := poseidon hash [left, right]]],
            parent_index))"

definition set_leaf :: "hash_fn \<Rightarrow> u64 \<Rightarrow> u256 \<Rightarrow> dense_merkle_tree \<Rightarrow> dense_merkle_tree" where
  "set_leaf hash position leaf d =
     (let index = unat position; layers = dmt_layers d
      in if length (layers ! 0) \<le> index then d
         else \<lparr>dmt_layers = fst (foldl (set_leaf_step hash)
                  (layers[0 := (layers ! 0)[index := leaf]], index) [0 ..< TREE_DEPTH])\<rparr>)"

definition remove_leaf :: "hash_fn \<Rightarrow> u64 \<Rightarrow> dense_merkle_tree \<Rightarrow> dense_merkle_tree" where
  "remove_leaf hash position d = set_leaf hash position MERKLE_ZERO_VALUE d"

definition dense_prove_step ::
  "u256 list list \<Rightarrow> u256 list \<times> u8 list \<times> nat \<Rightarrow> nat \<Rightarrow> u256 list \<times> u8 list \<times> nat" where
  "dense_prove_step layers st level =
     (case st of (path_elements, path_indices, index) \<Rightarrow>
        let is_right = (index mod 2 = 1);
            sibling = (if is_right then index - 1 else index + 1)
        in (path_elements[level := layers ! level ! sibling],
            path_indices[level := (if is_right then 1 else 0)],
            index div 2))"

definition dense_prove :: "dense_merkle_tree \<Rightarrow> u64 \<Rightarrow> merkle_proof" where
  "dense_prove d position =
     (let local_position = position mod TREE_LEAF_COUNT
      in case foldl (dense_prove_step (dmt_layers d))
                (replicate TREE_DEPTH 0, replicate TREE_DEPTH 0, unat local_position) [0 ..< TREE_DEPTH] of
           (path_elements, path_indices, _) \<Rightarrow>
             \<lparr>mp_root = dense_root d, mp_leaf = dmt_layers d ! 0 ! unat local_position,
              mp_leaf_index = local_position,
              mp_path_elements = path_elements, mp_path_indices = path_indices\<rparr>)"

section \<open>The layer invariant\<close>

text \<open>Layer \<open>l\<close> of the tree over \<open>f\<close>.\<close>

definition node_layer :: "hash_fn \<Rightarrow> (nat \<Rightarrow> u256) \<Rightarrow> nat \<Rightarrow> u256 list" where
  "node_layer hash f l = map (node hash f l) [0 ..< 2 ^ (TREE_DEPTH - l)]"

definition dense_inv :: "hash_fn \<Rightarrow> (nat \<Rightarrow> u256) \<Rightarrow> dense_merkle_tree \<Rightarrow> bool" where
  "dense_inv hash f d \<longleftrightarrow> dmt_layers d = map (node_layer hash f) [0 ..< TREE_DEPTH + 1]"

lemma length_node_layer [simp]: "length (node_layer hash f l) = 2 ^ (TREE_DEPTH - l)"
  by (simp add: node_layer_def)

lemma nth_node_layer [simp]: "i < 2 ^ (TREE_DEPTH - l) \<Longrightarrow> node_layer hash f l ! i = node hash f l i"
  by (simp add: node_layer_def)

lemma layer_width_Suc: "l < TREE_DEPTH \<Longrightarrow> (2::nat) ^ (TREE_DEPTH - l) = 2 * 2 ^ (TREE_DEPTH - Suc l)"
  by (simp add: Suc_diff_Suc flip: power_Suc)

lemma dense_inv_nth: "dense_inv hash f d \<Longrightarrow> l \<le> TREE_DEPTH \<Longrightarrow> dmt_layers d ! l = node_layer hash f l"
  by (simp add: dense_inv_def del: upt_Suc)

lemma dense_inv_leaf:
  "dense_inv hash f d \<Longrightarrow> i < 65536 \<Longrightarrow> dmt_layers d ! 0 ! i = f i"
  by (simp add: dense_inv_nth flip: TREE_LEAF_COUNT_power)

lemma dense_inv_cong:
  assumes "\<And>i. i < 65536 \<Longrightarrow> f i = g i"
  shows "dense_inv hash f d = dense_inv hash g d"
proof -
  have "node_layer hash f l = node_layer hash g l" if "l \<le> TREE_DEPTH" for l
  proof -
    have "node hash f l i = node hash g l i" if i: "i < 2 ^ (TREE_DEPTH - l)" for i
    proof (rule node_cong)
      fix j assume "j < (i + 1) * 2 ^ l"
      also have "\<dots> \<le> 2 ^ (TREE_DEPTH - l) * 2 ^ l" using i by (intro mult_le_mono1) simp
      also have "\<dots> = 65536" using \<open>l \<le> TREE_DEPTH\<close> by (simp add: TREE_LEAF_COUNT_power flip: power_add)
      finally show "f j = g j" by (rule assms)
    qed
    then show ?thesis by (simp add: node_layer_def)
  qed
  then show ?thesis by (auto simp: dense_inv_def intro!: map_cong)
qed

lemma dense_root_node: "dense_inv hash f d \<Longrightarrow> dense_root d = node hash f TREE_DEPTH 0"
  by (simp add: dense_root_def dense_inv_def node_layer_def)

section \<open>Constructors\<close>

text \<open>Padding with zero hashes past the active prefix gives the parent layer.\<close>

lemma prefix_layer_step_node:
  assumes "level < TREE_DEPTH" "active \<le> 2 ^ (TREE_DEPTH - level)"
    and "\<And>j. active * 2 ^ level \<le> j \<Longrightarrow> f j = MERKLE_ZERO_VALUE"
  shows "prefix_layer_step hash (node_layer hash f level, ls, active) level =
     (node_layer hash f (Suc level), ls @ [node_layer hash f (Suc level)], (active + 1) div 2)"
proof -
  let ?n = "2 ^ (TREE_DEPTH - Suc level) :: nat"
  let ?a = "(active + 1) div 2"
  note width = layer_width_Suc [OF assms(1)]
  have a: "?a \<le> ?n" using assms(2) width by linarith
  define P where "P = hash_parent_prefix hash (node_layer hash f level)
      (take ?a (replicate ?n (ZERO_HASHES hash (level + 1)))) @ drop ?a (replicate ?n (ZERO_HASHES hash (level + 1)))"
  have "P = node_layer hash f (Suc level)"
  proof (rule nth_equalityI)
    show "length P = length (node_layer hash f (Suc level))"
      using a by (simp add: P_def hash_parent_prefix_eq)
    fix i assume "i < length P"
    then have i: "i < ?n" using a by (simp add: P_def hash_parent_prefix_eq)
    show "P ! i = node_layer hash f (Suc level) ! i"
    proof (cases "i < ?a")
      case True
      then show ?thesis
        using i a width by (simp add: P_def hash_parent_prefix_eq nth_append mult.commute)
    next
      case False
      then have "active \<le> 2 * i" by linarith
      then have "active * 2 ^ level \<le> 2 * i * 2 ^ level" by (rule mult_le_mono1)
      also have "\<dots> = i * 2 ^ Suc level" by (simp only: power_Suc mult_ac)
      finally have "node hash f (Suc level) i = ZERO_HASHES hash (Suc level)"
        using assms(1) by (intro node_zero_block assms(3)) (simp, rule order_trans)
      with False i a show ?thesis
        by (simp add: P_def hash_parent_prefix_eq nth_append)
    qed
  qed
  then show ?thesis using width by (simp add: prefix_layer_step_def Let_def P_def)
qed

lemma from_prefix_layers:
  assumes "active \<le> 65536" "\<And>j. active \<le> j \<Longrightarrow> f j = MERKLE_ZERO_VALUE" "n \<le> TREE_DEPTH"
  shows "\<exists>a. foldl (prefix_layer_step hash) (node_layer hash f 0, [node_layer hash f 0], active) [0 ..< n] =
       (node_layer hash f n, map (node_layer hash f) [0 ..< Suc n], a) \<and>
     a \<le> 2 ^ (TREE_DEPTH - n) \<and> active \<le> a * 2 ^ n"
  using assms(3)
proof (induction n)
  case 0
  then show ?case using assms(1) by (simp flip: TREE_LEAF_COUNT_power)
next
  case (Suc n)
  then obtain a where a: "foldl (prefix_layer_step hash) (node_layer hash f 0, [node_layer hash f 0], active) [0 ..< n] =
       (node_layer hash f n, map (node_layer hash f) [0 ..< Suc n], a)"
     "a \<le> 2 ^ (TREE_DEPTH - n)" "active \<le> a * 2 ^ n" by auto
  have "f j = MERKLE_ZERO_VALUE" if "a * 2 ^ n \<le> j" for j
    using that a(3) by (intro assms(2)) linarith
  then have step: "prefix_layer_step hash (node_layer hash f n, map (node_layer hash f) [0 ..< Suc n], a) n =
      (node_layer hash f (Suc n), map (node_layer hash f) [0 ..< Suc n] @ [node_layer hash f (Suc n)], (a + 1) div 2)"
    using Suc.prems a(2) by (intro prefix_layer_step_node) auto
  have "(a + 1) div 2 \<le> 2 ^ (TREE_DEPTH - Suc n)"
    using a(2) layer_width_Suc [of n] Suc.prems by linarith
  moreover have "a \<le> (a + 1) div 2 * 2" by linarith
  then have "a * 2 ^ n \<le> (a + 1) div 2 * 2 * 2 ^ n" by (rule mult_le_mono1)
  then have "active \<le> (a + 1) div 2 * 2 ^ Suc n" using a(3) unfolding power_Suc mult.assoc by (rule order_trans [rotated])
  moreover have "[0 ..< Suc n] = [0 ..< n] @ [n]" "[0 ..< Suc (Suc n)] = [0 ..< Suc n] @ [Suc n]" by simp_all
  ultimately show ?case using a(1) step by (simp del: upt_Suc)
qed

lemma resize_full: "length layer = unat TREE_LEAF_COUNT \<Longrightarrow> vec_resize (unat TREE_LEAF_COUNT) v layer = layer"
  by (simp add: vec_resize_def)

lemma layer_of_nth: "length layer = 65536 \<Longrightarrow> node_layer hash (\<lambda>i. if i < 65536 then layer ! i else v) 0 = layer"
  by (intro nth_equalityI) (simp_all flip: TREE_LEAF_COUNT_power)

lemma from_prefix_leaf_layer_inv:
  assumes "length layer = 65536" "active \<le> 65536"
    and "\<And>j. active \<le> j \<Longrightarrow> j < 65536 \<Longrightarrow> layer ! j = MERKLE_ZERO_VALUE"
  shows "dense_inv hash (\<lambda>i. layer ! i) (from_prefix_leaf_layer hash layer active)"
proof -
  define f where "f = (\<lambda>i. if i < 65536 then layer ! i else MERKLE_ZERO_VALUE)"
  have "node_layer hash f 0 = layer" unfolding f_def by (rule layer_of_nth [OF assms(1)])
  moreover have "\<And>j. active \<le> j \<Longrightarrow> f j = MERKLE_ZERO_VALUE" using assms(3) by (simp add: f_def)
  ultimately obtain a where
    "foldl (prefix_layer_step hash) (layer, [layer], active) [0 ..< TREE_DEPTH] =
       (node_layer hash f TREE_DEPTH, map (node_layer hash f) [0 ..< Suc TREE_DEPTH], a)"
    using from_prefix_layers [OF assms(2), of f TREE_DEPTH hash] by auto
  then have "dense_inv hash f (from_prefix_leaf_layer hash layer active)"
    using assms(1,2) by (simp add: dense_inv_def from_prefix_leaf_layer_def vec_resize_def Let_def del: upt_Suc)
  then show ?thesis using dense_inv_cong [of f "\<lambda>i. layer ! i"] by (simp add: f_def)
qed


lemma foldl_update_range:
  assumes "distinct (map fst m)" "\<And>k v. (k, v) \<in> set m \<Longrightarrow> unat k < length xs"
  shows "length (foldl (\<lambda>ls (k, v). ls[unat k := v]) xs m) = length xs"
    and "i < length xs \<Longrightarrow> i < 2 ^ 64 \<Longrightarrow> foldl (\<lambda>ls (k, v). ls[unat k := v]) xs m ! i =
      (case map_of m (word_of_nat i :: u64) of Some v \<Rightarrow> v | None \<Rightarrow> xs ! i)"
proof -
  show len: "length (foldl (\<lambda>ls (k, v). ls[unat k := v]) xs m) = length xs"
    by (induction m arbitrary: xs) auto
  show "i < length xs \<Longrightarrow> i < 2 ^ 64 \<Longrightarrow> foldl (\<lambda>ls (k, v). ls[unat k := v]) xs m ! i =
      (case map_of m (word_of_nat i :: u64) of Some v \<Rightarrow> v | None \<Rightarrow> xs ! i)"
    using assms
  proof (induction m arbitrary: xs)
    case (Cons kv m)
    obtain k v where kv: "kv = (k, v)" by (cases kv)
    have i: "unat (word_of_nat i :: u64) = i" using Cons.prems(2) by (rule unat_word_of_nat_u64)
    then have eq: "k = word_of_nat i \<longleftrightarrow> unat k = i" by (metis unsigned_word_eqI)
    have "foldl (\<lambda>ls (k, v). ls[unat k := v]) (xs[unat k := v]) m ! i =
        (case map_of m (word_of_nat i) of Some v \<Rightarrow> v | None \<Rightarrow> xs[unat k := v] ! i)"
      using Cons.prems by (intro Cons.IH) auto
    moreover have "map_of m k = None" using Cons.prems(3) by (auto simp: kv map_of_eq_None_iff)
    ultimately show ?case using Cons.prems(1) eq by (auto simp: kv nth_list_update split: option.splits)
  qed simp
qed

lemma map_of_filter_key:
  "map_of (filter (\<lambda>(k, v). P k) m) k = (if P k then map_of m k else None)"
  by (induction m) auto

theorem from_forest_prefix_inv:
  assumes "mf_inv hash f" "bt_get (mf_trees f) n = Some t"
  shows "dense_inv hash (leaf_fn (mt_leaves t) (min leaf_count TREE_LEAF_COUNT)) (from_forest_prefix hash f n leaf_count)"
proof -
  define c where "c = min leaf_count TREE_LEAF_COUNT"
  define m where "m = bt_range (mt_leaves t) 0 c"
  define L where "L = foldl (\<lambda>ls (k, v). ls[unat k := v]) (replicate 65536 MERKLE_ZERO_VALUE) m"
  have t: "bt_inv (mt_leaves t)" using assms by (auto simp: mf_inv_def mt_inv_def)
  have c: "unat c \<le> 65536" by (simp add: c_def min_def word_le_nat_alt)
  have m: "distinct (map fst m)" "\<And>k v. (k, v) \<in> set m \<Longrightarrow> unat k < length (replicate 65536 MERKLE_ZERO_VALUE)"
    using bt_inv_distinct [OF t] c
    by (auto simp: m_def bt_range_def distinct_map_filter word_less_nat_alt)
  have len: "length L = 65536" using foldl_update_range(1) [OF m] by (simp add: L_def)
  have nth: "L ! i = leaf_fn (mt_leaves t) c i" if "i < 65536" for i
  proof -
    have i: "unat (word_of_nat i :: u64) = i" using that by (intro unat_word_of_nat_u64) simp
    have "L ! i = (case map_of m (word_of_nat i) of Some v \<Rightarrow> v | None \<Rightarrow> MERKLE_ZERO_VALUE)"
      using foldl_update_range(2) [OF m, where i = i] that by (simp add: L_def cong: option.case_cong)
    also have "\<dots> = leaf_fn (mt_leaves t) c i"
      unfolding m_def bt_range_def map_of_filter_key leaf_fn_def bt_get_def
      by (simp add: word_less_nat_alt i)
    finally show ?thesis .
  qed
  have "dense_inv hash (\<lambda>i. L ! i) (from_prefix_leaf_layer hash L (unat c))"
    using c nth by (intro from_prefix_leaf_layer_inv len) (auto simp: leaf_fn_outside)
  moreover have "from_prefix_leaf_layer hash L (unat c) = from_forest_prefix hash f n leaf_count"
    by (simp add: from_forest_prefix_def assms(2) c_def m_def L_def Let_def)
  ultimately show ?thesis
    using dense_inv_cong [of "\<lambda>i. L ! i" "leaf_fn (mt_leaves t) c" hash] nth by (simp add: c_def)
qed

lemma foldl_enumerate:
  "n + length ys \<le> length xs \<Longrightarrow>
     foldl (\<lambda>l (i, v). l[i := v]) xs (enumerate n ys) = take n xs @ ys @ drop (n + length ys) xs"
proof (induction ys arbitrary: n xs)
  case (Cons y ys)
  have "foldl (\<lambda>l (i, v). l[i := v]) xs (enumerate n (y # ys)) =
      take (Suc n) (xs[n := y]) @ ys @ drop (Suc n + length ys) (xs[n := y])"
    using Cons.prems by (simp add: Cons.IH)
  then show ?case using Cons.prems by (simp add: take_Suc_conv_app_nth)
qed simp

text \<open>The leaf function of the first \<open>leaf_count\<close> of a list of leaves.\<close>

definition ordered_fn :: "u256 list \<Rightarrow> u64 \<Rightarrow> nat \<Rightarrow> u256" where
  "ordered_fn leaves leaf_count i =
     (if i < unat leaf_count \<and> i < length leaves then leaves ! i else MERKLE_ZERO_VALUE)"

lemma from_ordered_leaves_inv:
  "dense_inv hash (ordered_fn leaves (min leaf_count TREE_LEAF_COUNT)) (from_ordered_leaves hash leaves leaf_count)"
proof -
  define c where "c = min leaf_count TREE_LEAF_COUNT"
  define ys where "ys = take (unat c) leaves"
  have c: "unat c \<le> 65536" by (simp add: c_def min_def word_le_nat_alt)
  then have ys: "length ys \<le> 65536" by (simp add: ys_def)
  define L where "L = ys @ replicate (65536 - length ys) MERKLE_ZERO_VALUE"
  have L: "foldl (\<lambda>l (i, v). l[i := v]) (replicate 65536 MERKLE_ZERO_VALUE) (enumerate 0 ys) = L"
    using foldl_enumerate [of 0 ys "replicate 65536 MERKLE_ZERO_VALUE"] ys by (simp add: L_def)
  have nth: "L ! i = ordered_fn leaves c i" if "i < 65536" for i
    using that by (auto simp: L_def ordered_fn_def nth_append ys_def)
  have "dense_inv hash (\<lambda>i. L ! i) (from_prefix_leaf_layer hash L (unat c))"
    using c nth ys by (intro from_prefix_leaf_layer_inv) (auto simp: L_def ordered_fn_def)
  then show ?thesis
    using dense_inv_cong [of "\<lambda>i. L ! i" "ordered_fn leaves c" hash] nth L
    by (simp add: c_def from_ordered_leaves_def Let_def ys_def)
qed

lemma push_layers_node:
  "n \<le> TREE_DEPTH \<Longrightarrow> push_layers hash (node_layer hash f n) ls =
     ls @ map (node_layer hash f) [Suc n ..< TREE_DEPTH + 1]"
proof (induction "TREE_DEPTH - n" arbitrary: n ls)
  case 0
  then show ?case by (subst push_layers.simps) simp
next
  case (Suc k)
  then have n: "n < TREE_DEPTH" by simp
  have "hash_layer hash (node_layer hash f n) = node_layer hash f (Suc n)"
    by (rule nth_equalityI) (simp_all add: nth_hash_layer layer_width_Suc [OF n])
  moreover have "(1::nat) \<le> 2 ^ (TREE_DEPTH - Suc n)" by simp
  then have "1 < length (node_layer hash f n)" unfolding length_node_layer layer_width_Suc [OF n] by linarith
  moreover have "[Suc n ..< TREE_DEPTH + 1] = Suc n # [Suc (Suc n) ..< TREE_DEPTH + 1]"
    using n by (simp add: upt_conv_Cons del: upt_Suc)
  ultimately show ?case
    using Suc n by (subst push_layers.simps) (simp add: Let_def del: upt_Suc)
qed

lemma from_full_leaf_layer_inv:
  "dense_inv hash (ordered_fn layer TREE_LEAF_COUNT) (from_full_leaf_layer hash layer)"
proof -
  define f where "f = ordered_fn layer TREE_LEAF_COUNT"
  define L where "L = vec_resize 65536 MERKLE_ZERO_VALUE layer"
  have "length L = 65536" by (simp add: L_def vec_resize_def)
  moreover have "L = node_layer hash f 0"
    by (rule nth_equalityI)
       (auto simp: L_def vec_resize_def f_def ordered_fn_def nth_append simp flip: TREE_LEAF_COUNT_power)
  moreover have "[0 ..< TREE_DEPTH + 1] = 0 # [Suc 0 ..< TREE_DEPTH + 1]"
    by (simp add: upt_conv_Cons del: upt_Suc)
  ultimately show ?thesis
    by (simp add: from_full_leaf_layer_def dense_inv_def push_layers_node f_def [symmetric]
        L_def [symmetric] Let_def del: upt_Suc)
qed


section \<open>Leaf updates\<close>

lemma node_upd:
  "node hash (f(p := v)) l i = (if i = p div 2 ^ l then node hash (f(p := v)) l (p div 2 ^ l) else node hash f l i)"
proof (cases "i = p div 2 ^ l")
  case False
  have "p \<noteq> j" if "i * 2 ^ l \<le> j" "j < (i + 1) * 2 ^ l" for j
  proof -
    have "j div 2 ^ l = i" using that by (intro div_nat_eqI) (simp_all add: mult.commute)
    with False show ?thesis by auto
  qed
  then have "node hash (f(p := v)) l i = node hash f l i" by (intro node_cong) auto
  with False show ?thesis by simp
qed simp

lemma node_layer_upd:
  assumes "p < 65536" "l \<le> TREE_DEPTH"
  shows "node_layer hash (f(p := v)) l = (node_layer hash f l)[p div 2 ^ l := node hash (f(p := v)) l (p div 2 ^ l)]"
proof (rule nth_equalityI)
  fix i assume "i < length (node_layer hash (f(p := v)) l)"
  then have i: "i < 2 ^ (TREE_DEPTH - l)" by simp
  then show "node_layer hash (f(p := v)) l ! i =
      (node_layer hash f l)[p div 2 ^ l := node hash (f(p := v)) l (p div 2 ^ l)] ! i"
    using node_upd [of hash f p v l i] by (simp add: nth_list_update del: fun_upd_apply)
qed simp

text \<open>The layers after the first \<open>n\<close> iterations: updated up to layer \<open>n\<close>, old above.\<close>

definition mixed_layers :: "hash_fn \<Rightarrow> (nat \<Rightarrow> u256) \<Rightarrow> (nat \<Rightarrow> u256) \<Rightarrow> nat \<Rightarrow> u256 list list" where
  "mixed_layers hash g f n = map (\<lambda>l. node_layer hash (if l \<le> n then g else f) l) [0 ..< TREE_DEPTH + 1]"

lemma nth_mixed_layers:
  "l \<le> TREE_DEPTH \<Longrightarrow> mixed_layers hash g f n ! l = node_layer hash (if l \<le> n then g else f) l"
  by (simp add: mixed_layers_def del: upt_Suc)

lemma mixed_layers_Suc:
  "n < TREE_DEPTH \<Longrightarrow> (mixed_layers hash g f n)[Suc n := node_layer hash g (Suc n)] = mixed_layers hash g f (Suc n)"
  by (rule nth_equalityI) (auto simp: mixed_layers_def nth_list_update le_Suc_eq simp del: upt_Suc)

lemma set_leaf_step_mixed:
  assumes "p < 65536" "n < TREE_DEPTH" "g = f(p := v)"
  shows "set_leaf_step hash (mixed_layers hash g f n, p div 2 ^ n) n = (mixed_layers hash g f (Suc n), p div 2 ^ Suc n)"
proof -
  let ?i = "p div 2 ^ n div 2"
  have i: "?i = p div 2 ^ Suc n" by (simp only: power_Suc2 div_mult2_eq)
  have "p < 2 ^ Suc n * 2 ^ (TREE_DEPTH - Suc n)"
    using assms(1,2) by (simp add: TREE_LEAF_COUNT_power flip: power_add power_Suc)
  then have bound: "?i < 2 ^ (TREE_DEPTH - Suc n)"
    unfolding i by (simp only: less_mult_imp_div_less mult.commute)
  then have "node hash g (Suc n) ?i =
      poseidon hash [mixed_layers hash g f n ! n ! (?i * 2), mixed_layers hash g f n ! n ! (?i * 2 + 1)]"
    using assms(2) by (simp add: nth_mixed_layers layer_width_Suc [OF assms(2)] mult.commute)
  moreover have "node_layer hash g (Suc n) = (mixed_layers hash g f n ! Suc n)[?i := node hash g (Suc n) ?i]"
    using node_layer_upd [OF assms(1), of "Suc n" hash f v] assms(2,3) by (simp add: nth_mixed_layers i)
  ultimately show ?thesis
    unfolding set_leaf_step_def using mixed_layers_Suc [OF assms(2), of hash g f]
    by (simp add: Let_def i [simplified])
qed

theorem set_leaf_inv:
  assumes "dense_inv hash f d"
  shows "dense_inv hash (if unat p < 65536 then f(unat p := v) else f) (set_leaf hash p v d)"
proof (cases "unat p < 65536")
  case True
  define g where "g = f(unat p := v)"
  have layers: "dmt_layers d = mixed_layers hash f f 0"
    using assms by (simp add: dense_inv_def mixed_layers_def)
  have "(dmt_layers d)[0 := (dmt_layers d ! 0)[unat p := v]] = mixed_layers hash g f 0"
  proof (rule nth_equalityI)
    fix l assume "l < length ((dmt_layers d)[0 := (dmt_layers d ! 0)[unat p := v]])"
    then have "l \<le> TREE_DEPTH" by (simp add: layers mixed_layers_def)
    then show "(dmt_layers d)[0 := (dmt_layers d ! 0)[unat p := v]] ! l = mixed_layers hash g f 0 ! l"
      using node_layer_upd [OF True, of 0 hash f v]
      by (cases l) (simp_all add: layers nth_mixed_layers nth_list_update g_def mixed_layers_def del: upt_Suc)
  qed (simp add: layers mixed_layers_def)
  moreover have "foldl (set_leaf_step hash) (mixed_layers hash g f 0, unat p) [0 ..< n] =
      (mixed_layers hash g f n, unat p div 2 ^ n)" if "n \<le> TREE_DEPTH" for n
    using that
  proof (induction n)
    case (Suc n)
    then show ?case using set_leaf_step_mixed [OF True _ g_def, of n hash] by simp
  qed simp
  moreover have "length (dmt_layers d ! 0) = 65536"
    using dense_inv_nth [OF assms, of 0] by (simp flip: TREE_LEAF_COUNT_power)
  moreover have "dense_inv hash g \<lparr>dmt_layers = mixed_layers hash g f TREE_DEPTH\<rparr>"
    by (auto simp: dense_inv_def mixed_layers_def)
  ultimately show ?thesis using True by (simp add: set_leaf_def Let_def g_def [symmetric])
next
  case False
  moreover have "length (dmt_layers d ! 0) = 65536"
    using dense_inv_nth [OF assms, of 0] by (simp flip: TREE_LEAF_COUNT_power)
  ultimately show ?thesis using assms by (simp add: set_leaf_def)
qed

section \<open>Proofs\<close>

lemma sibling_in_layer:
  assumes "p < 65536" "l < TREE_DEPTH"
  shows "sibling_index (p div 2 ^ l) < 2 ^ (TREE_DEPTH - l)"
proof -
  have "(sibling_index (p div 2 ^ l) + 1) * 2 ^ l \<le> 2 ^ (TREE_DEPTH - l) * 2 ^ l"
    using sibling_index_bound [OF assms] assms(2) by (simp add: TREE_LEAF_COUNT_power flip: power_add)
  then have "sibling_index (p div 2 ^ l) + 1 \<le> 2 ^ (TREE_DEPTH - l)"
    by (rule mult_le_cancel2 [THEN iffD1, THEN mp]) simp
  then show ?thesis by simp
qed

theorem dense_prove_spec:
  assumes "dense_inv hash f d"
  shows "dense_prove d position = spec_proof hash f (position mod TREE_LEAF_COUNT)"
proof -
  define p where "p = position mod TREE_LEAF_COUNT"
  have p: "unat p < 65536" by (simp only: p_def unat_local_less)
  have step: "dense_prove_step (dmt_layers d) (xs, ys, unat p div 2 ^ k) k =
      (xs[k := node hash f k (sibling_index (unat p div 2 ^ k))],
       ys[k := word_of_nat (unat p div 2 ^ k mod 2)], unat p div 2 ^ Suc k)" if "k < TREE_DEPTH" for k xs ys
  proof -
    have "unat p div 2 ^ k div 2 = unat p div 2 ^ Suc k" by (simp only: power_Suc2 div_mult2_eq)
    moreover have "dmt_layers d ! k = node_layer hash f k" using that by (intro dense_inv_nth [OF assms]) simp
    moreover have "(if i mod 2 = 1 then i - 1 else i + 1) = sibling_index i" for i
      by (simp add: sibling_index_def odd_iff_mod_2_eq_one)
    ultimately show ?thesis
      using sibling_in_layer [OF p that]
      by (auto simp: dense_prove_step_def Let_def odd_iff_mod_2_eq_one even_iff_mod_2_eq_zero)
  qed
  have "foldl (dense_prove_step (dmt_layers d)) (replicate TREE_DEPTH 0, replicate TREE_DEPTH 0, unat p) [0 ..< TREE_DEPTH] =
      (map (\<lambda>l. node hash f l (sibling_index (unat p div 2 ^ l))) [0 ..< TREE_DEPTH],
       map (\<lambda>l. word_of_nat (unat p div 2 ^ l mod 2)) [0 ..< TREE_DEPTH], unat p div 2 ^ TREE_DEPTH)"
    using foldl_levels [of TREE_DEPTH "replicate TREE_DEPTH 0" "replicate TREE_DEPTH 0"
        "dense_prove_step (dmt_layers d)" "\<lambda>k. unat p div 2 ^ k", OF _ _ step] by simp
  then show ?thesis
    using dense_root_node [OF assms] dense_inv_leaf [OF assms p]
    by (simp add: dense_prove_def p_def [symmetric] Let_def spec_proof_def)
qed

text \<open>The dense tree is a proof source for the leaves of its bottom layer.\<close>

interpretation dense: proof_source hash dense_prove "\<lambda>d i. dmt_layers d ! 0 ! i"
    "\<lambda>d. dense_inv hash (\<lambda>i. dmt_layers d ! 0 ! i) d" for hash
  by unfold_locales (rule dense_prove_spec)

section \<open>Properties\<close>

text \<open>
  Claim C18. The dense tree built from the first \<open>leaf_count\<close> leaves of a forest tree gives, at every
  position, the proof the sparse tree gives for that prefix: root, leaf, siblings and path bits.
\<close>

theorem dense_sparse_equivalence:
  assumes "mf_inv hash f" "contains_tree f n" "p < TREE_LEAF_COUNT"
  shows "forest_prove_with_leaf_count hash f n p leaf_count =
     Some (dense_prove (from_forest_prefix hash f n leaf_count) p)"
proof -
  from assms(2) obtain t where t: "bt_get (mf_trees f) n = Some t"
    by (auto simp: contains_tree_def bt_contains_key_def)
  have "bt_inv (mt_leaves t)" using assms(1) t by (auto simp: mf_inv_def mt_inv_def)
  then show ?thesis
    using dense_prove_spec [OF from_forest_prefix_inv [OF assms(1) t], of leaf_count p]
    by (simp add: forest_prove_with_leaf_count_def normalize_local [OF assms(3)] t tree_prove_spec)
qed

text \<open>
  Claim C19. Updating leaves in place is rebuilding: after any sequence of \<open>set_leaf\<close> calls the dense
  tree built from a full leaf layer is the tree built from the updated layer, so every cached
  node and every proof is the one of a fresh construction; positions outside the tree change
  nothing.
\<close>

theorem set_leaf_rebuild:
  assumes "length layer = unat TREE_LEAF_COUNT"
  shows "fold (\<lambda>(p, v). set_leaf hash p v) us (from_full_leaf_layer hash layer) =
     from_full_leaf_layer hash (fold (\<lambda>(p, v) l. l[unat p := v]) us layer)"
  using assms
proof (induction us arbitrary: layer)
  case (Cons u us)
  obtain p v where u: "u = (p, v)" by (cases u)
  define layer' where "layer' = layer[unat p := v]"
  have "dense_inv hash (if unat p < 65536 then (ordered_fn layer TREE_LEAF_COUNT)(unat p := v)
      else ordered_fn layer TREE_LEAF_COUNT) (set_leaf hash p v (from_full_leaf_layer hash layer))"
    by (intro set_leaf_inv from_full_leaf_layer_inv)
  moreover have "(if unat p < 65536 then (ordered_fn layer TREE_LEAF_COUNT)(unat p := v)
      else ordered_fn layer TREE_LEAF_COUNT) = ordered_fn layer' TREE_LEAF_COUNT"
    using Cons.prems by (auto simp: ordered_fn_def fun_eq_iff layer'_def nth_list_update)
  ultimately have "set_leaf hash p v (from_full_leaf_layer hash layer) = from_full_leaf_layer hash layer'"
    using from_full_leaf_layer_inv [of hash layer'] by (simp add: dense_inv_def)
  then show ?case using Cons.IH [of layer'] Cons.prems by (simp add: u layer'_def)
qed simp

lemma dense_sparse_equivalence_witness:
  "let f = fst (insert_leaf forest_new \<lparr>upd_tree_number = 0, upd_tree_position = 0, upd_hash = 11\<rparr>)
   in forest_prove_with_leaf_count sum_list f 0 2 1 = Some (dense_prove (from_forest_prefix sum_list f 0 1) 2)"
proof -
  let ?f = "fst (insert_leaf forest_new \<lparr>upd_tree_number = 0, upd_tree_position = 0, upd_hash = 11\<rparr>)"
  have "mf_inv sum_list ?f" by (intro mf_inv_insert_leaf mf_inv_new)
  moreover have "contains_tree ?f 0"
    by (simp add: contains_tree_def bt_contains_key_def insert_leaf_def validate_tree_position_def
        tree_insert_def TREE_LEAF_COUNT_eq)
  moreover have "(2 :: u64) < TREE_LEAF_COUNT" by (simp add: TREE_LEAF_COUNT_eq)
  ultimately show ?thesis unfolding Let_def by (rule dense_sparse_equivalence)
qed

lemma set_leaf_rebuild_witness:
  "let l = replicate 65536 MERKLE_ZERO_VALUE
   in set_leaf sum_list 3 9 (from_full_leaf_layer sum_list l) = from_full_leaf_layer sum_list (l[3 := 9])"
  using set_leaf_rebuild [of "replicate 65536 MERKLE_ZERO_VALUE" sum_list "[(3, 9)]"] by (simp add: Let_def)

end
