(* ===== verification/PlanBuild.thy ===== *)
theory PlanBuild
  imports CompositeSpec DenseTree
begin

text \<open>
  Building a plan, the second half of \<open>railgun-wallet/src/tx/builder.rs\<close>: the witness cache, the
  outputs of a transaction, the unproven and the proven transaction and the plans made of them. The
  random draws and the witness cache are threaded through the calls.
\<close>

section \<open>Results\<close>

text \<open>
  A build fails with an error, or panics: \<open>CommitmentPreimage::new_unshield\<close> on a value of 120 bits
  or more, and \<open>expect\<close> on an empty list.
\<close>

datatype plan_failure = Failed build_error | Panicked

definition lift_build :: "build_error + 'a \<Rightarrow> plan_failure + 'a" where
  "lift_build r = (case r of Inl e \<Rightarrow> Inl (Failed e) | Inr a \<Rightarrow> Inr a)"

definition expect_first :: "'a list \<Rightarrow> plan_failure + 'a" where
  "expect_first xs = (case xs of [] \<Rightarrow> Inl Panicked | x # _ \<Rightarrow> Inr x)"

section \<open>Witness cache\<close>

text \<open>The timing of the dense builds is left out of the statistics.\<close>

record input_witness_proof_cache =
  pc_dense_trees :: "(u32, dense_merkle_tree) btree_map"
  pc_proof_count :: nat
  pc_dense_tree_build_count :: nat

definition SPARSE_WITNESS_PROOF_MAX_LEAVES :: nat where
  "SPARSE_WITNESS_PROOF_MAX_LEAVES = 64"

definition cache_new :: input_witness_proof_cache where
  "cache_new = \<lparr>pc_dense_trees = [], pc_proof_count = 0, pc_dense_tree_build_count = 0\<rparr>"

definition cache_prove ::
  "hash_fn \<Rightarrow> merkle_forest \<Rightarrow> input_witness_proof_cache \<Rightarrow> u32 \<Rightarrow> u64 \<Rightarrow>
     build_error + merkle_proof \<times> input_witness_proof_cache" where
  "cache_prove hash forest cache tree_number tree_position =
     (let (normalized_tree, normalized_position) = normalize_tree_position tree_number tree_position
      in if \<not> contains_tree forest normalized_tree then Inl (MissingProof tree_number tree_position)
         else if forest_leaf_count forest \<le> SPARSE_WITNESS_PROOF_MAX_LEAVES then
           let cache = cache\<lparr>pc_proof_count := pc_proof_count cache + 1\<rparr>
           in bind_result (ok_or (forest_prove hash forest normalized_tree normalized_position)
                  (MissingProof tree_number tree_position)) (\<lambda>proof. Inr (proof, cache))
         else
           let (dense, cache) = (case bt_get (pc_dense_trees cache) normalized_tree of
                   Some dense \<Rightarrow> (dense, cache)
                 | None \<Rightarrow>
                     let dense = from_forest_prefix hash forest normalized_tree TREE_LEAF_COUNT
                     in (dense, cache\<lparr>pc_dense_tree_build_count := pc_dense_tree_build_count cache + 1,
                          pc_dense_trees := bt_insert normalized_tree dense (pc_dense_trees cache)\<rparr>))
           in Inr (dense_prove dense normalized_position, cache\<lparr>pc_proof_count := pc_proof_count cache + 1\<rparr>))"

section \<open>Transactions\<close>

record build_state =
  bst_draws :: nat
  bst_cache :: input_witness_proof_cache

record transaction_plan_builder =
  tpb_builder :: transaction_builder
  tpb_viewing :: viewing_key_data
  tpb_forest :: merkle_forest
  tpb_inputs :: "utxo list"
  tpb_token_address :: address

record unproven_transaction_plan =
  utp_transaction :: railgun_transaction
  utp_tree_number :: u32
  utp_merkle_root :: u256
  utp_inputs :: "input_witness list"
  utp_outputs :: "railgun_note list"
  utp_has_unshield :: bool
  utp_private_inputs :: private_inputs

definition tpb_new ::
  "transaction_builder \<Rightarrow> viewing_key_data \<Rightarrow> merkle_forest \<Rightarrow> utxo list \<Rightarrow> address \<Rightarrow>
     build_error + transaction_plan_builder" where
  "tpb_new builder viewing forest inputs token_address =
     (if inputs = [] then Inl (InsufficientBalance 0)
      else if MAX_CIRCUIT_INPUTS < length inputs then Inl TooManyInputs
      else if list_ex (\<lambda>u. utxo_tree u \<noteq> utxo_tree (inputs ! 0)) inputs then Inl MixedTrees
      else if list_ex (\<lambda>u. note_token_hash (utxo_note u) \<noteq> u256_from_be_slice (address_bytes token_address)) inputs
        then Inl TokenMismatch
      else Inr \<lparr>tpb_builder = builder, tpb_viewing = viewing, tpb_forest = forest, tpb_inputs = inputs,
                tpb_token_address = token_address\<rparr>)"

definition tpb_tree_number :: "transaction_plan_builder \<Rightarrow> u32" where
  "tpb_tree_number b = utxo_tree (tpb_inputs b ! 0)"

definition tpb_total_value :: "transaction_plan_builder \<Rightarrow> u256" where
  "tpb_total_value b = foldl (\<lambda>s u. s + note_value (utxo_note u)) 0 (tpb_inputs b)"

definition compute_nullifiers :: "'p env \<Rightarrow> transaction_plan_builder \<Rightarrow> b256 list" where
  "compute_nullifiers env b =
     map (\<lambda>u. fb32 (u256_to_be_bytes (nullifier (env_hash env) (vk_nullifying_key (tpb_viewing b)) u))) (tpb_inputs b)"

text \<open>With a cache the proofs are made one after the other; without it each comes from the forest.\<close>

fun cached_witnesses ::
  "hash_fn \<Rightarrow> merkle_forest \<Rightarrow> utxo list \<Rightarrow> input_witness_proof_cache \<Rightarrow>
     build_error + input_witness list \<times> input_witness_proof_cache" where
  "cached_witnesses hash forest [] cache = Inr ([], cache)"
| "cached_witnesses hash forest (u # us) cache =
     bind_result (cache_prove hash forest cache (utxo_tree u) (utxo_position u)) (\<lambda>(proof, cache).
     bind_result (cached_witnesses hash forest us cache) (\<lambda>(ws, cache).
       Inr (\<lparr>iw_utxo = u, iw_merkle_proof = proof\<rparr> # ws, cache)))"

definition forest_witness :: "hash_fn \<Rightarrow> merkle_forest \<Rightarrow> utxo \<Rightarrow> build_error + input_witness" where
  "forest_witness hash forest u =
     bind_result (ok_or (forest_prove hash forest (utxo_tree u) (utxo_position u))
         (MissingProof (utxo_tree u) (utxo_position u)))
       (\<lambda>proof. Inr \<lparr>iw_utxo = u, iw_merkle_proof = proof\<rparr>)"

definition build_input_witnesses ::
  "'p env \<Rightarrow> transaction_plan_builder \<Rightarrow> input_witness_proof_cache option \<Rightarrow>
     build_error + input_witness list \<times> input_witness_proof_cache option" where
  "build_input_witnesses env b proof_cache =
     (case proof_cache of
        Some cache \<Rightarrow> bind_result (cached_witnesses (env_hash env) (tpb_forest b) (tpb_inputs b) cache)
          (\<lambda>(ws, cache). Inr (ws, Some cache))
      | None \<Rightarrow> bind_result (map_result (forest_witness (env_hash env) (tpb_forest b)) (tpb_inputs b))
          (\<lambda>ws. Inr (ws, None)))"

definition build_input_witnesses_and_root ::
  "'p env \<Rightarrow> transaction_plan_builder \<Rightarrow> input_witness_proof_cache option \<Rightarrow>
     build_error + input_witness list \<times> u256 \<times> input_witness_proof_cache option" where
  "build_input_witnesses_and_root env b proof_cache =
     bind_result (build_input_witnesses env b proof_cache) (\<lambda>(inputs, cache).
     bind_result (case inputs of [] \<Rightarrow> Inl MissingRoot | w # _ \<Rightarrow> Inr (mp_root (iw_merkle_proof w))) (\<lambda>root.
       Inr (inputs, root, cache)))"

definition validate_signature_limit :: "transaction_plan_builder \<Rightarrow> nat \<Rightarrow> build_error + unit" where
  "validate_signature_limit b num_outputs =
     (if MAX_SIGNATURE_INPUTS < 2 + length (tpb_inputs b) + num_outputs
      then Inl (SignatureInputLimit (length (tpb_inputs b)) num_outputs) else Inr ())"

definition compute_commitments :: "'p env \<Rightarrow> railgun_note list \<Rightarrow> b256 list" where
  "compute_commitments env outputs = map (\<lambda>n. fb32 (u256_to_be_bytes (commitment (env_hash env) n))) outputs"

definition with_min_gas_price :: "bound_params \<Rightarrow> u128 \<Rightarrow> build_error + bound_params" where
  "with_min_gas_price bp min_gas_price =
     (if 2 ^ 72 - 1 < unat min_gas_price then Inl (MinGasPriceTooLarge min_gas_price)
      else Inr (bp\<lparr>bp_min_gas_price := ucast min_gas_price\<rparr>))"

text \<open>
  The common body of \<open>build_unproven_unshield\<close>, \<open>build_unproven_send\<close> and
  \<open>build_unproven_fee_only\<close>: they differ in the bound parameters, the unshield preimage and the token.
\<close>

definition build_unproven ::
  "'p env \<Rightarrow> transaction_plan_builder \<Rightarrow> address \<Rightarrow> u128 \<Rightarrow> (railgun_note \<times> address) option \<Rightarrow>
     railgun_note list \<Rightarrow> note_ciphertext list \<Rightarrow> input_witness_proof_cache \<Rightarrow>
     plan_failure + unproven_transaction_plan \<times> input_witness_proof_cache" where
  "build_unproven env b token_address min_gas_price unshield outputs ciphertext proof_cache =
     bind_result (lift_build (validate_signature_limit b (length outputs))) (\<lambda>_.
     bind_result (lift_build (build_input_witnesses_and_root env b (Some proof_cache))) (\<lambda>(inputs, root, cache).
       let nullifiers = compute_nullifiers env b;
           commitments = compute_commitments env outputs;
           commitment_ciphertext = map ciphertext_from_note ciphertext;
           new_params = (if unshield \<noteq> None then bound_params_new_unshield else bound_params_new_transact);
           bound = new_params (tpb_tree_number b) (tb_chain_type (tpb_builder b)) (tb_chain_id (tpb_builder b))
             commitment_ciphertext 0 UNRELAYED_ADAPT_PARAMS
       in bind_result (lift_build (with_min_gas_price bound min_gas_price)) (\<lambda>bound_params.
          bind_result (case unshield of
                None \<Rightarrow> Inr preimage_empty
              | Some (n, token) \<Rightarrow> ok_or (preimage_new_unshield n token) Panicked) (\<lambda>preimage.
            Inr (\<lparr>utp_transaction = \<lparr>tx_proof = default_snark_proof, tx_merkle_root = fb32 (u256_to_be_bytes root),
                    tx_nullifiers = nullifiers, tx_commitments = commitments, tx_bound_params = bound_params,
                    tx_unshield_preimage = preimage\<rparr>,
                  utp_tree_number = tpb_tree_number b, utp_merkle_root = root, utp_inputs = inputs,
                  utp_outputs = outputs, utp_has_unshield = (unshield \<noteq> None),
                  utp_private_inputs = private_inputs_from_inputs env token_address inputs outputs (tpb_viewing b)\<rparr>,
                 the cache)))))"

definition build_unproven_unshield ::
  "'p env \<Rightarrow> transaction_plan_builder \<Rightarrow> unshield_request \<Rightarrow> railgun_note list \<Rightarrow> note_ciphertext list \<Rightarrow>
     railgun_note \<Rightarrow> input_witness_proof_cache \<Rightarrow>
     plan_failure + unproven_transaction_plan \<times> input_witness_proof_cache" where
  "build_unproven_unshield env b request outputs ciphertext unshield_note proof_cache =
     build_unproven env b (ur_token_address request) (ur_min_gas_price request)
       (Some (unshield_note, ur_token_address request)) outputs ciphertext proof_cache"

definition build_unproven_send ::
  "'p env \<Rightarrow> transaction_plan_builder \<Rightarrow> send_request \<Rightarrow> railgun_note list \<Rightarrow> note_ciphertext list \<Rightarrow>
     input_witness_proof_cache \<Rightarrow> plan_failure + unproven_transaction_plan \<times> input_witness_proof_cache" where
  "build_unproven_send env b request outputs ciphertext proof_cache =
     build_unproven env b (sr_token_address request) (sr_min_gas_price request) None outputs ciphertext proof_cache"

definition build_unproven_fee_only ::
  "'p env \<Rightarrow> transaction_plan_builder \<Rightarrow> address \<Rightarrow> u128 \<Rightarrow> railgun_note list \<Rightarrow> note_ciphertext list \<Rightarrow>
     input_witness_proof_cache \<Rightarrow> plan_failure + unproven_transaction_plan \<times> input_witness_proof_cache" where
  "build_unproven_fee_only env b token_address min_gas_price outputs ciphertext proof_cache =
     build_unproven env b token_address min_gas_price None outputs ciphertext proof_cache"

section \<open>Outputs\<close>

record send_outputs =
  so_outputs :: "railgun_note list"
  so_commitment_ciphertext :: "note_ciphertext list"
  so_broadcaster_fee_note :: "railgun_note option"
  so_recipient_note :: railgun_note
  so_change_note :: "railgun_note option"

record unshield_outputs =
  uo_outputs :: "railgun_note list"
  uo_commitment_ciphertext :: "note_ciphertext list"
  uo_broadcaster_fee_note :: "railgun_note option"
  uo_unshield_note :: railgun_note
  uo_unshield_output_index :: nat
  uo_change_note :: "railgun_note option"

record fee_only_outputs =
  fo_outputs :: "railgun_note list"
  fo_commitment_ciphertext :: "note_ciphertext list"
  fo_broadcaster_fee_note :: railgun_note
  fo_change_note :: "railgun_note option"

text \<open>
  A private note for a recipient, with the ciphertext: the random of the note, the random of the
  sender and the nonce are three draws.
\<close>

definition private_note ::
  "'p env \<Rightarrow> nat \<Rightarrow> address_data \<Rightarrow> address_data \<Rightarrow> address \<Rightarrow> u256 \<Rightarrow> bytes \<Rightarrow>
     build_error + (railgun_note \<times> note_ciphertext) \<times> nat" where
  "private_note env d sender recipient token_address amount sender_viewing_private_key =
     (let n = new_change (env_hash env) (ad_master_public_key recipient) token_address amount (env_rand env d 16)
      in case try_from_note (env_aes env) (env_curve env) (env_iv env (d + 2)) (env_rand env (d + 1) 15) n
                sender recipient sender_viewing_private_key of
           Inl e \<Rightarrow> Inl (Encrypt e)
         | Inr ciphertext \<Rightarrow> Inr ((n, ciphertext), d + 3))"

definition push_broadcaster_fee_output ::
  "'p env \<Rightarrow> nat \<Rightarrow> railgun_note list \<Rightarrow> note_ciphertext list \<Rightarrow> address_data \<Rightarrow>
     broadcaster_fee_output option \<Rightarrow> bytes \<Rightarrow>
     build_error + (railgun_note list \<times> note_ciphertext list \<times> railgun_note option) \<times> nat" where
  "push_broadcaster_fee_output env d outputs ciphertext sender broadcaster_fee sender_viewing_private_key =
     (case broadcaster_fee of
        None \<Rightarrow> Inr ((outputs, ciphertext, None), d)
      | Some fee \<Rightarrow>
          bind_result (private_note env d sender (bf_recipient fee) (bf_token_address fee) (bf_amount fee)
              sender_viewing_private_key) (\<lambda>((n, c), d).
            Inr ((outputs @ [n], ciphertext @ [c], Some n), d)))"

text \<open>The change note that all three builders append when there is change.\<close>

definition push_change_output ::
  "'p env \<Rightarrow> nat \<Rightarrow> railgun_note list \<Rightarrow> note_ciphertext list \<Rightarrow> address_data \<Rightarrow> address \<Rightarrow> u256 \<Rightarrow> bytes \<Rightarrow>
     build_error + (railgun_note list \<times> note_ciphertext list \<times> railgun_note option) \<times> nat" where
  "push_change_output env d outputs ciphertext sender token_address change sender_viewing_private_key =
     (if change = 0 then Inr ((outputs, ciphertext, None), d)
      else bind_result (private_note env d sender sender token_address change sender_viewing_private_key)
             (\<lambda>((n, c), d). Inr ((outputs @ [n], ciphertext @ [c], Some n), d)))"

definition build_fee_only_outputs ::
  "'p env \<Rightarrow> nat \<Rightarrow> broadcaster_fee_output \<Rightarrow> u256 \<Rightarrow> address_data \<Rightarrow> bytes \<Rightarrow>
     plan_failure + fee_only_outputs \<times> nat" where
  "build_fee_only_outputs env d broadcaster_fee change sender sender_viewing_private_key =
     bind_result (lift_build (push_broadcaster_fee_output env d [] [] sender (Some broadcaster_fee)
         sender_viewing_private_key)) (\<lambda>((outputs, ciphertext, fee_note), d).
     bind_result (ok_or fee_note Panicked) (\<lambda>broadcaster_fee_note.
     bind_result (lift_build (push_change_output env d outputs ciphertext sender (bf_token_address broadcaster_fee)
         change sender_viewing_private_key)) (\<lambda>((outputs, ciphertext, change_note), d).
       Inr (\<lparr>fo_outputs = outputs, fo_commitment_ciphertext = ciphertext,
             fo_broadcaster_fee_note = broadcaster_fee_note, fo_change_note = change_note\<rparr>, d))))"

definition build_unshield_outputs ::
  "'p env \<Rightarrow> nat \<Rightarrow> address \<Rightarrow> u256 \<Rightarrow> address \<Rightarrow> u256 \<Rightarrow> address_data \<Rightarrow> broadcaster_fee_output option \<Rightarrow> bytes \<Rightarrow>
     build_error + unshield_outputs \<times> nat" where
  "build_unshield_outputs env d token_address amount recipient change receiver broadcaster_fee
       sender_viewing_private_key =
     bind_result (push_broadcaster_fee_output env d [] [] receiver broadcaster_fee sender_viewing_private_key)
       (\<lambda>((outputs, ciphertext, fee_note), d).
     bind_result (push_change_output env d outputs ciphertext receiver token_address change sender_viewing_private_key)
       (\<lambda>((outputs, ciphertext, change_note), d).
         let unshield_note = new_unshield recipient token_address amount
         in Inr (\<lparr>uo_outputs = outputs @ [unshield_note], uo_commitment_ciphertext = ciphertext,
                 uo_broadcaster_fee_note = fee_note, uo_unshield_note = unshield_note,
                 uo_unshield_output_index = length outputs, uo_change_note = change_note\<rparr>, d)))"

definition build_send_outputs ::
  "'p env \<Rightarrow> nat \<Rightarrow> address \<Rightarrow> u256 \<Rightarrow> u256 \<Rightarrow> address_data \<Rightarrow> address_data \<Rightarrow> broadcaster_fee_output option \<Rightarrow>
     bytes \<Rightarrow> build_error + send_outputs \<times> nat" where
  "build_send_outputs env d token_address amount change sender recipient broadcaster_fee
       sender_viewing_private_key =
     bind_result (push_broadcaster_fee_output env d [] [] sender broadcaster_fee sender_viewing_private_key)
       (\<lambda>((outputs, ciphertext, fee_note), d).
     bind_result (private_note env d sender recipient token_address amount sender_viewing_private_key)
       (\<lambda>((recipient_note, c), d).
     bind_result (push_change_output env d (outputs @ [recipient_note]) (ciphertext @ [c]) sender token_address change
         sender_viewing_private_key) (\<lambda>((outputs, ciphertext, change_note), d).
       Inr (\<lparr>so_outputs = outputs, so_commitment_ciphertext = ciphertext, so_broadcaster_fee_note = fee_note,
             so_recipient_note = recipient_note, so_change_note = change_note\<rparr>, d))))"

section \<open>Proving\<close>

record proven_transaction_plan =
  ptp_transaction :: railgun_transaction
  ptp_chunk :: transaction_plan_chunk

text \<open>
  The public inputs, the signature and the proof of one transaction. The transactions of a plan are
  proved concurrently and collected in order, so the first failing one is reported.
\<close>

definition prove_transaction_plan ::
  "'p env \<Rightarrow> bool \<Rightarrow> unproven_transaction_plan \<Rightarrow> build_error + proven_transaction_plan" where
  "prove_transaction_plan env verify plan =
     (let public_inputs = public_inputs_from_transaction env (utp_merkle_root plan) (utp_transaction plan) (utp_outputs plan);
          signature = public_inputs_signature env public_inputs
      in bind_result (ok_or (env_prove env public_inputs (utp_private_inputs plan) signature verify) Prover)
           (\<lambda>proof.
             Inr \<lparr>ptp_transaction = (utp_transaction plan)\<lparr>tx_proof := proof\<rparr>,
                  ptp_chunk = \<lparr>tpc_tree_number = utp_tree_number plan, tpc_merkle_root = utp_merkle_root plan,
                    tpc_inputs = utp_inputs plan, tpc_outputs = utp_outputs plan,
                    tpc_has_unshield = utp_has_unshield plan, tpc_public_inputs = public_inputs,
                    tpc_private_inputs = utp_private_inputs plan, tpc_signature = signature\<rparr>\<rparr>))"

definition prove_transaction_plans ::
  "'p env \<Rightarrow> unproven_transaction_plan list \<Rightarrow> bool \<Rightarrow> build_error + proven_transaction_plan list" where
  "prove_transaction_plans env plans verify = map_result (prove_transaction_plan env verify) plans"

section \<open>Batches\<close>

text \<open>One iteration of the loops over the chunks: the builder, the outputs and the unproven transaction.\<close>

definition unshield_chunk ::
  "'p env \<Rightarrow> transaction_builder \<Rightarrow> viewing_key_data \<Rightarrow> merkle_forest \<Rightarrow> unshield_request \<Rightarrow> utxo_selection \<Rightarrow>
     u256 \<Rightarrow> u256 \<Rightarrow> broadcaster_fee_output option \<Rightarrow> build_state \<Rightarrow>
     plan_failure + (unshield_outputs \<times> unproven_transaction_plan) \<times> build_state" where
  "unshield_chunk env builder viewing forest request chunk amount change fee st =
     bind_result (lift_build (tpb_new builder viewing forest (sel_utxos chunk) (ur_token_address request))) (\<lambda>b.
     bind_result (lift_build (build_unshield_outputs env (bst_draws st) (ur_token_address request) amount
         (ur_recipient request) change (address_data viewing) fee (vk_viewing_private_key viewing))) (\<lambda>(outs, d).
     bind_result (build_unproven_unshield env b request (uo_outputs outs) (uo_commitment_ciphertext outs)
         (uo_unshield_note outs) (bst_cache st)) (\<lambda>(plan, cache).
       Inr ((outs, plan), \<lparr>bst_draws = d, bst_cache = cache\<rparr>))))"

definition send_chunk ::
  "'p env \<Rightarrow> transaction_builder \<Rightarrow> viewing_key_data \<Rightarrow> merkle_forest \<Rightarrow> send_request \<Rightarrow> utxo_selection \<Rightarrow>
     u256 \<Rightarrow> u256 \<Rightarrow> broadcaster_fee_output option \<Rightarrow> build_state \<Rightarrow>
     plan_failure + (send_outputs \<times> unproven_transaction_plan) \<times> build_state" where
  "send_chunk env builder viewing forest request chunk amount change fee st =
     bind_result (lift_build (tpb_new builder viewing forest (sel_utxos chunk) (sr_token_address request))) (\<lambda>b.
     bind_result (lift_build (build_send_outputs env (bst_draws st) (sr_token_address request) amount change
         (address_data viewing) (sr_recipient request) fee (vk_viewing_private_key viewing))) (\<lambda>(outs, d).
     bind_result (build_unproven_send env b request (so_outputs outs) (so_commitment_ciphertext outs) (bst_cache st))
       (\<lambda>(plan, cache). Inr ((outs, plan), \<lparr>bst_draws = d, bst_cache = cache\<rparr>))))"

definition fee_only_chunk ::
  "'p env \<Rightarrow> transaction_builder \<Rightarrow> viewing_key_data \<Rightarrow> merkle_forest \<Rightarrow> broadcaster_fee_output \<Rightarrow> u128 \<Rightarrow>
     utxo_selection \<Rightarrow> build_state \<Rightarrow>
     plan_failure + (fee_only_outputs \<times> unproven_transaction_plan) \<times> build_state" where
  "fee_only_chunk env builder viewing forest fee min_gas_price fee_selection st =
     (let fee_change = sel_total fee_selection - bf_amount fee
      in bind_result (lift_build (tpb_new builder viewing forest (sel_utxos fee_selection) (bf_token_address fee))) (\<lambda>b.
         bind_result (build_fee_only_outputs env (bst_draws st) fee fee_change (address_data viewing)
             (vk_viewing_private_key viewing)) (\<lambda>(outs, d).
         bind_result (build_unproven_fee_only env b (bf_token_address fee) min_gas_price (fo_outputs outs)
             (fo_commitment_ciphertext outs) (bst_cache st)) (\<lambda>(plan, cache).
           Inr ((outs, plan), \<lparr>bst_draws = d, bst_cache = cache\<rparr>)))))"

text \<open>A loop that threads a state and stops at the first failure.\<close>

fun map_state :: "('a \<Rightarrow> 's \<Rightarrow> 'e + 'b \<times> 's) \<Rightarrow> 'a list \<Rightarrow> 's \<Rightarrow> 'e + 'b list \<times> 's" where
  "map_state f [] s = Inr ([], s)"
| "map_state f (x # xs) s =
     bind_result (f x s) (\<lambda>(y, s). bind_result (map_state f xs s) (\<lambda>(ys, s). Inr (y # ys, s)))"

definition unshield_loop ::
  "'p env \<Rightarrow> transaction_builder \<Rightarrow> viewing_key_data \<Rightarrow> merkle_forest \<Rightarrow> unshield_request \<Rightarrow>
     (utxo_selection \<times> spend_allocation) list \<Rightarrow> build_state \<Rightarrow>
     plan_failure + (unshield_outputs \<times> unproven_transaction_plan) list \<times> build_state" where
  "unshield_loop env builder viewing forest request =
     map_state (\<lambda>(chunk, a). unshield_chunk env builder viewing forest request chunk (sa_amount a) (sa_change a) (sa_fee a))"

definition send_loop ::
  "'p env \<Rightarrow> transaction_builder \<Rightarrow> viewing_key_data \<Rightarrow> merkle_forest \<Rightarrow> send_request \<Rightarrow>
     (utxo_selection \<times> spend_allocation) list \<Rightarrow> build_state \<Rightarrow>
     plan_failure + (send_outputs \<times> unproven_transaction_plan) list \<times> build_state" where
  "send_loop env builder viewing forest request =
     map_state (\<lambda>(chunk, a). send_chunk env builder viewing forest request chunk (sa_amount a) (sa_change a) (sa_fee a))"

text \<open>The first fee note and the last change note of the loop.\<close>

definition first_note :: "railgun_note option list \<Rightarrow> railgun_note option" where
  "first_note ns = foldl (\<lambda>acc n. if acc = None then n else acc) None ns"

definition last_note :: "railgun_note option \<Rightarrow> railgun_note option list \<Rightarrow> railgun_note option" where
  "last_note start ns = foldl (\<lambda>acc n. if n \<noteq> None then n else acc) start ns"

definition transact_call :: "'p env \<Rightarrow> transaction_builder \<Rightarrow> railgun_transaction list \<Rightarrow> transaction_call" where
  "transact_call env builder transactions =
     \<lparr>tc_to = tb_railgun_contract builder, tc_data = abi_call (env_abi env) (TransactCall transactions)\<rparr>"

text \<open>The end of both unshield batches: proving and collecting the plan.\<close>

definition finish_unshield ::
  "'p env \<Rightarrow> transaction_builder \<Rightarrow> unproven_transaction_plan list \<Rightarrow> bool \<Rightarrow> railgun_note option \<Rightarrow>
     railgun_note list \<Rightarrow> railgun_note option \<Rightarrow> plan_failure + unshield_plan" where
  "finish_unshield env builder unproven_plans verify fee_note unshield_notes change_note =
     bind_result (lift_build (prove_transaction_plans env unproven_plans verify)) (\<lambda>proven.
       let transactions = map ptp_transaction proven; chunks = map ptp_chunk proven
       in bind_result (expect_first chunks) (\<lambda>first_chunk.
          bind_result (expect_first unshield_notes) (\<lambda>unshield_note.
            Inr \<lparr>up_call = transact_call env builder transactions,
                 up_tree_number = tpc_tree_number first_chunk, up_merkle_root = tpc_merkle_root first_chunk,
                 up_inputs = concat (map tpc_inputs chunks), up_outputs = concat (map tpc_outputs chunks),
                 up_chunks = chunks, up_broadcaster_fee_note = fee_note, up_unshield_note = unshield_note,
                 up_unshield_notes = unshield_notes, up_change_note = change_note,
                 up_public_inputs = tpc_public_inputs first_chunk, up_private_inputs = tpc_private_inputs first_chunk,
                 up_signature = tpc_signature first_chunk\<rparr>)))"

definition finish_send ::
  "'p env \<Rightarrow> transaction_builder \<Rightarrow> unproven_transaction_plan list \<Rightarrow> bool \<Rightarrow> railgun_note option \<Rightarrow>
     railgun_note list \<Rightarrow> railgun_note option \<Rightarrow> plan_failure + send_plan" where
  "finish_send env builder unproven_plans verify fee_note recipient_notes change_note =
     bind_result (lift_build (prove_transaction_plans env unproven_plans verify)) (\<lambda>proven.
       let transactions = map ptp_transaction proven; chunks = map ptp_chunk proven
       in bind_result (expect_first chunks) (\<lambda>first_chunk.
          bind_result (expect_first recipient_notes) (\<lambda>recipient_note.
            Inr \<lparr>sdp_call = transact_call env builder transactions,
                 sdp_tree_number = tpc_tree_number first_chunk, sdp_merkle_root = tpc_merkle_root first_chunk,
                 sdp_inputs = concat (map tpc_inputs chunks), sdp_outputs = concat (map tpc_outputs chunks),
                 sdp_chunks = chunks, sdp_broadcaster_fee_note = fee_note, sdp_recipient_note = recipient_note,
                 sdp_recipient_notes = recipient_notes, sdp_change_note = change_note,
                 sdp_public_inputs = tpc_public_inputs first_chunk, sdp_private_inputs = tpc_private_inputs first_chunk,
                 sdp_signature = tpc_signature first_chunk\<rparr>)))"

definition build_start :: "nat \<Rightarrow> build_state" where
  "build_start d = \<lparr>bst_draws = d, bst_cache = cache_new\<rparr>"

definition build_unshield_batch_with_signer ::
  "'p env \<Rightarrow> transaction_builder \<Rightarrow> viewing_key_data \<Rightarrow> merkle_forest \<Rightarrow> batch_utxo_selection \<Rightarrow>
     unshield_request \<Rightarrow> nat \<Rightarrow> plan_failure + unshield_plan" where
  "build_unshield_batch_with_signer env builder viewing forest selection request d =
     bind_result (lift_build (spend_allocations selection (ur_amount request) (ur_fee_amount request)
         (ur_same_token_broadcaster_fee request) (ur_spend_up_to request))) (\<lambda>allocations.
     bind_result (unshield_loop env builder viewing forest request (zip (bs_chunks selection) allocations) (build_start d))
       (\<lambda>(built, _).
         finish_unshield env builder (map snd built) (ur_verify_proof request)
           (first_note (map (\<lambda>p. uo_broadcaster_fee_note (fst p)) built))
           (map (\<lambda>p. uo_unshield_note (fst p)) built)
           (last_note None (map (\<lambda>p. uo_change_note (fst p)) built))))"

definition build_send_batch_with_signer ::
  "'p env \<Rightarrow> transaction_builder \<Rightarrow> viewing_key_data \<Rightarrow> merkle_forest \<Rightarrow> batch_utxo_selection \<Rightarrow>
     send_request \<Rightarrow> nat \<Rightarrow> plan_failure + send_plan" where
  "build_send_batch_with_signer env builder viewing forest selection request d =
     bind_result (lift_build (spend_allocations selection (sr_amount request) (sr_fee_amount request)
         (sr_same_token_broadcaster_fee request) (sr_spend_up_to request))) (\<lambda>allocations.
     bind_result (send_loop env builder viewing forest request (zip (bs_chunks selection) allocations) (build_start d))
       (\<lambda>(built, _).
         finish_send env builder (map snd built) (sr_verify_proof request)
           (first_note (map (\<lambda>p. so_broadcaster_fee_note (fst p)) built))
           (map (\<lambda>p. so_recipient_note (fst p)) built)
           (last_note None (map (\<lambda>p. so_change_note (fst p)) built))))"

text \<open>With the fee in another token the first transaction pays only the fee.\<close>

definition build_unshield_batch_with_separate_fee_token ::
  "'p env \<Rightarrow> transaction_builder \<Rightarrow> viewing_key_data \<Rightarrow> merkle_forest \<Rightarrow> utxo_selection \<Rightarrow> batch_utxo_selection \<Rightarrow>
     unshield_request \<Rightarrow> broadcaster_fee_output \<Rightarrow> nat \<Rightarrow> plan_failure + unshield_plan" where
  "build_unshield_batch_with_separate_fee_token env builder viewing forest fee_selection action_selection request fee d =
     bind_result (fee_only_chunk env builder viewing forest fee (ur_min_gas_price request) fee_selection (build_start d))
       (\<lambda>((fee_outs, fee_plan), st).
     bind_result (lift_build (spend_allocations action_selection (ur_amount request) 0 None (ur_spend_up_to request)))
       (\<lambda>allocations.
     bind_result (unshield_loop env builder viewing forest request (zip (bs_chunks action_selection) allocations) st)
       (\<lambda>(built, _).
         finish_unshield env builder (fee_plan # map snd built) (ur_verify_proof request)
           (Some (fo_broadcaster_fee_note fee_outs)) (map (\<lambda>p. uo_unshield_note (fst p)) built)
           (last_note (fo_change_note fee_outs) (map (\<lambda>p. uo_change_note (fst p)) built)))))"

definition build_send_batch_with_separate_fee_token ::
  "'p env \<Rightarrow> transaction_builder \<Rightarrow> viewing_key_data \<Rightarrow> merkle_forest \<Rightarrow> utxo_selection \<Rightarrow> batch_utxo_selection \<Rightarrow>
     send_request \<Rightarrow> broadcaster_fee_output \<Rightarrow> nat \<Rightarrow> plan_failure + send_plan" where
  "build_send_batch_with_separate_fee_token env builder viewing forest fee_selection action_selection request fee d =
     bind_result (fee_only_chunk env builder viewing forest fee (sr_min_gas_price request) fee_selection (build_start d))
       (\<lambda>((fee_outs, fee_plan), st).
     bind_result (lift_build (spend_allocations action_selection (sr_amount request) 0 None (sr_spend_up_to request)))
       (\<lambda>allocations.
     bind_result (send_loop env builder viewing forest request (zip (bs_chunks action_selection) allocations) st)
       (\<lambda>(built, _).
         finish_send env builder (fee_plan # map snd built) (sr_verify_proof request)
           (Some (fo_broadcaster_fee_note fee_outs)) (map (\<lambda>p. so_recipient_note (fst p)) built)
           (last_note (fo_change_note fee_outs) (map (\<lambda>p. so_change_note (fst p)) built)))))"

definition build_unshield_plan_with_signer ::
  "'p env \<Rightarrow> transaction_builder \<Rightarrow> viewing_key_data \<Rightarrow> merkle_forest \<Rightarrow> utxo list \<Rightarrow> unshield_request \<Rightarrow> nat \<Rightarrow>
     plan_failure + unshield_plan" where
  "build_unshield_plan_with_signer env builder viewing forest utxos request d =
     (case ur_different_token_broadcaster_fee request of
        Some fee \<Rightarrow>
          bind_result (lift_build (select_fee_utxos utxos (bf_token_address fee) (bf_amount fee))) (\<lambda>fee_selection.
          bind_result (lift_build (select_batched_utxos_with_limit utxos (ur_token_address request) (ur_amount request)
              (ur_spend_up_to request) 1 1 (MAX_BATCH_TRANSACTIONS - 1))) (\<lambda>action_selection.
            build_unshield_batch_with_separate_fee_token env builder viewing forest fee_selection action_selection
              request fee d))
      | None \<Rightarrow>
          bind_result (lift_build (select_batched_utxos utxos (ur_token_address request) (ur_target_amount request)
              (ur_spend_up_to request) (ur_base_output_count request) 1)) (\<lambda>selection.
            build_unshield_batch_with_signer env builder viewing forest selection request d))"

definition build_send_plan_with_signer ::
  "'p env \<Rightarrow> transaction_builder \<Rightarrow> viewing_key_data \<Rightarrow> merkle_forest \<Rightarrow> utxo list \<Rightarrow> send_request \<Rightarrow> nat \<Rightarrow>
     plan_failure + send_plan" where
  "build_send_plan_with_signer env builder viewing forest utxos request d =
     (case sr_different_token_broadcaster_fee request of
        Some fee \<Rightarrow>
          bind_result (lift_build (select_fee_utxos utxos (bf_token_address fee) (bf_amount fee))) (\<lambda>fee_selection.
          bind_result (lift_build (select_batched_utxos_with_limit utxos (sr_token_address request) (sr_amount request)
              (sr_spend_up_to request) 1 1 (MAX_BATCH_TRANSACTIONS - 1))) (\<lambda>action_selection.
            build_send_batch_with_separate_fee_token env builder viewing forest fee_selection action_selection
              request fee d))
      | None \<Rightarrow>
          bind_result (lift_build (select_batched_utxos utxos (sr_token_address request) (sr_target_amount request)
              (sr_spend_up_to request) (sr_base_output_count request) 1)) (\<lambda>selection.
            build_send_batch_with_signer env builder viewing forest selection request d))"

section \<open>Consolidation\<close>

definition build_transact ::
  "'p env \<Rightarrow> transaction_plan_builder \<Rightarrow> nat \<Rightarrow> build_error + transact_plan" where
  "build_transact env b d =
     (let tot = tpb_total_value b
      in if tot = 0 then Inl (InsufficientBalance tot)
         else
           let receiver = address_data (tpb_viewing b)
           in bind_result (private_note env d receiver receiver (tpb_token_address b) tot
                  (vk_viewing_private_key (tpb_viewing b))) (\<lambda>((output, ciphertext), _).
              let outputs = [output]
              in bind_result (validate_signature_limit b (length outputs)) (\<lambda>_.
                 bind_result (build_input_witnesses_and_root env b None) (\<lambda>(inputs, root, _).
                   let transaction = \<lparr>tx_proof = default_snark_proof, tx_merkle_root = fb32 (u256_to_be_bytes root),
                         tx_nullifiers = compute_nullifiers env b, tx_commitments = compute_commitments env outputs,
                         tx_bound_params = bound_params_new_transact (tpb_tree_number b) (tb_chain_type (tpb_builder b))
                           (tb_chain_id (tpb_builder b)) [ciphertext_from_note ciphertext] 0 UNRELAYED_ADAPT_PARAMS,
                         tx_unshield_preimage = preimage_empty\<rparr>;
                       public_inputs = public_inputs_from_transaction env root transaction outputs;
                       private_inputs = private_inputs_from_inputs env (tpb_token_address b) inputs outputs (tpb_viewing b);
                       signature = public_inputs_signature env public_inputs
                   in bind_result (ok_or (env_prove env public_inputs private_inputs signature True) Prover) (\<lambda>proof.
                        Inr \<lparr>tp_call = transact_call env (tpb_builder b) [transaction\<lparr>tx_proof := proof\<rparr>],
                             tp_tree_number = tpb_tree_number b, tp_merkle_root = root, tp_inputs = inputs,
                             tp_outputs = outputs, tp_public_inputs = public_inputs,
                             tp_private_inputs = private_inputs, tp_signature = signature\<rparr>)))))"

definition build_transact_plan ::
  "'p env \<Rightarrow> transaction_builder \<Rightarrow> viewing_key_data \<Rightarrow> merkle_forest \<Rightarrow> utxo list \<Rightarrow> address \<Rightarrow> nat \<Rightarrow>
     build_error + transact_plan" where
  "build_transact_plan env builder viewing forest inputs token_address d =
     bind_result (tpb_new builder viewing forest inputs token_address) (\<lambda>b. build_transact env b d)"

end
