(* ===== verification/PlanComposite.thy ===== *)
theory PlanComposite
  imports PlanBuild
begin

text \<open>
  Plans of several legs: the composite unshield and the mixed private action of
  \<open>railgun-wallet/src/tx/builder.rs\<close>, with the relay actions bound to their transactions.
\<close>

section \<open>Relay actions\<close>

definition is_executor :: "composite_execution \<Rightarrow> bool" where
  "is_executor e = (case e of ExecutorExecution _ \<Rightarrow> True | _ \<Rightarrow> False)"

text \<open>Every transaction is bound to the adapter and to the action data.\<close>

definition bind_actions ::
  "'p env \<Rightarrow> composite_execution \<Rightarrow> action_data \<Rightarrow> unproven_transaction_plan list \<Rightarrow> unproven_transaction_plan list" where
  "bind_actions env execution action plans =
     (let params = (if is_executor execution then UNRELAYED_ADAPT_PARAMS
                    else adapt_params (env_abi env) action (map utp_transaction plans))
      in map (\<lambda>plan. plan\<lparr>utp_transaction := (utp_transaction plan)\<lparr>tx_bound_params :=
             (tx_bound_params (utp_transaction plan))\<lparr>bp_adapt_contract := execution_account execution,
               bp_adapt_params := params\<rparr>\<rparr>\<rparr>) plans)"

definition random_31 :: "'p env \<Rightarrow> nat \<Rightarrow> 248 word" where
  "random_31 env d = word_of_nat (from_be (env_rand env d 31))"

definition composite_call ::
  "'p env \<Rightarrow> composite_execution \<Rightarrow> railgun_transaction list \<Rightarrow> action_data option \<Rightarrow> build_error + transaction_call" where
  "composite_call env execution transactions action =
     bind_result
       (case (execution, action) of
          (Direct _, None) \<Rightarrow> Inr (abi_call (env_abi env) (TransactCall transactions))
        | (RelayAdaptExecution _, Some actions) \<Rightarrow> Inr (abi_call (env_abi env) (RelayCall transactions actions))
        | (ExecutorExecution context, Some actions) \<Rightarrow>
            if act_require_success actions
            then Inr (abi_call (env_abi env) (ExecuteCall transactions
                   \<lparr>ract_require_success = True, ract_min_gas_limit = act_min_gas_limit actions,
                    ract_calls = act_calls actions\<rparr> (ec_execution_nonce context) []))
            else Inl InvalidExecutorCall
        | _ \<Rightarrow> Inl InvalidExecutorCall)
       (\<lambda>data. Inr \<lparr>tc_to = execution_account execution, tc_data = data\<rparr>)"

section \<open>Composite unshields\<close>

record composite_state =
  cst_plans :: "unproven_transaction_plan list"
  cst_fee_note :: "railgun_note option"
  cst_unshield_outputs :: "composite_unshield_planned_output list"
  cst_roles :: "composite_private_output_role list"
  cst_legs :: "composite_unshield_leg_metadata list"
  cst_build :: build_state

definition leg_metadata_of :: "composite_unshield_leg list \<Rightarrow> composite_unshield_leg_metadata list" where
  "leg_metadata_of legs =
     map (\<lambda>(leg_index, leg).
         \<lparr>clm_leg_index = leg_index, clm_token_address = leg_token_address leg, clm_requested_amount = leg_amount leg,
          clm_recipient = leg_recipient leg, clm_role = leg_role leg, clm_transaction_indices = []\<rparr>)
       (enumerate 0 legs)"

definition fee_role :: "nat \<Rightarrow> nat \<Rightarrow> composite_private_output_role_kind \<Rightarrow> address \<Rightarrow> composite_private_output_role" where
  "fee_role chunk_index output_index role token_address =
     \<lparr>cor_chunk_index = chunk_index, cor_output_index = output_index, cor_role = role, cor_token_address = token_address\<rparr>"

text \<open>A fee in a token of no leg is paid by a transaction of its own, the first of the plan.\<close>

definition composite_fee_step ::
  "'p env \<Rightarrow> transaction_builder \<Rightarrow> viewing_key_data \<Rightarrow> merkle_forest \<Rightarrow> composite_unshield_request \<Rightarrow>
     broadcaster_fee_output \<Rightarrow> utxo list \<Rightarrow> composite_state \<Rightarrow> plan_failure + utxo list \<times> composite_state" where
  "composite_fee_step env builder viewing forest request fee remaining_utxos cst =
     bind_result (lift_build (select_fee_utxos remaining_utxos (bf_token_address fee) (bf_amount fee))) (\<lambda>fee_selection.
       let remaining_utxos = remove_selected_utxos remaining_utxos (sel_utxos fee_selection)
       in bind_result (fee_only_chunk env builder viewing forest fee (cur_min_gas_price request) fee_selection
              (cst_build cst)) (\<lambda>((outs, plan), st).
            Inr (remaining_utxos,
              cst\<lparr>cst_roles := cst_roles cst @ [fee_role 0 0 BroadcasterFeeRole (bf_token_address fee)]
                    @ (if fo_change_note outs \<noteq> None then [fee_role 0 1 ChangeRole (bf_token_address fee)] else []),
                  cst_fee_note := Some (fo_broadcaster_fee_note outs),
                  cst_plans := cst_plans cst @ [plan], cst_build := st\<rparr>)))"

definition composite_chunk_step ::
  "'p env \<Rightarrow> transaction_builder \<Rightarrow> viewing_key_data \<Rightarrow> merkle_forest \<Rightarrow> composite_unshield_request \<Rightarrow> address \<Rightarrow>
     nat \<Rightarrow> composite_unshield_leg \<Rightarrow> utxo_selection \<times> spend_allocation \<Rightarrow> composite_state \<Rightarrow>
     plan_failure + composite_state" where
  "composite_chunk_step env builder viewing forest request to leg_index leg chunk_allocation cst =
     (case chunk_allocation of (chunk, allocation) \<Rightarrow>
        let transaction_index = length (cst_plans cst);
            unshield_request = \<lparr>ur_token_address = leg_token_address leg, ur_amount = sa_amount allocation,
              ur_recipient = to, ur_verify_proof = cur_verify_proof request,
              ur_spend_up_to = cur_spend_up_to request, ur_broadcaster_fee = sa_fee allocation,
              ur_min_gas_price = cur_min_gas_price request\<rparr>
        in bind_result (unshield_chunk env builder viewing forest unshield_request chunk (sa_amount allocation)
               (sa_change allocation) (sa_fee allocation) (cst_build cst)) (\<lambda>((outs, plan), st).
             Inr (cst\<lparr>
               cst_roles := cst_roles cst
                 @ (case sa_fee allocation of None \<Rightarrow> []
                    | Some fee \<Rightarrow> [fee_role transaction_index 0 BroadcasterFeeRole (bf_token_address fee)])
                 @ (if uo_change_note outs \<noteq> None
                    then [fee_role transaction_index (if sa_fee allocation \<noteq> None then 1 else 0) ChangeRole
                            (leg_token_address leg)] else []),
               cst_fee_note := (if cst_fee_note cst = None then uo_broadcaster_fee_note outs else cst_fee_note cst),
               cst_unshield_outputs := cst_unshield_outputs cst @
                 [\<lparr>cpo_leg_index = leg_index, cpo_transaction_index = transaction_index,
                   cpo_output_index = uo_unshield_output_index outs, cpo_token_address = leg_token_address leg,
                   cpo_amount = sa_amount allocation, cpo_recipient = leg_recipient leg, cpo_role = leg_role leg,
                   cpo_note = uo_unshield_note outs\<rparr>],
               cst_legs := (cst_legs cst)[leg_index :=
                 (cst_legs cst ! leg_index)\<lparr>clm_transaction_indices :=
                    clm_transaction_indices (cst_legs cst ! leg_index) @ [transaction_index]\<rparr>],
               cst_plans := cst_plans cst @ [plan], cst_build := st\<rparr>)))"

definition composite_leg_step ::
  "'p env \<Rightarrow> transaction_builder \<Rightarrow> viewing_key_data \<Rightarrow> merkle_forest \<Rightarrow> composite_unshield_request \<Rightarrow>
     composite_execution \<Rightarrow> broadcaster_fee_output option \<Rightarrow> batch_utxo_selection list \<Rightarrow> nat option \<Rightarrow>
     nat \<Rightarrow> composite_state \<Rightarrow> plan_failure + composite_state" where
  "composite_leg_step env builder viewing forest request execution embedded_fee leg_selections embedded_fee_leg_index
       leg_index cst =
     (let leg = cur_legs request ! leg_index;
          selection = leg_selections ! leg_index;
          leg_fee = (if embedded_fee_leg_index = Some leg_index then embedded_fee else None);
          to = unshield_to (leg_recipient leg) (execution_account execution)
      in bind_result (lift_build (spend_allocations selection (leg_amount leg) (fee_value leg_fee) leg_fee
             (cur_spend_up_to request))) (\<lambda>allocations.
           fold_result (composite_chunk_step env builder viewing forest request to leg_index leg)
             (zip (bs_chunks selection) allocations) cst))"

definition composite_relay_call_count :: "composite_unshield_request \<Rightarrow> nat" where
  "composite_relay_call_count request =
     (case cur_relay_actions request of None \<Rightarrow> 0 | Some actions \<Rightarrow> length (cra_calls actions))"

definition composite_actions ::
  "'p env \<Rightarrow> composite_execution \<Rightarrow> bool \<Rightarrow> composite_relay_actions option \<Rightarrow> nat \<Rightarrow> unproven_transaction_plan list \<Rightarrow>
     build_error + action_data option \<times> unproven_transaction_plan list" where
  "composite_actions env execution uses_relay relay_actions d plans =
     (if uses_relay then
        bind_result (ok_or relay_actions MissingCompositeRelayActions) (\<lambda>actions.
        bind_result (relay_action_data (env_abi env) actions (execution_account execution) (random_31 env d)) (\<lambda>action.
          Inr (Some action, bind_actions env execution action plans)))
      else Inr (None, plans))"

definition build_composite_unshield_plan_inner ::
  "'p env \<Rightarrow> transaction_builder \<Rightarrow> viewing_key_data \<Rightarrow> merkle_forest \<Rightarrow> utxo list \<Rightarrow> composite_unshield_request \<Rightarrow>
     nat \<Rightarrow> plan_failure + composite_unshield_plan" where
  "build_composite_unshield_plan_inner env builder viewing forest utxos request d =
     (if cur_legs request = [] then Inl (Failed EmptyCompositeUnshieldRequest)
      else
        let has_relay_adapt_leg = list_ex (\<lambda>leg. uses_relay_adapt (leg_recipient leg)) (cur_legs request);
            relay_call_count = composite_relay_call_count request
        in if has_relay_adapt_leg \<and> relay_call_count = 0 then Inl (Failed MissingCompositeRelayActions)
           else
             let uses_relay = has_relay_adapt_leg \<or> 0 < relay_call_count
             in bind_result (lift_build (tb_composite_execution builder uses_relay (cur_adapter request))) (\<lambda>execution.
                let embedded_fee = option_filter (\<lambda>fee. list_ex (\<lambda>leg. leg_token_address leg = bf_token_address fee)
                      (cur_legs request)) (cur_broadcaster_fee request);
                    start = \<lparr>cst_plans = [], cst_fee_note = None, cst_unshield_outputs = [], cst_roles = [],
                      cst_legs = leg_metadata_of (cur_legs request), cst_build = build_start d\<rparr>
                in bind_result
                     (case (embedded_fee, cur_broadcaster_fee request) of
                        (None, Some fee) \<Rightarrow> composite_fee_step env builder viewing forest request fee utxos start
                      | _ \<Rightarrow> Inr (utxos, start)) (\<lambda>(remaining_utxos, cst).
                   bind_result (lift_build (select_composite_leg_selections remaining_utxos (cur_legs request) embedded_fee
                       (cur_spend_up_to request) (length (cst_plans cst)))) (\<lambda>(leg_selections, embedded_fee_leg_index).
                   bind_result (fold_result (composite_leg_step env builder viewing forest request execution embedded_fee
                         leg_selections embedded_fee_leg_index)
                       (composite_build_leg_order (length (cur_legs request)) embedded_fee_leg_index) cst) (\<lambda>cst.
                   bind_result (lift_build (composite_actions env execution uses_relay (cur_relay_actions request)
                       (bst_draws (cst_build cst)) (cst_plans cst))) (\<lambda>(action, plans).
                   bind_result (lift_build (prove_transaction_plans env plans (cur_verify_proof request))) (\<lambda>proven.
                     let chunks = map ptp_chunk proven
                     in bind_result (lift_build (composite_call env execution (map ptp_transaction proven) action)) (\<lambda>call.
                          let inputs = concat (map tpc_inputs chunks)
                          in Inr \<lparr>cup_call = call, cup_inputs = inputs, cup_outputs = concat (map tpc_outputs chunks),
                               cup_chunks = chunks, cup_broadcaster_fee_note = cst_fee_note cst,
                               cup_unshield_outputs = cst_unshield_outputs cst, cup_leg_metadata = cst_legs cst,
                               cup_private_output_roles = cst_roles cst, cup_action_data = action,
                               cup_shape = \<lparr>cps_execution = execution, cps_transaction_count = length chunks,
                                 cps_input_count = length inputs,
                                 cps_private_output_count = length (cst_roles cst),
                                 cps_public_output_count = length (cst_unshield_outputs cst),
                                 cps_relay_call_count = relay_call_count, cps_uses_relay_adapt = uses_relay\<rparr>\<rparr>))))))))"

section \<open>Mixed actions\<close>

record mixed_state =
  mst_plans :: "unproven_transaction_plan list"
  mst_private_outputs :: "mixed_private_planned_output list"
  mst_public_outputs :: "mixed_public_planned_output list"
  mst_build :: build_state

definition mixed_send_step ::
  "'p env \<Rightarrow> transaction_builder \<Rightarrow> viewing_key_data \<Rightarrow> merkle_forest \<Rightarrow> mixed_private_action_request \<Rightarrow>
     nat \<Rightarrow> mixed_private_send \<Rightarrow> utxo_selection \<times> spend_allocation \<Rightarrow> mixed_state \<Rightarrow> plan_failure + mixed_state" where
  "mixed_send_step env builder viewing forest request send_index send chunk_allocation mst =
     (case chunk_allocation of (chunk, allocation) \<Rightarrow>
        let transaction_index = length (mst_plans mst);
            send_request = \<lparr>sr_token_address = mps_token_address send, sr_amount = mps_amount send,
              sr_recipient = mps_recipient send, sr_verify_proof = mar_verify_proof request,
              sr_spend_up_to = mar_spend_up_to request, sr_broadcaster_fee = None,
              sr_min_gas_price = mar_min_gas_price request\<rparr>
        in bind_result (send_chunk env builder viewing forest send_request chunk (sa_amount allocation)
               (sa_change allocation) None (mst_build mst)) (\<lambda>((outs, plan), st).
             Inr (mst\<lparr>
               mst_private_outputs := mst_private_outputs mst
                 @ [\<lparr>mpo_source = FromSend send_index, mpo_transaction_index = transaction_index, mpo_output_index = 0,
                     mpo_token_address = mps_token_address send, mpo_amount = sa_amount allocation,
                     mpo_role = RecipientOutput (mps_role send), mpo_note = so_recipient_note outs\<rparr>]
                 @ (case so_change_note outs of None \<Rightarrow> []
                    | Some change_note \<Rightarrow>
                        [\<lparr>mpo_source = FromSend send_index, mpo_transaction_index = transaction_index, mpo_output_index = 1,
                          mpo_token_address = mps_token_address send, mpo_amount = sa_change allocation,
                          mpo_role = ChangeOutput, mpo_note = change_note\<rparr>]),
               mst_plans := mst_plans mst @ [plan], mst_build := st\<rparr>)))"

definition mixed_unshield_step ::
  "'p env \<Rightarrow> transaction_builder \<Rightarrow> viewing_key_data \<Rightarrow> merkle_forest \<Rightarrow> mixed_private_action_request \<Rightarrow> address \<Rightarrow>
     nat \<Rightarrow> composite_unshield_leg \<Rightarrow> utxo_selection \<times> spend_allocation \<Rightarrow> mixed_state \<Rightarrow> plan_failure + mixed_state" where
  "mixed_unshield_step env builder viewing forest request to unshield_index leg chunk_allocation mst =
     (case chunk_allocation of (chunk, allocation) \<Rightarrow>
        let transaction_index = length (mst_plans mst);
            unshield_request = \<lparr>ur_token_address = leg_token_address leg, ur_amount = sa_amount allocation,
              ur_recipient = to, ur_verify_proof = mar_verify_proof request,
              ur_spend_up_to = mar_spend_up_to request, ur_broadcaster_fee = None,
              ur_min_gas_price = mar_min_gas_price request\<rparr>
        in bind_result (unshield_chunk env builder viewing forest unshield_request chunk (sa_amount allocation)
               (sa_change allocation) None (mst_build mst)) (\<lambda>((outs, plan), st).
             Inr (mst\<lparr>
               mst_private_outputs := mst_private_outputs mst
                 @ (case uo_change_note outs of None \<Rightarrow> []
                    | Some change_note \<Rightarrow>
                        [\<lparr>mpo_source = FromPublicUnshield unshield_index, mpo_transaction_index = transaction_index,
                          mpo_output_index = 0, mpo_token_address = leg_token_address leg,
                          mpo_amount = sa_change allocation, mpo_role = ChangeOutput, mpo_note = change_note\<rparr>]),
               mst_public_outputs := mst_public_outputs mst @
                 [\<lparr>mpp_unshield_index = unshield_index, mpp_transaction_index = transaction_index,
                   mpp_output_index = uo_unshield_output_index outs, mpp_token_address = leg_token_address leg,
                   mpp_amount = sa_amount allocation, mpp_recipient = leg_recipient leg, mpp_role = leg_role leg,
                   mpp_note = uo_unshield_note outs\<rparr>],
               mst_plans := mst_plans mst @ [plan], mst_build := st\<rparr>)))"

definition mixed_send_leg ::
  "'p env \<Rightarrow> transaction_builder \<Rightarrow> viewing_key_data \<Rightarrow> merkle_forest \<Rightarrow> mixed_private_action_request \<Rightarrow>
     batch_utxo_selection list \<Rightarrow> nat \<times> mixed_private_send \<Rightarrow> mixed_state \<Rightarrow> plan_failure + mixed_state" where
  "mixed_send_leg env builder viewing forest request selections indexed mst =
     (case indexed of (send_index, send) \<Rightarrow>
        let selection = selections ! (length (mar_public_unshields request) + send_index)
        in bind_result (lift_build (spend_allocations selection (mps_amount send) 0 None (mar_spend_up_to request)))
             (\<lambda>allocations.
               fold_result (mixed_send_step env builder viewing forest request send_index send)
                 (zip (bs_chunks selection) allocations) mst))"

definition mixed_unshield_leg ::
  "'p env \<Rightarrow> transaction_builder \<Rightarrow> viewing_key_data \<Rightarrow> merkle_forest \<Rightarrow> mixed_private_action_request \<Rightarrow>
     composite_execution \<Rightarrow> batch_utxo_selection list \<Rightarrow> nat \<times> composite_unshield_leg \<Rightarrow> mixed_state \<Rightarrow>
     plan_failure + mixed_state" where
  "mixed_unshield_leg env builder viewing forest request execution selections indexed mst =
     (case indexed of (unshield_index, leg) \<Rightarrow>
        let selection = selections ! unshield_index;
            to = unshield_to (leg_recipient leg) (execution_account execution)
        in bind_result (lift_build (spend_allocations selection (leg_amount leg) 0 None False)) (\<lambda>allocations.
             fold_result (mixed_unshield_step env builder viewing forest request to unshield_index leg)
               (zip (bs_chunks selection) allocations) mst))"

definition selected_input_identities_from_unproven ::
  "unproven_transaction_plan list \<Rightarrow> selected_input_identity list" where
  "selected_input_identities_from_unproven plans =
     sort_unstable (concat (map (\<lambda>plan. map (\<lambda>w. utxo_key (iw_utxo w)) (utp_inputs plan)) plans))"

text \<open>All transactions of the plan, before the actions are bound: sends first, then unshields.\<close>

definition mixed_unproven ::
  "'p env \<Rightarrow> transaction_builder \<Rightarrow> viewing_key_data \<Rightarrow> merkle_forest \<Rightarrow> mixed_private_action_request \<Rightarrow>
     composite_execution \<Rightarrow> batch_utxo_selection list \<Rightarrow> nat \<Rightarrow> plan_failure + mixed_state" where
  "mixed_unproven env builder viewing forest request execution selections d =
     bind_result (fold_result (mixed_send_leg env builder viewing forest request selections)
         (enumerate 0 (mar_private_sends request))
         \<lparr>mst_plans = [], mst_private_outputs = [], mst_public_outputs = [], mst_build = build_start d\<rparr>)
       (fold_result (mixed_unshield_leg env builder viewing forest request execution selections)
         (enumerate 0 (mar_public_unshields request)))"

definition mixed_actions ::
  "'p env \<Rightarrow> composite_execution \<Rightarrow> bool \<Rightarrow> mixed_private_action_request \<Rightarrow> nat \<Rightarrow> unproven_transaction_plan list \<Rightarrow>
     build_error + action_data option \<times> unproven_transaction_plan list" where
  "mixed_actions env execution uses_relay request d plans =
     (if uses_relay then
        bind_result
          (case mar_relay_actions request of
             Some actions \<Rightarrow> relay_action_data (env_abi env) actions (execution_account execution) (random_31 env d)
           | None \<Rightarrow>
               if is_executor execution
               then Inr \<lparr>act_random = random_31 env d, act_require_success = True, act_min_gas_limit = 0,
                         act_calls = mar_executor_calls request\<rparr>
               else Inl MissingCompositeRelayActions)
          (\<lambda>action. Inr (Some action, bind_actions env execution action plans))
      else Inr (None, plans))"

definition build_mixed_private_action_plan_inner ::
  "'p env \<Rightarrow> transaction_builder \<Rightarrow> viewing_key_data \<Rightarrow> merkle_forest \<Rightarrow> utxo list \<Rightarrow>
     mixed_private_action_request \<Rightarrow> nat \<Rightarrow> plan_failure + mixed_private_action_plan" where
  "build_mixed_private_action_plan_inner env builder viewing forest utxos request d =
     bind_result (lift_build (select_mixed_private_action_plan builder utxos request)) (\<lambda>selected.
       let preview = msp_preview selected;
           execution = cps_execution (map_shape preview)
       in bind_result (mixed_unproven env builder viewing forest request execution (msp_selections selected) d) (\<lambda>mst.
          bind_result (lift_build (mixed_actions env execution (cps_uses_relay_adapt (map_shape preview)) request
              (bst_draws (mst_build mst)) (mst_plans mst))) (\<lambda>(action, plans).
          bind_result (lift_build (prove_transaction_plans env plans (mar_verify_proof request))) (\<lambda>proven.
            let chunks = map ptp_chunk proven
            in bind_result (lift_build (composite_call env execution (map ptp_transaction proven) action)) (\<lambda>call.
                 Inr \<lparr>mpl_call = call, mpl_inputs = concat (map tpc_inputs chunks),
                      mpl_outputs = concat (map tpc_outputs chunks), mpl_chunks = chunks,
                      mpl_private_outputs = mst_private_outputs mst, mpl_public_outputs = mst_public_outputs mst,
                      mpl_action_data = action, mpl_selected_inputs = map_selected_inputs preview,
                      mpl_shape = map_shape preview\<rparr>)))))"

end
