(* ===== verification/PlanSpec.thy ===== *)
theory PlanSpec
  imports PlanComposite
begin

text \<open>
  Correctness of the built plans. The witness cache returns the forest's own proofs; every
  transaction spends notes of the wallet against the root of their tree and gives back in outputs
  what it spends; a plan pays what was asked for.
\<close>

section \<open>The witness cache refines the forest\<close>

definition cache_ok :: "hash_fn \<Rightarrow> merkle_forest \<Rightarrow> input_witness_proof_cache \<Rightarrow> bool" where
  "cache_ok hash forest cache \<longleftrightarrow>
     (\<forall>n dense. bt_get (pc_dense_trees cache) n = Some dense \<longrightarrow>
        dense = from_forest_prefix hash forest n TREE_LEAF_COUNT)"

lemma cache_ok_new [simp]: "cache_ok hash forest cache_new"
  by (simp add: cache_ok_def cache_new_def)

lemma normalize_normalized:
  "normalize_tree_position n p = (n', p') \<Longrightarrow> normalize_tree_position n' p' = (n', p')"
  using normalize_position_less [of n p] by (simp add: normalize_local)

lemma forest_prove_dense:
  assumes "mf_inv hash f" "normalize_tree_position n p = (n', p')" "contains_tree f n'"
  shows "forest_prove hash f n p = Some (dense_prove (from_forest_prefix hash f n' TREE_LEAF_COUNT) p')"
proof -
  from assms(3) obtain t where t: "bt_get (mf_trees f) n' = Some t"
    by (auto simp: contains_tree_def bt_contains_key_def)
  then have "mt_inv hash t" using assms(1) by (auto simp: mf_inv_def)
  from sparse.prove_spec [OF this, of p'] show ?thesis
    using dense_prove_spec [OF from_forest_prefix_inv [OF assms(1) t], of TREE_LEAF_COUNT p'] t
    by (simp add: forest_prove_def assms(2))
qed

lemma forest_prove_None:
  "normalize_tree_position n p = (n', p') \<Longrightarrow> forest_prove hash f n p = None \<longleftrightarrow> \<not> contains_tree f n'"
  by (simp add: forest_prove_def contains_tree_def bt_contains_key_def)

lemma cache_prove_forest:
  assumes "mf_inv hash f" "cache_ok hash f cache"
  shows "case cache_prove hash f cache n p of
      Inl e \<Rightarrow> e = MissingProof n p \<and> forest_prove hash f n p = None
    | Inr (pr, cache') \<Rightarrow> forest_prove hash f n p = Some pr \<and> cache_ok hash f cache'"
proof -
  obtain n' p' where norm: "normalize_tree_position n p = (n', p')" by force
  have again: "forest_prove hash f n' p' = forest_prove hash f n p"
    by (simp add: forest_prove_def norm normalize_normalized [OF norm])
  show ?thesis
  proof (cases "contains_tree f n'")
    case False
    then show ?thesis using forest_prove_None [OF norm] by (simp add: cache_prove_def norm)
  next
    case True
    note dense = forest_prove_dense [OF assms(1) norm True]
    show ?thesis
      using True assms(2) again dense
      by (auto simp: cache_prove_def norm Let_def cache_ok_def split: option.splits)
  qed
qed

lemma cached_witnesses_forest:
  assumes "mf_inv hash f" "cache_ok hash f cache"
  shows "case cached_witnesses hash f us cache of
      Inl e \<Rightarrow> map_result (forest_witness hash f) us = Inl e
    | Inr (ws, cache') \<Rightarrow> map_result (forest_witness hash f) us = Inr ws \<and> cache_ok hash f cache'"
  using assms(2)
proof (induction us arbitrary: cache)
  case (Cons u us)
  note pr = cache_prove_forest [OF assms(1) Cons.prems, of "utxo_tree u" "utxo_position u"]
  show ?case
  proof (cases "cache_prove hash f cache (utxo_tree u) (utxo_position u)")
    case (Inl e)
    with pr show ?thesis by (simp add: forest_witness_def)
  next
    case (Inr r)
    obtain q cache' where r: "r = (q, cache')" by (cases r)
    with pr Inr have "forest_prove hash f (utxo_tree u) (utxo_position u) = Some q" "cache_ok hash f cache'" by auto
    moreover from this have "forest_witness hash f u = Inr \<lparr>iw_utxo = u, iw_merkle_proof = q\<rparr>"
      by (simp add: forest_witness_def)
    ultimately show ?thesis using Cons.IH [of cache'] Inr r by (auto split: sum.splits)
  qed
qed simp

lemma map_witness_Inr:
  assumes "map_result (forest_witness hash f) us = Inr ws"
  shows "map iw_utxo ws = us"
    "\<forall>w \<in> set ws. forest_prove hash f (utxo_tree (iw_utxo w)) (utxo_position (iw_utxo w)) = Some (iw_merkle_proof w)"
proof -
  have "map iw_utxo ws = us \<and>
      (\<forall>w \<in> set ws. forest_prove hash f (utxo_tree (iw_utxo w)) (utxo_position (iw_utxo w)) = Some (iw_merkle_proof w))"
    using assms by (induction us arbitrary: ws) (auto simp: forest_witness_def ok_or_def split: option.splits)
  then show "map iw_utxo ws = us"
    "\<forall>w \<in> set ws. forest_prove hash f (utxo_tree (iw_utxo w)) (utxo_position (iw_utxo w)) = Some (iw_merkle_proof w)"
    by auto
qed

text \<open>
  Claim C9. The witness cache is transparent: for every list of inputs, in a forest the operations can
  build, the cached witnesses are those made directly from the forest, and the error is the same
  when a tree is missing.
\<close>

theorem witness_cache_refines:
  assumes "forest_reachable hash f"
  shows "(case cached_witnesses hash f us cache_new of Inl e \<Rightarrow> Inl e | Inr (ws, _) \<Rightarrow> Inr ws) =
    map_result (forest_witness hash f) us"
  using cached_witnesses_forest [OF forest_reachable_inv [OF assms] cache_ok_new, of us]
  by (auto split: sum.splits)

lemma witness_cache_refines_witness:
  "(case cached_witnesses sum_list forest_new [sample_utxo 9 0 0 5] cache_new of Inl e \<Rightarrow> Inl e | Inr (ws, _) \<Rightarrow> Inr ws) =
     Inl (MissingProof 0 0) \<and>
   (\<exists>w. (case cached_witnesses sum_list (fst (insert_leaf forest_new \<lparr>upd_tree_number = 0, upd_tree_position = 0, upd_hash = 12\<rparr>))
       [sample_utxo 9 0 0 5] cache_new of Inl e \<Rightarrow> Inl e | Inr (ws, _) \<Rightarrow> Inr ws) = Inr [w] \<and> iw_utxo w = sample_utxo 9 0 0 5)"
proof
  let ?u = "sample_utxo 9 0 0 5" let ?leaf = "\<lparr>upd_tree_number = 0, upd_tree_position = 0, upd_hash = 12\<rparr>"
  let ?f = "fst (insert_leaf forest_new ?leaf)"
  show "(case cached_witnesses sum_list forest_new [?u] cache_new of Inl e \<Rightarrow> Inl e | Inr (ws, _) \<Rightarrow> Inr ws) = Inl (MissingProof 0 0)"
    unfolding witness_cache_refines [OF forest_reachable.new]
    by (simp add: forest_witness_def forest_prove_def forest_new_def case_prod_beta)
  obtain tree where "bt_get (mf_trees ?f) 0 = Some tree"
    by (simp add: insert_leaf_def validate_tree_position_def forest_new_def TREE_LEAF_COUNT_def TREE_DEPTH_def bt_get_def
        Let_def case_prod_beta)
  then show "\<exists>w. (case cached_witnesses sum_list ?f [?u] cache_new of Inl e \<Rightarrow> Inl e | Inr (ws, _) \<Rightarrow> Inr ws) = Inr [w] \<and> iw_utxo w = ?u"
    unfolding witness_cache_refines [OF forest_reachable.leaf [OF forest_reachable.new]]
    by (simp add: forest_witness_def forest_prove_def normalize_tree_position_def TREE_LEAF_COUNT_def TREE_DEPTH_def)
qed

section \<open>One transaction\<close>

text \<open>The bytes of the contract's words are those of the circuit's.\<close>

lemma fb32_u256 [simp]: "u256_from_be_slice (fb32_bytes (fb32 (u256_to_be_bytes x))) = x"
  by (simp add: fb32_bytes_fb32 from_be_u256)

lemma lift_build_Inr [simp]: "lift_build r = Inr x \<longleftrightarrow> r = Inr x"
  by (simp add: lift_build_def split: sum.splits)

lemma ok_or_Inr: "ok_or x e = Inr y \<longleftrightarrow> x = Some y"
  by (cases x) auto

definition witnessed :: "hash_fn \<Rightarrow> merkle_forest \<Rightarrow> input_witness \<Rightarrow> bool" where
  "witnessed hash forest w \<longleftrightarrow>
     forest_prove hash forest (utxo_tree (iw_utxo w)) (utxo_position (iw_utxo w)) = Some (iw_merkle_proof w)"

text \<open>
  An unproven transaction that spends the notes \<open>us\<close> and makes the notes \<open>outs\<close>: its witnesses are
  the forest's proofs, and the nullifiers, the commitments and the circuit inputs are those of the
  notes.
\<close>

definition utp_sound ::
  "'p env \<Rightarrow> viewing_key_data \<Rightarrow> merkle_forest \<Rightarrow> address \<Rightarrow> utxo list \<Rightarrow> railgun_note list \<Rightarrow>
     unproven_transaction_plan \<Rightarrow> bool" where
  "utp_sound env viewing forest token us outs plan \<longleftrightarrow>
     us \<noteq> [] \<and> map iw_utxo (utp_inputs plan) = us \<and> list_all (witnessed (env_hash env) forest) (utp_inputs plan) \<and>
     utp_merkle_root plan = mp_root (iw_merkle_proof (hd (utp_inputs plan))) \<and> utp_outputs plan = outs \<and>
     tx_nullifiers (utp_transaction plan) =
       map (\<lambda>u. fb32 (u256_to_be_bytes (nullifier (env_hash env) (vk_nullifying_key viewing) u))) us \<and>
     tx_commitments (utp_transaction plan) = compute_commitments env outs \<and>
     utp_private_inputs plan = private_inputs_from_inputs env token (utp_inputs plan) outs viewing \<and>
     2 + length us + length outs \<le> MAX_SIGNATURE_INPUTS"

lemma witnesses_and_root_Inr:
  "build_input_witnesses_and_root env b (Some cache) = Inr (ws, root, c) \<longleftrightarrow>
     ws \<noteq> [] \<and> root = mp_root (iw_merkle_proof (hd ws)) \<and>
     (\<exists>cache'. cached_witnesses (env_hash env) (tpb_forest b) (tpb_inputs b) cache = Inr (ws, cache') \<and> c = Some cache')"
  by (cases ws) (auto simp: build_input_witnesses_and_root_def build_input_witnesses_def)

lemma build_unproven_sound:
  assumes "build_unproven env b token gas unshield outs cts cache = Inr (plan, cache')"
    and "mf_inv (env_hash env) (tpb_forest b)" "cache_ok (env_hash env) (tpb_forest b) cache"
  shows "utp_sound env (tpb_viewing b) (tpb_forest b) token (tpb_inputs b) outs plan"
    "cache_ok (env_hash env) (tpb_forest b) cache'" "utp_has_unshield plan = (unshield \<noteq> None)"
    "utp_tree_number plan = tpb_tree_number b"
proof -
  let ?h = "env_hash env" let ?f = "tpb_forest b"
  from assms(1) obtain ws where cw: "cached_witnesses ?h ?f (tpb_inputs b) cache = Inr (ws, cache')"
    and ne: "ws \<noteq> []" and inputs: "utp_inputs plan = ws"
    and root: "utp_merkle_root plan = mp_root (iw_merkle_proof (hd ws))" "utp_outputs plan = outs"
      "utp_has_unshield plan = (unshield \<noteq> None)" "utp_tree_number plan = tpb_tree_number b"
    and tx: "tx_nullifiers (utp_transaction plan) = compute_nullifiers env b"
      "tx_commitments (utp_transaction plan) = compute_commitments env outs"
      "utp_private_inputs plan = private_inputs_from_inputs env token ws outs (tpb_viewing b)"
    and lim: "2 + length (tpb_inputs b) + length outs \<le> MAX_SIGNATURE_INPUTS"
    by (auto simp: build_unproven_def witnesses_and_root_Inr Let_def validate_signature_limit_def split: if_splits)
  from cw cached_witnesses_forest [OF assms(2,3), of "tpb_inputs b"]
  have m: "map_result (forest_witness ?h ?f) (tpb_inputs b) = Inr ws" and c: "cache_ok ?h ?f cache'" by auto
  show "cache_ok ?h ?f cache'" "utp_has_unshield plan = (unshield \<noteq> None)" "utp_tree_number plan = tpb_tree_number b"
    using c root by auto
  show "utp_sound env (tpb_viewing b) ?f token (tpb_inputs b) outs plan"
    using map_witness_Inr [OF m] ne inputs root tx lim
    by (auto simp: utp_sound_def witnessed_def list_all_iff compute_nullifiers_def)
qed

section \<open>Outputs\<close>

definition note_of :: "address \<Rightarrow> u256 \<Rightarrow> railgun_note \<Rightarrow> bool" where
  "note_of token amount n \<longleftrightarrow> note_token_hash n = token_hash_of token \<and> note_value n = amount"

text \<open>A private note can be spent with the keys of its recipient.\<close>

definition note_to :: "hash_fn \<Rightarrow> address_data \<Rightarrow> address \<Rightarrow> u256 \<Rightarrow> railgun_note \<Rightarrow> bool" where
  "note_to hash recipient token amount n \<longleftrightarrow> note_of token amount n \<and>
     note_npk n = npk_for hash (ad_master_public_key recipient) (note_random n)"

lemma private_note_Inr:
  "private_note env d sender recipient token amount key = Inr ((n, c), d') \<Longrightarrow>
     note_to (env_hash env) recipient token amount n"
  by (auto simp: private_note_def Let_def note_to_def note_of_def new_change_def token_hash_of_def split: sum.splits)

lemma note_of_unshield: "note_of token amount (new_unshield to token amount)"
  by (simp add: note_of_def new_unshield_def token_hash_of_def)

text \<open>The notes of a fee and of a change, none when there is none.\<close>

definition fee_notes :: "hash_fn \<Rightarrow> broadcaster_fee_output option \<Rightarrow> railgun_note list \<Rightarrow> bool" where
  "fee_notes hash fee ns \<longleftrightarrow>
     (case fee of
        None \<Rightarrow> ns = []
      | Some f \<Rightarrow> (\<exists>n. ns = [n] \<and> note_to hash (bf_recipient f) (bf_token_address f) (bf_amount f) n))"

definition change_notes :: "hash_fn \<Rightarrow> address_data \<Rightarrow> address \<Rightarrow> u256 \<Rightarrow> railgun_note list \<Rightarrow> bool" where
  "change_notes hash owner token change ns \<longleftrightarrow>
     (if change = 0 then ns = [] else (\<exists>n. ns = [n] \<and> note_to hash owner token change n))"

lemma push_fee_Inr:
  assumes "push_broadcaster_fee_output env d outs cts sender fee key = Inr ((outs', cts', fn), d')"
  shows "\<exists>ns. outs' = outs @ ns \<and> fee_notes (env_hash env) fee ns \<and> length cts' = length cts + length ns \<and>
       fn = (if ns = [] then None else Some (hd ns))"
proof (cases fee)
  case None
  with assms show ?thesis by (intro exI [of _ "[]"]) (simp add: push_broadcaster_fee_output_def fee_notes_def)
next
  case (Some f)
  with assms obtain n c where "private_note env d sender (bf_recipient f) (bf_token_address f) (bf_amount f) key = Inr ((n, c), d')"
    and outs: "outs' = outs @ [n]" "cts' = cts @ [c]" "fn = Some n"
    by (auto simp: push_broadcaster_fee_output_def)
  from private_note_Inr [OF this(1)] outs Some show ?thesis by (intro exI [of _ "[n]"]) (simp add: fee_notes_def)
qed

lemma push_change_Inr:
  assumes "push_change_output env d outs cts sender token change key = Inr ((outs', cts', cn), d')"
  shows "\<exists>ns. outs' = outs @ ns \<and> change_notes (env_hash env) sender token change ns \<and> length cts' = length cts + length ns \<and>
       cn = (if ns = [] then None else Some (hd ns))"
proof (cases "change = 0")
  case True
  with assms show ?thesis by (intro exI [of _ "[]"]) (simp add: push_change_output_def change_notes_def)
next
  case False
  with assms obtain n c where "private_note env d sender sender token change key = Inr ((n, c), d')"
    and outs: "outs' = outs @ [n]" "cts' = cts @ [c]" "cn = Some n"
    by (auto simp: push_change_output_def)
  from private_note_Inr [OF this(1)] outs False show ?thesis by (intro exI [of _ "[n]"]) (simp add: change_notes_def)
qed

lemma unshield_outputs_Inr:
  assumes "build_unshield_outputs env d token amount to change receiver fee key = Inr (outs, d')"
  shows "\<exists>fs cs. uo_outputs outs = fs @ cs @ [new_unshield to token amount] \<and> fee_notes (env_hash env) fee fs \<and> change_notes (env_hash env) receiver token change cs \<and>
    uo_unshield_note outs = new_unshield to token amount \<and> uo_unshield_output_index outs = length fs + length cs \<and>
    uo_broadcaster_fee_note outs = (if fs = [] then None else Some (hd fs)) \<and>
    uo_change_note outs = (if cs = [] then None else Some (hd cs)) \<and>
    length (uo_commitment_ciphertext outs) = length fs + length cs"
proof -
  from assms obtain o1 c1 fn d1 o2 c2 cn where fee: "push_broadcaster_fee_output env d [] [] receiver fee key = Inr ((o1, c1, fn), d1)"
    and change: "push_change_output env d1 o1 c1 receiver token change key = Inr ((o2, c2, cn), d')"
    and outs: "outs = \<lparr>uo_outputs = o2 @ [new_unshield to token amount], uo_commitment_ciphertext = c2,
      uo_broadcaster_fee_note = fn, uo_unshield_note = new_unshield to token amount,
      uo_unshield_output_index = length o2, uo_change_note = cn\<rparr>"
    by (auto simp: build_unshield_outputs_def Let_def)
  obtain fs where fs: "o1 = fs" "fee_notes (env_hash env) fee fs" "length c1 = length fs" "fn = (if fs = [] then None else Some (hd fs))"
    using push_fee_Inr [OF fee] by auto
  obtain cs where "o2 = o1 @ cs" "change_notes (env_hash env) receiver token change cs" "length c2 = length c1 + length cs"
    "cn = (if cs = [] then None else Some (hd cs))"
    using push_change_Inr [OF change] by auto
  with fs show ?thesis unfolding outs by (intro exI [of _ fs] exI [of _ cs]) simp
qed

lemma send_outputs_Inr:
  assumes "build_send_outputs env d token amount change sender recipient fee key = Inr (outs, d')"
  shows "\<exists>fs n cs. so_outputs outs = fs @ [n] @ cs \<and> fee_notes (env_hash env) fee fs \<and> note_to (env_hash env) recipient token amount n \<and> change_notes (env_hash env) sender token change cs \<and>
    so_recipient_note outs = n \<and> so_broadcaster_fee_note outs = (if fs = [] then None else Some (hd fs)) \<and>
    so_change_note outs = (if cs = [] then None else Some (hd cs)) \<and>
    length (so_commitment_ciphertext outs) = length (so_outputs outs)"
proof -
  from assms obtain o1 c1 fn d1 n c d2 o2 c2 cn where
    fee: "push_broadcaster_fee_output env d [] [] sender fee key = Inr ((o1, c1, fn), d1)"
    and n: "private_note env d1 sender recipient token amount key = Inr ((n, c), d2)"
    and change: "push_change_output env d2 (o1 @ [n]) (c1 @ [c]) sender token change key = Inr ((o2, c2, cn), d')"
    and outs: "outs = \<lparr>so_outputs = o2, so_commitment_ciphertext = c2, so_broadcaster_fee_note = fn,
      so_recipient_note = n, so_change_note = cn\<rparr>"
    by (auto simp: build_send_outputs_def)
  from push_fee_Inr [OF fee] push_change_Inr [OF change] private_note_Inr [OF n] show ?thesis
    unfolding outs by fastforce
qed

lemma fee_only_outputs_Inr:
  assumes "build_fee_only_outputs env d fee change sender key = Inr (outs, d')"
  shows "\<exists>n cs. fo_outputs outs = n # cs \<and> note_to (env_hash env) (bf_recipient fee) (bf_token_address fee) (bf_amount fee) n \<and>
    change_notes (env_hash env) sender (bf_token_address fee) change cs \<and> fo_broadcaster_fee_note outs = n \<and>
    fo_change_note outs = (if cs = [] then None else Some (hd cs))"
proof -
  from assms obtain o1 c1 d1 n o2 c2 cn where
    fee: "push_broadcaster_fee_output env d [] [] sender (Some fee) key = Inr ((o1, c1, Some n), d1)"
    and change: "push_change_output env d1 o1 c1 sender (bf_token_address fee) change key = Inr ((o2, c2, cn), d')"
    and outs: "outs = \<lparr>fo_outputs = o2, fo_commitment_ciphertext = c2, fo_broadcaster_fee_note = n, fo_change_note = cn\<rparr>"
    by (auto simp: build_fee_only_outputs_def ok_or_Inr)
  have "o1 = [n] \<and> note_to (env_hash env) (bf_recipient fee) (bf_token_address fee) (bf_amount fee) n"
    using push_fee_Inr [OF fee] by (auto simp: fee_notes_def)
  moreover obtain cs where "o2 = o1 @ cs" "change_notes (env_hash env) sender (bf_token_address fee) change cs"
    "cn = (if cs = [] then None else Some (hd cs))" using push_change_Inr [OF change] by auto
  ultimately show ?thesis unfolding outs by (intro exI [of _ n] exI [of _ cs]) simp
qed

text \<open>What the outputs are worth.\<close>

definition worth :: "railgun_note list \<Rightarrow> nat" where
  "worth ns = sum_list (map (\<lambda>n. unat (note_value n)) ns)"

lemma worth_simps [simp]: "worth [] = 0" "worth (n # ns) = unat (note_value n) + worth ns" "worth (ms @ ns) = worth ms + worth ns"
  by (simp_all add: worth_def)

lemma worth_fee: "fee_notes hash fee ns \<Longrightarrow> worth ns = unat (fee_value fee)"
  by (auto simp: fee_notes_def note_to_def note_of_def split: option.splits)

lemma worth_change: "change_notes hash owner token change ns \<Longrightarrow> worth ns = unat change"
  by (auto simp: change_notes_def note_to_def note_of_def split: if_splits)

lemma worth_note: "note_of token amount n \<Longrightarrow> unat (note_value n) = unat amount"
  by (simp add: note_of_def)

definition of_token :: "address \<Rightarrow> railgun_note list \<Rightarrow> bool" where
  "of_token token ns \<longleftrightarrow> list_all (\<lambda>n. note_token_hash n = token_hash_of token) ns"

lemma of_token_simps [simp]:
  "of_token token []" "of_token token (n # ns) \<longleftrightarrow> note_token_hash n = token_hash_of token \<and> of_token token ns"
  "of_token token (ms @ ns) \<longleftrightarrow> of_token token ms \<and> of_token token ns"
  by (simp_all add: of_token_def)

lemma of_token_fee: "fee_notes hash fee ns \<Longrightarrow> fee = None \<or> bf_token_address (the fee) = token \<Longrightarrow> of_token token ns"
  by (auto simp: fee_notes_def note_to_def note_of_def split: option.splits)

lemma of_token_change: "change_notes hash owner token change ns \<Longrightarrow> of_token token ns"
  by (auto simp: change_notes_def note_to_def note_of_def split: if_splits)

section \<open>One chunk\<close>

text \<open>
  A transaction that spends the notes \<open>us\<close> of one tree and token: besides \<open>utp_sound\<close>, it gives out
  exactly what it spends, all in the token.
\<close>

definition plan_sound ::
  "'p env \<Rightarrow> viewing_key_data \<Rightarrow> merkle_forest \<Rightarrow> address \<Rightarrow> utxo list \<Rightarrow> unproven_transaction_plan \<Rightarrow> bool" where
  "plan_sound env viewing forest token us plan \<longleftrightarrow>
     utp_sound env viewing forest token us (utp_outputs plan) plan \<and> length us \<le> MAX_CIRCUIT_INPUTS \<and>
     list_all (\<lambda>u. utxo_tree u = utp_tree_number plan \<and> note_token_hash (utxo_note u) = token_hash_of token) us \<and>
     of_token token (utp_outputs plan) \<and> worth (utp_outputs plan) = nat_sum us"

lemma tpb_new_Inr:
  assumes "tpb_new builder viewing forest us token = Inr b"
  shows "us \<noteq> []" "length us \<le> MAX_CIRCUIT_INPUTS"
    "list_all (\<lambda>u. utxo_tree u = tpb_tree_number b \<and> note_token_hash (utxo_note u) = token_hash_of token) us"
    "tpb_viewing b = viewing" "tpb_forest b = forest" "tpb_inputs b = us" "tpb_builder b = builder"
proof -
  from assms have ne: "us \<noteq> []" and len: "\<not> MAX_CIRCUIT_INPUTS < length us"
    and tree: "\<not> list_ex (\<lambda>u. utxo_tree u \<noteq> utxo_tree (us ! 0)) us"
    and token: "\<not> list_ex (\<lambda>u. note_token_hash (utxo_note u) \<noteq> u256_from_be_slice (address_bytes token)) us"
    and b: "b = \<lparr>tpb_builder = builder, tpb_viewing = viewing, tpb_forest = forest, tpb_inputs = us, tpb_token_address = token\<rparr>"
    unfolding tpb_new_def by (simp_all only: split: if_split_asm) simp_all
  then show "us \<noteq> []" "length us \<le> MAX_CIRCUIT_INPUTS" "tpb_viewing b = viewing" "tpb_forest b = forest"
    "tpb_inputs b = us" "tpb_builder b = builder" by simp_all
  show "list_all (\<lambda>u. utxo_tree u = tpb_tree_number b \<and> note_token_hash (utxo_note u) = token_hash_of token) us"
    using tree token unfolding b tpb_tree_number_def token_hash_of_def list_all_iff list_ex_iff by simp
qed

lemma unproven_plan_sound:
  assumes "tpb_new builder viewing forest us token = Inr b"
    and "build_unproven env b token gas unshield outs cts cache = Inr (plan, cache')"
    and "mf_inv (env_hash env) forest" "cache_ok (env_hash env) forest cache"
    and "of_token token outs" "worth outs = nat_sum us"
  shows "plan_sound env viewing forest token us plan" "cache_ok (env_hash env) forest cache'"
    "utp_outputs plan = outs" "utp_has_unshield plan = (unshield \<noteq> None)"
proof -
  note b = tpb_new_Inr [OF assms(1)]
  note u = build_unproven_sound [OF assms(2), unfolded b, OF assms(3,4)]
  show "cache_ok (env_hash env) forest cache'" "utp_has_unshield plan = (unshield \<noteq> None)" using u by auto
  show outs: "utp_outputs plan = outs" using u(1) by (simp add: utp_sound_def)
  show "plan_sound env viewing forest token us plan"
    using u b assms(5,6) by (simp add: plan_sound_def outs)
qed

lemma unshield_chunk_sound:
  assumes "unshield_chunk env builder viewing forest request chunk amount change fee st = Inr ((outs, plan), st')"
    and "mf_inv (env_hash env) forest" "cache_ok (env_hash env) forest (bst_cache st)"
    and "fee = None \<or> bf_token_address (the fee) = ur_token_address request"
    and "nat_sum (sel_utxos chunk) = unat amount + unat change + unat (fee_value fee)"
  shows "plan_sound env viewing forest (ur_token_address request) (sel_utxos chunk) plan"
    "cache_ok (env_hash env) forest (bst_cache st')" "utp_outputs plan = uo_outputs outs" "utp_has_unshield plan"
    "\<exists>d d'. build_unshield_outputs env d (ur_token_address request) amount (ur_recipient request) change
       (address_data viewing) fee (vk_viewing_private_key viewing) = Inr (outs, d')"
proof -
  let ?t = "ur_token_address request"
  from assms(1) obtain b d' cache' where b: "tpb_new builder viewing forest (sel_utxos chunk) ?t = Inr b"
    and outs: "build_unshield_outputs env (bst_draws st) ?t amount (ur_recipient request) change (address_data viewing)
       fee (vk_viewing_private_key viewing) = Inr (outs, d')"
    and plan: "build_unproven env b ?t (ur_min_gas_price request) (Some (uo_unshield_note outs, ?t)) (uo_outputs outs)
       (uo_commitment_ciphertext outs) (bst_cache st) = Inr (plan, cache')"
    and st': "st' = \<lparr>bst_draws = d', bst_cache = cache'\<rparr>"
    by (auto simp: unshield_chunk_def build_unproven_unshield_def)
  obtain fs cs where o: "uo_outputs outs = fs @ cs @ [new_unshield (ur_recipient request) ?t amount]"
    "fee_notes (env_hash env) fee fs" "change_notes (env_hash env) (address_data viewing) ?t change cs"
    using unshield_outputs_Inr [OF outs] by blast
  note n = note_of_unshield [of ?t amount "ur_recipient request"]
  have "of_token ?t (uo_outputs outs)"
    using of_token_fee [OF o(2) assms(4)] of_token_change [OF o(3)] n by (simp add: o(1) note_of_def)
  moreover have "worth (uo_outputs outs) = nat_sum (sel_utxos chunk)"
    using worth_fee [OF o(2)] worth_change [OF o(3)] worth_note [OF n] assms(5) by (simp add: o(1))
  ultimately show "plan_sound env viewing forest ?t (sel_utxos chunk) plan"
    "cache_ok (env_hash env) forest (bst_cache st')" "utp_outputs plan = uo_outputs outs" "utp_has_unshield plan"
    using unproven_plan_sound [OF b plan assms(2,3)] st' by auto
  show "\<exists>d d'. build_unshield_outputs env d ?t amount (ur_recipient request) change
       (address_data viewing) fee (vk_viewing_private_key viewing) = Inr (outs, d')" using outs by blast
qed

lemma send_chunk_sound:
  assumes "send_chunk env builder viewing forest request chunk amount change fee st = Inr ((outs, plan), st')"
    and "mf_inv (env_hash env) forest" "cache_ok (env_hash env) forest (bst_cache st)"
    and "fee = None \<or> bf_token_address (the fee) = sr_token_address request"
    and "nat_sum (sel_utxos chunk) = unat amount + unat change + unat (fee_value fee)"
  shows "plan_sound env viewing forest (sr_token_address request) (sel_utxos chunk) plan"
    "cache_ok (env_hash env) forest (bst_cache st')" "utp_outputs plan = so_outputs outs" "\<not> utp_has_unshield plan"
    "\<exists>d d'. build_send_outputs env d (sr_token_address request) amount change
       (address_data viewing) (sr_recipient request) fee (vk_viewing_private_key viewing) = Inr (outs, d')"
proof -
  let ?t = "sr_token_address request"
  from assms(1) obtain b d' cache' where b: "tpb_new builder viewing forest (sel_utxos chunk) ?t = Inr b"
    and outs: "build_send_outputs env (bst_draws st) ?t amount change (address_data viewing) (sr_recipient request)
       fee (vk_viewing_private_key viewing) = Inr (outs, d')"
    and plan: "build_unproven env b ?t (sr_min_gas_price request) None (so_outputs outs)
       (so_commitment_ciphertext outs) (bst_cache st) = Inr (plan, cache')"
    and st': "st' = \<lparr>bst_draws = d', bst_cache = cache'\<rparr>"
    by (auto simp: send_chunk_def build_unproven_send_def)
  obtain fs n cs where o: "so_outputs outs = fs @ [n] @ cs" "fee_notes (env_hash env) fee fs" "note_to (env_hash env) (sr_recipient request) ?t amount n" "change_notes (env_hash env) (address_data viewing) ?t change cs"
    using send_outputs_Inr [OF outs] by blast
  have "of_token ?t (so_outputs outs)"
    using of_token_fee [OF o(2) assms(4)] of_token_change [OF o(4)] o(3) by (simp add: o(1) note_to_def note_of_def)
  moreover have "worth (so_outputs outs) = nat_sum (sel_utxos chunk)"
    using worth_fee [OF o(2)] worth_change [OF o(4)] worth_note [of ?t amount n] assms(5) o(3) by (simp add: o(1) note_to_def)
  ultimately show "plan_sound env viewing forest ?t (sel_utxos chunk) plan"
    "cache_ok (env_hash env) forest (bst_cache st')" "utp_outputs plan = so_outputs outs" "\<not> utp_has_unshield plan"
    using unproven_plan_sound [OF b plan assms(2,3)] st' by auto
  show "\<exists>d d'. build_send_outputs env d ?t amount change (address_data viewing) (sr_recipient request) fee
       (vk_viewing_private_key viewing) = Inr (outs, d')" using outs by blast
qed

lemma fee_only_chunk_sound:
  assumes "fee_only_chunk env builder viewing forest fee gas selection st = Inr ((outs, plan), st')"
    and "mf_inv (env_hash env) forest" "cache_ok (env_hash env) forest (bst_cache st)"
    and "bf_amount fee \<le> sel_total selection" "nat_sum (sel_utxos selection) = unat (sel_total selection)"
  shows "plan_sound env viewing forest (bf_token_address fee) (sel_utxos selection) plan"
    "cache_ok (env_hash env) forest (bst_cache st')" "utp_outputs plan = fo_outputs outs" "\<not> utp_has_unshield plan"
    "\<exists>n cs. fo_outputs outs = n # cs \<and> note_to (env_hash env) (bf_recipient fee) (bf_token_address fee) (bf_amount fee) n \<and>
      change_notes (env_hash env) (address_data viewing) (bf_token_address fee) (sel_total selection - bf_amount fee) cs \<and>
      fo_broadcaster_fee_note outs = n"
proof -
  let ?t = "bf_token_address fee" let ?c = "sel_total selection - bf_amount fee"
  from assms(1) obtain b d' cache' where b: "tpb_new builder viewing forest (sel_utxos selection) ?t = Inr b"
    and outs: "build_fee_only_outputs env (bst_draws st) fee ?c (address_data viewing) (vk_viewing_private_key viewing) = Inr (outs, d')"
    and plan: "build_unproven env b ?t gas None (fo_outputs outs) (fo_commitment_ciphertext outs) (bst_cache st) = Inr (plan, cache')"
    and st': "st' = \<lparr>bst_draws = d', bst_cache = cache'\<rparr>"
    by (auto simp: fee_only_chunk_def build_unproven_fee_only_def Let_def)
  obtain n cs where o: "fo_outputs outs = n # cs" "note_to (env_hash env) (bf_recipient fee) ?t (bf_amount fee) n" "change_notes (env_hash env) (address_data viewing) ?t ?c cs" "fo_broadcaster_fee_note outs = n"
    using fee_only_outputs_Inr [OF outs] by blast
  have "unat ?c = unat (sel_total selection) - unat (bf_amount fee)" using assms(4) by (simp add: unat_sub)
  then have "worth (fo_outputs outs) = nat_sum (sel_utxos selection)"
    using worth_change [OF o(3)] worth_note [of ?t "bf_amount fee" n] o(2) assms(4,5) by (simp add: o(1) note_to_def word_le_nat_alt)
  moreover have "of_token ?t (fo_outputs outs)" using of_token_change [OF o(3)] o(2) by (simp add: o(1) note_to_def note_of_def)
  ultimately show "plan_sound env viewing forest ?t (sel_utxos selection) plan"
    "cache_ok (env_hash env) forest (bst_cache st')" "utp_outputs plan = fo_outputs outs" "\<not> utp_has_unshield plan"
    using unproven_plan_sound [OF b plan assms(2,3)] st' by auto
  show "\<exists>n cs. fo_outputs outs = n # cs \<and> note_to (env_hash env) (bf_recipient fee) ?t (bf_amount fee) n \<and>
      change_notes (env_hash env) (address_data viewing) ?t ?c cs \<and> fo_broadcaster_fee_note outs = n" using o by blast
qed

section \<open>Proven transactions\<close>

text \<open>
  A transaction of a plan: it spends notes of the wallet, all of one tree and token, each with a
  proof that verifies against the root of that tree, within the limits of the circuit; its outputs
  are worth what it spends; and the public inputs of the circuit are the root, the nullifiers of the
  inputs and the commitments of the outputs.
\<close>

definition tx_sound ::
  "'p env \<Rightarrow> viewing_key_data \<Rightarrow> merkle_forest \<Rightarrow> utxo list \<Rightarrow> address \<Rightarrow> transaction_plan_chunk \<Rightarrow> bool" where
  "tx_sound env viewing forest utxos token c \<longleftrightarrow>
     (let us = map iw_utxo (tpc_inputs c)
      in us \<noteq> [] \<and> length us \<le> MAX_CIRCUIT_INPUTS \<and> 2 + length us + length (tpc_outputs c) \<le> MAX_SIGNATURE_INPUTS \<and>
         set us \<subseteq> set utxos \<and>
         list_all (\<lambda>u. utxo_tree u = tpc_tree_number c \<and> note_token_hash (utxo_note u) = token_hash_of token) us \<and>
         list_all (\<lambda>w. verify_proof (env_hash env) (iw_merkle_proof w) \<and>
             mp_root (iw_merkle_proof w) = tpc_merkle_root c) (tpc_inputs c) \<and>
         bt_get (computed_roots (env_hash env) forest) (tpc_tree_number c) = Some (tpc_merkle_root c) \<and>
         of_token token (tpc_outputs c) \<and> worth (tpc_outputs c) = nat_sum us \<and>
         pub_merkle_root (tpc_public_inputs c) = tpc_merkle_root c \<and>
         pub_nullifiers (tpc_public_inputs c) = map (nullifier (env_hash env) (vk_nullifying_key viewing)) us \<and>
         pub_commitments_out (tpc_public_inputs c) = map (commitment (env_hash env)) (tpc_outputs c))"

text \<open>The notes of the wallet have positions within their tree.\<close>

definition local_positions :: "utxo list \<Rightarrow> bool" where
  "local_positions utxos \<longleftrightarrow> list_all (\<lambda>u. utxo_position u < TREE_LEAF_COUNT) utxos"

lemma witnessed_root:
  assumes "witnessed hash f w" "mf_inv hash f" "utxo_position (iw_utxo w) < TREE_LEAF_COUNT"
  shows "verify_proof hash (iw_merkle_proof w)"
    "bt_get (computed_roots hash f) (utxo_tree (iw_utxo w)) = Some (mp_root (iw_merkle_proof w))"
proof -
  let ?u = "iw_utxo w"
  from assms(1) obtain t where t: "bt_get (mf_trees f) (utxo_tree ?u) = Some t"
    and pr: "iw_merkle_proof w = tree_prove hash t (utxo_position ?u)"
    by (auto simp: witnessed_def forest_prove_def normalize_local [OF assms(3)])
  have inv: "mt_inv hash t" using assms(2) t by (auto simp: mf_inv_def)
  show "verify_proof hash (iw_merkle_proof w)" by (simp add: pr sparse.proof_verifies [OF inv])
  show "bt_get (computed_roots hash f) (utxo_tree ?u) = Some (mp_root (iw_merkle_proof w))"
    by (simp add: pr sparse.proof_root [OF inv] computed_roots_get t computed_root_node [OF inv])
qed

lemma prove_transaction_sound:
  assumes "prove_transaction_plan env verify plan = Inr p" "plan_sound env viewing forest token us plan"
    and "mf_inv (env_hash env) forest" "set us \<subseteq> set utxos" "local_positions utxos"
  shows "tx_sound env viewing forest utxos token (ptp_chunk p)" "map iw_utxo (tpc_inputs (ptp_chunk p)) = us"
    "tpc_outputs (ptp_chunk p) = utp_outputs plan" "tpc_has_unshield (ptp_chunk p) = utp_has_unshield plan"
proof -
  let ?h = "env_hash env" let ?c = "ptp_chunk p"
  from assms(1) have c: "tpc_inputs ?c = utp_inputs plan" "tpc_outputs ?c = utp_outputs plan"
    "tpc_has_unshield ?c = utp_has_unshield plan" "tpc_tree_number ?c = utp_tree_number plan"
    "tpc_merkle_root ?c = utp_merkle_root plan"
    "tpc_public_inputs ?c = public_inputs_from_transaction env (utp_merkle_root plan) (utp_transaction plan) (utp_outputs plan)"
    by (auto simp: prove_transaction_plan_def Let_def ok_or_Inr)
  from assms(2) have us: "map iw_utxo (utp_inputs plan) = us" "us \<noteq> []"
    and wit: "list_all (witnessed ?h forest) (utp_inputs plan)"
    and root: "utp_merkle_root plan = mp_root (iw_merkle_proof (hd (utp_inputs plan)))"
    and nul: "tx_nullifiers (utp_transaction plan) = map (\<lambda>u. fb32 (u256_to_be_bytes (nullifier ?h (vk_nullifying_key viewing) u))) us"
    and tree: "list_all (\<lambda>u. utxo_tree u = utp_tree_number plan \<and> note_token_hash (utxo_note u) = token_hash_of token) us"
    by (auto simp: plan_sound_def utp_sound_def)
  have w: "verify_proof ?h (iw_merkle_proof w) \<and>
      bt_get (computed_roots ?h forest) (utp_tree_number plan) = Some (mp_root (iw_merkle_proof w))"
    if "w \<in> set (utp_inputs plan)" for w
  proof -
    have "iw_utxo w \<in> set us" using that us(1) by auto
    then have "utxo_position (iw_utxo w) < TREE_LEAF_COUNT" "utxo_tree (iw_utxo w) = utp_tree_number plan"
      using assms(4,5) tree by (auto simp: local_positions_def list_all_iff)
    with witnessed_root [OF _ assms(3)] wit that show ?thesis by (metis list_all_iff)
  qed
  have ne: "utp_inputs plan \<noteq> []" using us by auto
  have hd: "bt_get (computed_roots ?h forest) (utp_tree_number plan) = Some (utp_merkle_root plan)"
    using w [of "hd (utp_inputs plan)"] ne root by simp
  show "map iw_utxo (tpc_inputs ?c) = us" "tpc_outputs ?c = utp_outputs plan" "tpc_has_unshield ?c = utp_has_unshield plan"
    using c us by auto
  have "list_all (\<lambda>w. verify_proof ?h (iw_merkle_proof w) \<and> mp_root (iw_merkle_proof w) = utp_merkle_root plan) (utp_inputs plan)"
    using w hd by (fastforce simp: list_all_iff)
  moreover have "pub_nullifiers (tpc_public_inputs ?c) = map (nullifier ?h (vk_nullifying_key viewing)) us"
    by (simp add: c public_inputs_from_transaction_def public_inputs_from_parts_def nul)
  moreover have "pub_commitments_out (tpc_public_inputs ?c) = map (commitment ?h) (utp_outputs plan)"
    "pub_merkle_root (tpc_public_inputs ?c) = utp_merkle_root plan"
    by (simp_all add: c public_inputs_from_transaction_def public_inputs_from_parts_def)
  ultimately show "tx_sound env viewing forest utxos token ?c"
    using assms(2,4) hd us tree by (simp add: tx_sound_def c plan_sound_def utp_sound_def Let_def)
qed

text \<open>A list of transactions, each for its token and its notes.\<close>

lemma prove_transactions_sound:
  assumes "prove_transaction_plans env plans verify = Inr ps"
    and "list_all2 (\<lambda>(token, us). plan_sound env viewing forest token us) jobs plans"
    and "mf_inv (env_hash env) forest" "set (concat (map snd jobs)) \<subseteq> set utxos" "local_positions utxos"
  shows "list_all2 (\<lambda>(token, us) c. tx_sound env viewing forest utxos token c) jobs (map ptp_chunk ps)"
    "map iw_utxo (concat (map tpc_inputs (map ptp_chunk ps))) = concat (map snd jobs)"
    "map tpc_outputs (map ptp_chunk ps) = map utp_outputs plans"
proof -
  note r = map_result_Inr [OF assms(1) [unfolded prove_transaction_plans_def]]
  have len: "length jobs = length plans" using assms(2) by (rule list_all2_lengthD)
  have ok: "tx_sound env viewing forest utxos (fst (jobs ! i)) (ptp_chunk (ps ! i)) \<and>
      map iw_utxo (tpc_inputs (ptp_chunk (ps ! i))) = snd (jobs ! i) \<and>
      tpc_outputs (ptp_chunk (ps ! i)) = utp_outputs (plans ! i)" if "i < length plans" for i
  proof -
    have "prove_transaction_plan env verify (plans ! i) = Inr (ps ! i)" using r that by simp
    moreover have "plan_sound env viewing forest (fst (jobs ! i)) (snd (jobs ! i)) (plans ! i)"
      using assms(2) that by (simp add: list_all2_conv_all_nth case_prod_beta)
    moreover have "set (snd (jobs ! i)) \<subseteq> set utxos" using assms(4) that len by (force dest!: subsetD intro: nth_mem)
    ultimately show ?thesis using prove_transaction_sound assms(3,5) by metis
  qed
  then show "list_all2 (\<lambda>(token, us) c. tx_sound env viewing forest utxos token c) jobs (map ptp_chunk ps)"
    using r len by (simp add: list_all2_conv_all_nth case_prod_beta)
  have "map (\<lambda>c. map iw_utxo (tpc_inputs c)) (map ptp_chunk ps) = map snd jobs"
    using ok r len by (intro nth_equalityI) auto
  then show "map iw_utxo (concat (map tpc_inputs (map ptp_chunk ps))) = concat (map snd jobs)"
    by (metis (no_types, lifting) map_concat map_map comp_def map_eq_conv)
  show "map tpc_outputs (map ptp_chunk ps) = map utp_outputs plans"
    using ok r by (intro nth_equalityI) auto
qed

end
