(* ===== verification/PlanBatch.thy ===== *)
theory PlanBatch
  imports PlanSpec
begin

text \<open>
  The unshield and the send plans of \<open>build_unshield_plan_with_signer\<close> and
  \<open>build_send_plan_with_signer\<close>, in one token and with the fee in another: their transactions are
  sound, spend no note twice, and pay what was asked for.
\<close>

section \<open>Batches\<close>

lemma map_state_Inr:
  assumes "map_state f xs s = Inr (ys, s')" "I s"
    and "\<And>x y s s'. x \<in> set xs \<Longrightarrow> I s \<Longrightarrow> f x s = Inr (y, s') \<Longrightarrow> R x y \<and> I s'"
  shows "list_all2 R xs ys" "I s'"
proof -
  have "list_all2 R xs ys \<and> I s'" using assms
  proof (induction xs arbitrary: s ys)
    case (Cons x xs)
    from Cons.prems(1) obtain y s1 ys' where y: "f x s = Inr (y, s1)" "map_state f xs s1 = Inr (ys', s')" "ys = y # ys'"
      by auto
    have "R x y" "I s1" using Cons.prems(3) [OF _ Cons.prems(2) y(1)] by auto
    moreover have "list_all2 R xs ys' \<and> I s'" by (rule Cons.IH [OF y(2) \<open>I s1\<close>]) (use Cons.prems(3) in auto)
    ultimately show ?case using y(3) by simp
  qed simp
  then show "list_all2 R xs ys" "I s'" by auto
qed

text \<open>The outputs of a transaction that pays an allocation: the fee, the change and the payment.\<close>

definition unshield_layout ::
  "hash_fn \<Rightarrow> address_data \<Rightarrow> address \<Rightarrow> address \<Rightarrow> spend_allocation \<Rightarrow> railgun_note list \<Rightarrow> railgun_note \<Rightarrow> bool" where
  "unshield_layout hash wallet token to a outs pay \<longleftrightarrow>
     (\<exists>fs cs. outs = fs @ cs @ [pay] \<and> fee_notes hash (sa_fee a) fs \<and> change_notes hash wallet token (sa_change a) cs \<and>
        pay = new_unshield to token (sa_amount a))"

definition send_layout ::
  "hash_fn \<Rightarrow> address_data \<Rightarrow> address \<Rightarrow> address_data \<Rightarrow> spend_allocation \<Rightarrow> railgun_note list \<Rightarrow> railgun_note \<Rightarrow> bool" where
  "send_layout hash wallet token recipient a outs pay \<longleftrightarrow>
     (\<exists>fs cs. outs = fs @ [pay] @ cs \<and> fee_notes hash (sa_fee a) fs \<and> change_notes hash wallet token (sa_change a) cs \<and>
        note_to hash recipient token (sa_amount a) pay)"

definition fee_note_in ::
  "hash_fn \<Rightarrow> broadcaster_fee_output option \<Rightarrow> railgun_note list \<Rightarrow> railgun_note option \<Rightarrow> bool" where
  "fee_note_in hash fee outs fn \<longleftrightarrow>
     (case fee of
        None \<Rightarrow> fn = None
      | Some f \<Rightarrow> (\<exists>n. fn = Some n \<and> n \<in> set outs \<and> note_to hash (bf_recipient f) (bf_token_address f) (bf_amount f) n))"

lemma fee_notes_in:
  "fee_notes hash fee fs \<Longrightarrow> fee_note_in hash fee (fs @ outs) (if fs = [] then None else Some (hd fs))"
  by (auto simp: fee_notes_def fee_note_in_def split: option.splits)

text \<open>A transaction built for a chunk and its allocation, with its fee note and its payment.\<close>

definition chunk_built ::
  "'p env \<Rightarrow> viewing_key_data \<Rightarrow> merkle_forest \<Rightarrow> address \<Rightarrow>
     (spend_allocation \<Rightarrow> railgun_note list \<Rightarrow> railgun_note \<Rightarrow> bool) \<Rightarrow> utxo_selection \<times> spend_allocation \<Rightarrow>
     railgun_note option \<times> railgun_note \<times> unproven_transaction_plan \<Rightarrow> bool" where
  "chunk_built env viewing forest token layout = (\<lambda>(c, a) (fn, pay, plan).
     plan_sound env viewing forest token (sel_utxos c) plan \<and> layout a (utp_outputs plan) pay \<and>
     fee_note_in (env_hash env) (sa_fee a) (utp_outputs plan) fn)"

text \<open>What the loops need of their chunks: they balance, and the fee has the token of the batch.\<close>

definition chunk_ready :: "address \<Rightarrow> utxo_selection \<times> spend_allocation \<Rightarrow> bool" where
  "chunk_ready token = (\<lambda>(c, a). balanced c a \<and> nat_sum (sel_utxos c) = unat (sel_total c) \<and>
     (sa_fee a = None \<or> bf_token_address (the (sa_fee a)) = token))"

lemma unshield_loop_sound:
  assumes "unshield_loop env builder viewing forest request xs st = Inr (built, st')"
    and "mf_inv (env_hash env) forest" "cache_ok (env_hash env) forest (bst_cache st)"
    and "list_all (chunk_ready (ur_token_address request)) xs"
  shows "list_all2 (chunk_built env viewing forest (ur_token_address request)
      (unshield_layout (env_hash env) (address_data viewing) (ur_token_address request) (ur_recipient request))) xs
      (map (\<lambda>p. (uo_broadcaster_fee_note (fst p), uo_unshield_note (fst p), snd p)) built)"
proof -
  let ?t = "ur_token_address request"
  let ?R = "\<lambda>x p. chunk_built env viewing forest ?t
      (unshield_layout (env_hash env) (address_data viewing) ?t (ur_recipient request)) x
      (uo_broadcaster_fee_note (fst p), uo_unshield_note (fst p), snd p)"
  have "list_all2 ?R xs built"
  proof (rule map_state_Inr [OF assms(1) [unfolded unshield_loop_def], where I = "\<lambda>s. cache_ok (env_hash env) forest (bst_cache s)"])
    fix x y s s' assume x: "x \<in> set xs" and I: "cache_ok (env_hash env) forest (bst_cache s)"
      and run: "(case x of (chunk, a) \<Rightarrow> unshield_chunk env builder viewing forest request chunk (sa_amount a) (sa_change a) (sa_fee a)) s = Inr (y, s')"
    obtain c a outs plan where eq: "x = (c, a)" "y = (outs, plan)" by (cases x, cases y)
    have "chunk_ready ?t (c, a)" using assms(4) x eq by (auto simp: list_all_iff)
    then have fee: "sa_fee a = None \<or> bf_token_address (the (sa_fee a)) = ?t"
      and bal: "nat_sum (sel_utxos c) = unat (sa_amount a) + unat (sa_change a) + unat (fee_value (sa_fee a))"
      by (auto simp: chunk_ready_def balanced_def)
    note ch = unshield_chunk_sound [OF run [unfolded eq, simplified] assms(2) I fee bal]
    from ch(5) obtain fs cs where "uo_outputs outs = fs @ cs @ [new_unshield (ur_recipient request) ?t (sa_amount a)]"
      "fee_notes (env_hash env) (sa_fee a) fs" "change_notes (env_hash env) (address_data viewing) ?t (sa_change a) cs"
      "uo_unshield_note outs = new_unshield (ur_recipient request) ?t (sa_amount a)"
      "uo_broadcaster_fee_note outs = (if fs = [] then None else Some (hd fs))"
      using unshield_outputs_Inr by metis
    moreover from this have "fee_note_in (env_hash env) (sa_fee a) (uo_outputs outs) (uo_broadcaster_fee_note outs)"
      using fee_notes_in [of "env_hash env" "sa_fee a" fs] by simp
    ultimately show "?R x y \<and> cache_ok (env_hash env) forest (bst_cache s')"
      using ch(1-3) by (auto simp: chunk_built_def eq unshield_layout_def)
  qed (rule assms(3))
  then show ?thesis by (simp add: list.rel_map)
qed

lemma send_loop_sound:
  assumes "send_loop env builder viewing forest request xs st = Inr (built, st')"
    and "mf_inv (env_hash env) forest" "cache_ok (env_hash env) forest (bst_cache st)"
    and "list_all (chunk_ready (sr_token_address request)) xs"
  shows "list_all2 (chunk_built env viewing forest (sr_token_address request)
      (send_layout (env_hash env) (address_data viewing) (sr_token_address request) (sr_recipient request))) xs
      (map (\<lambda>p. (so_broadcaster_fee_note (fst p), so_recipient_note (fst p), snd p)) built)"
proof -
  let ?t = "sr_token_address request"
  let ?R = "\<lambda>x p. chunk_built env viewing forest ?t
      (send_layout (env_hash env) (address_data viewing) ?t (sr_recipient request)) x
      (so_broadcaster_fee_note (fst p), so_recipient_note (fst p), snd p)"
  have "list_all2 ?R xs built"
  proof (rule map_state_Inr [OF assms(1) [unfolded send_loop_def], where I = "\<lambda>s. cache_ok (env_hash env) forest (bst_cache s)"])
    fix x y s s' assume x: "x \<in> set xs" and I: "cache_ok (env_hash env) forest (bst_cache s)"
      and run: "(case x of (chunk, a) \<Rightarrow> send_chunk env builder viewing forest request chunk (sa_amount a) (sa_change a) (sa_fee a)) s = Inr (y, s')"
    obtain c a outs plan where eq: "x = (c, a)" "y = (outs, plan)" by (cases x, cases y)
    have "chunk_ready ?t (c, a)" using assms(4) x eq by (auto simp: list_all_iff)
    then have fee: "sa_fee a = None \<or> bf_token_address (the (sa_fee a)) = ?t"
      and bal: "nat_sum (sel_utxos c) = unat (sa_amount a) + unat (sa_change a) + unat (fee_value (sa_fee a))"
      by (auto simp: chunk_ready_def balanced_def)
    note ch = send_chunk_sound [OF run [unfolded eq, simplified] assms(2) I fee bal]
    from ch(5) obtain fs n cs where "so_outputs outs = fs @ [n] @ cs"
      "fee_notes (env_hash env) (sa_fee a) fs" "change_notes (env_hash env) (address_data viewing) ?t (sa_change a) cs"
      "note_to (env_hash env) (sr_recipient request) ?t (sa_amount a) n" "so_recipient_note outs = n"
      "so_broadcaster_fee_note outs = (if fs = [] then None else Some (hd fs))"
      using send_outputs_Inr by metis
    moreover from this have "fee_note_in (env_hash env) (sa_fee a) (so_outputs outs) (so_broadcaster_fee_note outs)"
      using fee_notes_in [of "env_hash env" "sa_fee a" fs] by simp
    ultimately show "?R x y \<and> cache_ok (env_hash env) forest (bst_cache s')"
      using ch(1-3) by (auto simp: chunk_built_def eq send_layout_def)
  qed (rule assms(3))
  then show ?thesis by (simp add: list.rel_map)
qed

lemma chunks_totals:
  "chunks_ok utxos token base cont cs \<Longrightarrow> nat_sum utxos < 2 ^ 256 \<Longrightarrow>
     list_all (\<lambda>c. nat_sum (sel_utxos c) = unat (sel_total c)) cs"
proof (induction utxos token base cont cs rule: chunks_ok.induct)
  case (2 utxos token base cont c cs)
  have "nat_sum (remove_selected_utxos utxos (sel_utxos c)) \<le> nat_sum utxos"
    by (rule nat_sum_submset) (simp add: remove_selected_filter)
  with 2 chunk_worth [of utxos token base c] show ?case by simp
qed simp

lemma selected_batch:
  assumes "select_batched_utxos_with_limit utxos token amount up_to first cont m = Inr b"
    "distinct (map utxo_key utxos)" "0 < m"
  shows "batch_or_max utxos token amount up_to first cont m b"
  using select_batched_cases [OF assms(1,2)] assms(3) by (simp add: batch_or_max_def max_def Suc_le_eq)

lemma batch_ready:
  assumes "batch_or_max utxos token amount up_to first cont m b" "nat_sum utxos < 2 ^ 256"
    and "list_all2 balanced (bs_chunks b) as" "\<forall>i < length as. sa_fee (as ! i) = alloc_fee fee i"
    and "fee = None \<or> bf_token_address (the fee) = token"
  shows "list_all (chunk_ready token) (zip (bs_chunks b) as)"
  using chunks_totals [OF batch_or_max_chunks(1) [OF assms(1)] assms(2)] assms(3-5)
  by (auto simp: list_all_length list_all2_conv_all_nth chunk_ready_def alloc_fee_def)

lemma first_note_Cons: "first_note (n # ns) = (if n = None then first_note ns else n)"
proof -
  have "foldl (\<lambda>acc n. if acc = None then n else acc) (Some x) ns = Some x" for x :: railgun_note and ns
    by (induction ns) auto
  then show ?thesis by (cases n) (simp_all add: first_note_def)
qed

lemma first_note_None: "list_all (\<lambda>n. n = None) ns \<Longrightarrow> first_note ns = None"
  by (induction ns) (simp_all add: first_note_Cons, simp add: first_note_def)

lemma built_pays:
  assumes "list_all2 (chunk_built env viewing forest token layout) (zip cs as) rs" "length as = length cs" "cs \<noteq> []"
    and "\<forall>i < length as. sa_fee (as ! i) = alloc_fee fee i"
  shows "list_all2 (\<lambda>(token, us). plan_sound env viewing forest token us) (map (\<lambda>c. (token, sel_utxos c)) cs) (map (\<lambda>r. snd (snd r)) rs)"
    "list_all2 (\<lambda>(a, pay) plan. layout a (utp_outputs plan) pay) (zip as (map (\<lambda>r. fst (snd r)) rs)) (map (\<lambda>r. snd (snd r)) rs)"
    "fee_note_in (env_hash env) fee (utp_outputs (snd (snd (hd rs)))) (first_note (map fst rs))" "length rs = length cs"
proof -
  note nth = assms(1) [unfolded list_all2_conv_all_nth]
  show len: "length rs = length cs" using nth assms(2) by simp
  have ok: "plan_sound env viewing forest token (sel_utxos (cs ! i)) (snd (snd (rs ! i)))"
    "layout (as ! i) (utp_outputs (snd (snd (rs ! i)))) (fst (snd (rs ! i)))"
    "fee_note_in (env_hash env) (alloc_fee fee i) (utp_outputs (snd (snd (rs ! i)))) (fst (rs ! i))" if "i < length cs" for i
    using nth that assms(2,4) by (auto simp: chunk_built_def case_prod_beta)
  then show "list_all2 (\<lambda>(token, us). plan_sound env viewing forest token us) (map (\<lambda>c. (token, sel_utxos c)) cs) (map (\<lambda>r. snd (snd r)) rs)"
    "list_all2 (\<lambda>(a, pay) plan. layout a (utp_outputs plan) pay) (zip as (map (\<lambda>r. fst (snd r)) rs)) (map (\<lambda>r. snd (snd r)) rs)"
    using len assms(2) by (simp_all add: list_all2_conv_all_nth)
  obtain r rs' where rs: "rs = r # rs'" using len assms(3) by (cases rs) auto
  have "fst (rs' ! i) = None" if "i < length rs'" for i
    using ok(3) [of "Suc i"] that len rs by (simp add: fee_note_in_def alloc_fee_def)
  then have "first_note (map fst rs') = None" by (intro first_note_None) (simp add: list_all_length)
  moreover have "fee_note_in (env_hash env) fee (utp_outputs (snd (snd r))) (fst r)"
    using ok(3) [of 0] assms(3) rs by (simp add: alloc_fee_def)
  ultimately show "fee_note_in (env_hash env) fee (utp_outputs (snd (snd (hd rs)))) (first_note (map fst rs))"
    by (cases "fst r") (simp_all add: rs first_note_Cons)
qed

section \<open>Plans\<close>

text \<open>
  The transactions of a plan are sound, they are within the limit of a batch, and no two of their
  inputs are the same note. A fee in another token has the first transaction to itself.
\<close>

definition txs_sound ::
  "'p env \<Rightarrow> viewing_key_data \<Rightarrow> merkle_forest \<Rightarrow> utxo list \<Rightarrow> address \<Rightarrow> broadcaster_fee_output option \<Rightarrow>
     transaction_plan_chunk list \<Rightarrow> bool" where
  "txs_sound env viewing forest utxos token separate chunks \<longleftrightarrow>
     chunks \<noteq> [] \<and> length chunks \<le> MAX_BATCH_TRANSACTIONS \<and>
     distinct (map utxo_key (map iw_utxo (concat (map tpc_inputs chunks)))) \<and>
     (case separate of
        None \<Rightarrow> list_all (tx_sound env viewing forest utxos token) chunks
      | Some fee \<Rightarrow> tx_sound env viewing forest utxos (bf_token_address fee) (hd chunks) \<and>
          list_all (tx_sound env viewing forest utxos token) (tl chunks))"

definition action_chunks :: "broadcaster_fee_output option \<Rightarrow> 'a list \<Rightarrow> 'a list" where
  "action_chunks separate chunks = (if separate = None then chunks else tl chunks)"

text \<open>
  The payments of the transactions: each pays its share of the amount, with its change and, in the
  first transaction, the fee; together they pay the amount, or less when spending up to it was asked for.
\<close>

definition pays ::
  "(spend_allocation \<Rightarrow> railgun_note list \<Rightarrow> railgun_note \<Rightarrow> bool) \<Rightarrow> broadcaster_fee_output option \<Rightarrow> u256 \<Rightarrow> bool \<Rightarrow>
     transaction_plan_chunk list \<Rightarrow> railgun_note list \<Rightarrow> bool" where
  "pays layout fee amount up_to cs notes \<longleftrightarrow>
     (\<exists>as. length as = length cs \<and> length notes = length cs \<and> (\<forall>i < length as. sa_fee (as ! i) = alloc_fee fee i) \<and>
        list_all2 (\<lambda>(a, pay) c. layout a (tpc_outputs c) pay) (zip as notes) cs \<and>
        (paid as = unat amount \<or> up_to \<and> paid as < unat amount))"

lemma finish_unshield_Inr:
  assumes "finish_unshield env builder plans verify fn notes cn = Inr plan"
  shows "\<exists>ps. prove_transaction_plans env plans verify = Inr ps \<and> up_chunks plan = map ptp_chunk ps \<and>
    up_broadcaster_fee_note plan = fn \<and> up_unshield_notes plan = notes"
  using assms by (auto simp: finish_unshield_def Let_def)

lemma finish_send_Inr:
  assumes "finish_send env builder plans verify fn notes cn = Inr plan"
  shows "\<exists>ps. prove_transaction_plans env plans verify = Inr ps \<and> sdp_chunks plan = map ptp_chunk ps \<and>
    sdp_broadcaster_fee_note plan = fn \<and> sdp_recipient_notes plan = notes"
  using assms by (auto simp: finish_send_def Let_def)

text \<open>The end of a batch, whatever its transactions pay, after the transactions of \<open>pre\<close>.\<close>

lemma batch_plan_sound:
  assumes sel: "select_batched_utxos_with_limit utxos token target up_to first cont m = Inr b" "0 < m"
    and al: "spend_allocations b amount (fee_value fee) fee up_to = Inr as"
    and built: "list_all2 (chunk_built env viewing forest token layout) (zip (bs_chunks b) as) rs"
    and pre: "list_all2 (\<lambda>(token, us). plan_sound env viewing forest token us) pre pre_plans"
      "set (concat (map snd pre)) \<subseteq> set utxos"
    and prove: "prove_transaction_plans env (pre_plans @ map (\<lambda>r. snd (snd r)) rs) verify = Inr ps"
    and wallet: "mf_inv (env_hash env) forest" "distinct (map utxo_key utxos)" "nat_sum utxos < 2 ^ 256" "local_positions utxos"
  shows "list_all2 (\<lambda>(token, us) c. tx_sound env viewing forest utxos token c)
      (pre @ map (\<lambda>c. (token, sel_utxos c)) (bs_chunks b)) (map ptp_chunk ps)"
    "map iw_utxo (concat (map tpc_inputs (map ptp_chunk ps))) = concat (map snd pre) @ chunk_inputs (bs_chunks b)"
    "pays layout fee amount up_to (drop (length pre) (map ptp_chunk ps)) (map (\<lambda>r. fst (snd r)) rs)"
    "fee_note_in (env_hash env) fee (tpc_outputs (map ptp_chunk ps ! length pre)) (first_note (map fst rs))"
    "spendable_batch utxos token first cont m b" "map tpc_outputs (take (length pre) (map ptp_chunk ps)) = map utp_outputs pre_plans"
proof -
  note sp = batch_or_max_spendable(1) [OF selected_batch [OF sel(1) wallet(2) sel(2)] wallet(2,3)]
  show "spendable_batch utxos token first cont m b" by (rule sp)
  have ne: "bs_chunks b \<noteq> []" and sub: "set (chunk_inputs (bs_chunks b)) \<subseteq> set utxos"
    using sp by (auto simp: spendable_batch_def)
  note alloc = spend_allocations_Inr [OF al]
  have las: "length as = length (bs_chunks b)" using alloc(1) by (simp add: list_all2_lengthD)
  note bp = built_pays [OF built las ne alloc(2)]
  let ?jobs = "pre @ map (\<lambda>c. (token, sel_utxos c)) (bs_chunks b)"
  have jobs: "concat (map snd ?jobs) = concat (map snd pre) @ chunk_inputs (bs_chunks b)" by (simp add: chunk_inputs_def comp_def)
  have lpre: "length pre_plans = length pre" using pre(1) by (simp add: list_all2_lengthD)
  note pr = prove_transactions_sound [OF prove list_all2_appendI [OF pre(1) bp(1)] wallet(1) _ wallet(4), unfolded jobs]
  have in_wallet: "set (concat (map snd pre) @ chunk_inputs (bs_chunks b)) \<subseteq> set utxos" using pre(2) sub by simp
  show "list_all2 (\<lambda>(token, us) c. tx_sound env viewing forest utxos token c) ?jobs (map ptp_chunk ps)"
    "map iw_utxo (concat (map tpc_inputs (map ptp_chunk ps))) = concat (map snd pre) @ chunk_inputs (bs_chunks b)"
    using pr(1,2) [OF in_wallet] by auto
  note outs = pr(3) [OF in_wallet]
  have drop: "map tpc_outputs (drop (length pre) (map ptp_chunk ps)) = map utp_outputs (map (\<lambda>r. snd (snd r)) rs)"
    using arg_cong [OF outs, of "drop (length pre)"] lpre by (simp add: drop_map)
  show "map tpc_outputs (take (length pre) (map ptp_chunk ps)) = map utp_outputs pre_plans"
    using arg_cong [OF outs, of "take (length pre)"] lpre by (simp add: take_map)
  have lps: "length (drop (length pre) (map ptp_chunk ps)) = length rs" using drop by (metis length_map)
  have "list_all2 (\<lambda>(a, pay) os. layout a os pay) (zip as (map (\<lambda>r. fst (snd r)) rs)) (map utp_outputs (map (\<lambda>r. snd (snd r)) rs))"
    using bp(2) by (simp only: list_all2_map2 case_prod_unfold)
  then have "list_all2 (\<lambda>(a, pay) c. layout a (tpc_outputs c) pay) (zip as (map (\<lambda>r. fst (snd r)) rs))
      (drop (length pre) (map ptp_chunk ps))"
    unfolding drop [symmetric] by (simp only: list_all2_map2 case_prod_unfold)
  moreover have "paid as = unat amount \<or> up_to \<and> paid as < unat amount" using alloc(5) by (auto split: if_splits)
  ultimately show "pays layout fee amount up_to (drop (length pre) (map ptp_chunk ps)) (map (\<lambda>r. fst (snd r)) rs)"
    using alloc(2) las lps bp(4) unfolding pays_def by auto
  have "0 < length rs" using bp(4) ne by auto
  then have "tpc_outputs (map ptp_chunk ps ! length pre) = utp_outputs (snd (snd (hd rs)))"
    using arg_cong [OF drop, of "\<lambda>xs. xs ! 0"] lps by (cases rs) auto
  with bp(3) show "fee_note_in (env_hash env) fee (tpc_outputs (map ptp_chunk ps ! length pre)) (first_note (map fst rs))"
    by simp
qed

lemma same_token_fee:
  "ur_different_token_broadcaster_fee ur = None \<Longrightarrow> ur_same_token_broadcaster_fee ur = ur_broadcaster_fee ur"
  "sr_different_token_broadcaster_fee sr = None \<Longrightarrow> sr_same_token_broadcaster_fee sr = sr_broadcaster_fee sr"
  by (auto simp: ur_different_token_broadcaster_fee_def ur_same_token_broadcaster_fee_def
      sr_different_token_broadcaster_fee_def sr_same_token_broadcaster_fee_def option_filter_def split: option.splits if_splits)

lemma same_token_fee_token:
  "ur_same_token_broadcaster_fee ur = None \<or> bf_token_address (the (ur_same_token_broadcaster_fee ur)) = ur_token_address ur"
  "sr_same_token_broadcaster_fee sr = None \<or> bf_token_address (the (sr_same_token_broadcaster_fee sr)) = sr_token_address sr"
  by (auto simp: ur_same_token_broadcaster_fee_def sr_same_token_broadcaster_fee_def option_filter_def split: option.splits if_splits)

lemma fee_amount_value:
  "ur_fee_amount ur = fee_value (ur_same_token_broadcaster_fee ur)" "sr_fee_amount sr = fee_value (sr_same_token_broadcaster_fee sr)"
  by (auto simp: ur_fee_amount_def sr_fee_amount_def split: option.splits)

text \<open>The loops run on what the selection and the allocation give them.\<close>

lemma allocated_ready:
  assumes "select_batched_utxos_with_limit utxos token target up_to first cont m = Inr b" "0 < m"
    and "spend_allocations b amount (fee_value fee) fee up_to = Inr as"
    and "fee = None \<or> bf_token_address (the fee) = token" "distinct (map utxo_key utxos)" "nat_sum utxos < 2 ^ 256"
  shows "list_all (chunk_ready token) (zip (bs_chunks b) as)"
  using batch_ready [OF selected_batch [OF assms(1,5,2)] assms(6)] spend_allocations_Inr(1,2) [OF assms(3)] assms(4) by blast

lemma cache_ok_start [simp]: "cache_ok hash forest (bst_cache (build_start d))"
  by (simp add: build_start_def)

lemma jobs_list_all:
  "list_all2 (\<lambda>(token, us) c. P token c) (map (\<lambda>c. (token, f c)) bs) cs \<Longrightarrow> list_all (P token) cs"
  by (auto simp: list_all2_conv_all_nth list_all_length)

lemma same_token_sound:
  assumes "list_all2 (\<lambda>(token, us) c. tx_sound env viewing forest utxos token c) (map (\<lambda>c. (token, sel_utxos c)) (bs_chunks b)) chunks"
    and "map iw_utxo (concat (map tpc_inputs chunks)) = chunk_inputs (bs_chunks b)"
    and "spendable_batch utxos token first cont MAX_BATCH_TRANSACTIONS b"
  shows "txs_sound env viewing forest utxos token None chunks"
proof -
  note jobs_list_all [OF assms(1)]
  moreover have "length chunks = length (bs_chunks b)" using assms(1) by (auto dest: list_all2_lengthD)
  ultimately show ?thesis using assms(2,3) by (auto simp: txs_sound_def spendable_batch_def)
qed

lemma unshield_same_token:
  assumes plan: "build_unshield_plan_with_signer env builder viewing forest utxos request d = Inr plan"
    and fee: "ur_different_token_broadcaster_fee request = None"
    and wallet: "mf_inv (env_hash env) forest" "distinct (map utxo_key utxos)" "nat_sum utxos < 2 ^ 256" "local_positions utxos"
  defines "layout \<equiv> unshield_layout (env_hash env) (address_data viewing) (ur_token_address request) (ur_recipient request)"
  shows "txs_sound env viewing forest utxos (ur_token_address request) None (up_chunks plan)"
    "pays layout (ur_broadcaster_fee request) (ur_amount request) (ur_spend_up_to request) (up_chunks plan) (up_unshield_notes plan)"
    "fee_note_in (env_hash env) (ur_broadcaster_fee request) (tpc_outputs (hd (up_chunks plan))) (up_broadcaster_fee_note plan)"
proof -
  let ?t = "ur_token_address request" let ?f = "ur_broadcaster_fee request"
  note f = same_token_fee(1) [OF fee]
  from plan fee obtain b as built st where
    sel: "select_batched_utxos_with_limit utxos ?t (ur_target_amount request) (ur_spend_up_to request)
       (ur_base_output_count request) 1 MAX_BATCH_TRANSACTIONS = Inr b"
    and al: "spend_allocations b (ur_amount request) (fee_value ?f) ?f (ur_spend_up_to request) = Inr as"
    and loop: "unshield_loop env builder viewing forest request (zip (bs_chunks b) as) (build_start d) = Inr (built, st)"
    and fin: "finish_unshield env builder (map snd built) (ur_verify_proof request)
       (first_note (map (\<lambda>p. uo_broadcaster_fee_note (fst p)) built)) (map (\<lambda>p. uo_unshield_note (fst p)) built)
       (last_note None (map (\<lambda>p. uo_change_note (fst p)) built)) = Inr plan"
    by (auto simp: build_unshield_plan_with_signer_def build_unshield_batch_with_signer_def select_batched_utxos_def fee_amount_value f)
  have m: "0 < MAX_BATCH_TRANSACTIONS" by (simp add: MAX_BATCH_TRANSACTIONS_def)
  have tok: "?f = None \<or> bf_token_address (the ?f) = ?t" using same_token_fee_token(1) [of request] f by simp
  note built = unshield_loop_sound [OF loop wallet(1) cache_ok_start allocated_ready [OF sel m al tok wallet(2,3)], folded layout_def]
  from finish_unshield_Inr [OF fin] obtain ps where ps: "prove_transaction_plans env (map snd built) (ur_verify_proof request) = Inr ps"
    and out: "up_chunks plan = map ptp_chunk ps" "up_broadcaster_fee_note plan = first_note (map (\<lambda>p. uo_broadcaster_fee_note (fst p)) built)"
      "up_unshield_notes plan = map (\<lambda>p. uo_unshield_note (fst p)) built" by blast
  note s = batch_plan_sound [OF sel m al built, of "[]" "[]", simplified comp_def map_map fst_conv snd_conv append_Nil, OF _ _ ps wallet, simplified]
  show "txs_sound env viewing forest utxos ?t None (up_chunks plan)"
    unfolding out by (rule same_token_sound [OF _ _ s(5)]) (use s(1,2) in \<open>simp_all add: comp_def\<close>)
  show "pays layout ?f (ur_amount request) (ur_spend_up_to request) (up_chunks plan) (up_unshield_notes plan)"
    using s(3) by (simp add: out)
  show "fee_note_in (env_hash env) ?f (tpc_outputs (hd (up_chunks plan))) (up_broadcaster_fee_note plan)"
    using s(4) \<open>txs_sound env viewing forest utxos ?t None (up_chunks plan)\<close> by (simp add: out hd_conv_nth txs_sound_def)
qed

lemma send_same_token:
  assumes plan: "build_send_plan_with_signer env builder viewing forest utxos request d = Inr plan"
    and fee: "sr_different_token_broadcaster_fee request = None"
    and wallet: "mf_inv (env_hash env) forest" "distinct (map utxo_key utxos)" "nat_sum utxos < 2 ^ 256" "local_positions utxos"
  defines "layout \<equiv> send_layout (env_hash env) (address_data viewing) (sr_token_address request) (sr_recipient request)"
  shows "txs_sound env viewing forest utxos (sr_token_address request) None (sdp_chunks plan)"
    "pays layout (sr_broadcaster_fee request) (sr_amount request) (sr_spend_up_to request) (sdp_chunks plan) (sdp_recipient_notes plan)"
    "fee_note_in (env_hash env) (sr_broadcaster_fee request) (tpc_outputs (hd (sdp_chunks plan))) (sdp_broadcaster_fee_note plan)"
proof -
  let ?t = "sr_token_address request" let ?f = "sr_broadcaster_fee request"
  note f = same_token_fee(2) [OF fee]
  from plan fee obtain b as built st where
    sel: "select_batched_utxos_with_limit utxos ?t (sr_target_amount request) (sr_spend_up_to request)
       (sr_base_output_count request) 1 MAX_BATCH_TRANSACTIONS = Inr b"
    and al: "spend_allocations b (sr_amount request) (fee_value ?f) ?f (sr_spend_up_to request) = Inr as"
    and loop: "send_loop env builder viewing forest request (zip (bs_chunks b) as) (build_start d) = Inr (built, st)"
    and fin: "finish_send env builder (map snd built) (sr_verify_proof request)
       (first_note (map (\<lambda>p. so_broadcaster_fee_note (fst p)) built)) (map (\<lambda>p. so_recipient_note (fst p)) built)
       (last_note None (map (\<lambda>p. so_change_note (fst p)) built)) = Inr plan"
    by (auto simp: build_send_plan_with_signer_def build_send_batch_with_signer_def select_batched_utxos_def fee_amount_value f)
  have m: "0 < MAX_BATCH_TRANSACTIONS" by (simp add: MAX_BATCH_TRANSACTIONS_def)
  have tok: "?f = None \<or> bf_token_address (the ?f) = ?t" using same_token_fee_token(2) [of request] f by simp
  note built = send_loop_sound [OF loop wallet(1) cache_ok_start allocated_ready [OF sel m al tok wallet(2,3)], folded layout_def]
  from finish_send_Inr [OF fin] obtain ps where ps: "prove_transaction_plans env (map snd built) (sr_verify_proof request) = Inr ps"
    and out: "sdp_chunks plan = map ptp_chunk ps" "sdp_broadcaster_fee_note plan = first_note (map (\<lambda>p. so_broadcaster_fee_note (fst p)) built)"
      "sdp_recipient_notes plan = map (\<lambda>p. so_recipient_note (fst p)) built" by blast
  note s = batch_plan_sound [OF sel m al built, of "[]" "[]", simplified comp_def map_map fst_conv snd_conv append_Nil, OF _ _ ps wallet, simplified]
  show "txs_sound env viewing forest utxos ?t None (sdp_chunks plan)"
    unfolding out by (rule same_token_sound [OF _ _ s(5)]) (use s(1,2) in \<open>simp_all add: comp_def\<close>)
  show "pays layout ?f (sr_amount request) (sr_spend_up_to request) (sdp_chunks plan) (sdp_recipient_notes plan)"
    using s(3) by (simp add: out)
  show "fee_note_in (env_hash env) ?f (tpc_outputs (hd (sdp_chunks plan))) (sdp_broadcaster_fee_note plan)"
    using s(4) \<open>txs_sound env viewing forest utxos ?t None (sdp_chunks plan)\<close> by (simp add: out hd_conv_nth txs_sound_def)
qed

text \<open>A fee in another token: its notes and those of the action have different tokens.\<close>

lemma token_hash_inject: "token_hash_of a = token_hash_of b \<longleftrightarrow> a = b"
proof -
  have "unat (token_hash_of x) = unat x" for x :: address
  proof -
    have "unat x < 2 ^ 160" using unsigned_less [of x] by simp
    then have "unat x mod 256 ^ 20 = unat x" "unat x < 2 ^ LENGTH(256)" by auto
    then show ?thesis
      by (simp only: token_hash_of_def u256_from_be_slice_def address_bytes_def from_be_be_bytes unat_of_nat mod_less)
  qed
  then show ?thesis by (metis unat_eqI)
qed

lemma select_fee_Inr:
  assumes "select_fee_utxos utxos token amount = Inr s" "nat_sum utxos < 2 ^ 256" "distinct (map utxo_key utxos)"
  shows "amount \<le> sel_total s" "nat_sum (sel_utxos s) = unat (sel_total s)" "distinct (map utxo_key (sel_utxos s))"
    "set (sel_utxos s) \<subseteq> set utxos" "\<forall>u \<in> set (sel_utxos s). eligible token u"
proof -
  have b: "best_unshield_selection utxos token amount 1 = Some s"
    using assms(1) by (auto simp: select_fee_utxos_def ok_or_Inr Let_def split: if_splits)
  note ok = best_unshield_ok [OF b]
  show "amount \<le> sel_total s" using ok(2) by (simp add: covers_def)
  show "nat_sum (sel_utxos s) = unat (sel_total s)" using chunk_worth(1) [OF ok(1) assms(2)] by simp
  show "distinct (map utxo_key (sel_utxos s))" "set (sel_utxos s) \<subseteq> set utxos"
    using submset_distinct_keys [OF chunk_okD(1) [OF ok(1)] assms(3)] by auto
  show "\<forall>u \<in> set (sel_utxos s). eligible token u" using chunk_okD(2) [OF ok(1)] by blast
qed

lemma separate_inputs_distinct:
  assumes "distinct (map utxo_key utxos)" "set us \<subseteq> set utxos" "set vs \<subseteq> set utxos"
    "distinct (map utxo_key us)" "distinct (map utxo_key vs)"
    "\<forall>u \<in> set us. eligible a u" "\<forall>v \<in> set vs. eligible b v" "a \<noteq> b"
  shows "distinct (map utxo_key (us @ vs))"
proof -
  have "utxo_key u \<noteq> utxo_key v" if "u \<in> set us" "v \<in> set vs" for u v
  proof
    assume "utxo_key u = utxo_key v"
    then have "u = v" using assms(1-3) that by (auto simp: distinct_map dest: inj_onD)
    with assms(6-8) that show False by (auto simp: eligible_def token_hash_inject)
  qed
  then have "set (map utxo_key us) \<inter> set (map utxo_key vs) = {}" by fastforce
  with assms(4,5) show ?thesis by simp
qed

lemma spendable_batch_eligible:
  assumes "spendable_batch utxos token first cont m b" "u \<in> set (chunk_inputs (bs_chunks b))"
  shows "eligible token u"
proof -
  from assms(2) obtain i where "i < length (bs_chunks b)" "u \<in> set (sel_utxos (bs_chunks b ! i))"
    by (auto simp: chunk_inputs_def in_set_conv_nth [of _ "bs_chunks b"])
  with assms(1) show ?thesis by (fastforce simp: spendable_batch_def Let_def)
qed

lemma separate_sound:
  assumes tx: "list_all2 (\<lambda>(token, us) c. tx_sound env viewing forest utxos token c)
      ((bf_token_address fee, us) # map (\<lambda>c. (token, sel_utxos c)) (bs_chunks b)) chunks"
    and inputs: "map iw_utxo (concat (map tpc_inputs chunks)) = us @ chunk_inputs (bs_chunks b)"
    and sp: "spendable_batch utxos token first cont (MAX_BATCH_TRANSACTIONS - 1) b" and ne: "bf_token_address fee \<noteq> token"
    and fee: "distinct (map utxo_key us)" "set us \<subseteq> set utxos" "\<forall>u \<in> set us. eligible (bf_token_address fee) u"
    and utxos: "distinct (map utxo_key utxos)"
  shows "txs_sound env viewing forest utxos token (Some fee) chunks"
proof -
  obtain c cs where ch: "chunks = c # cs" using tx by (cases chunks) auto
  have "length cs = length (bs_chunks b)" using tx ch by (auto dest: list_all2_lengthD)
  then have "length chunks \<le> MAX_BATCH_TRANSACTIONS" using sp ch by (auto simp: spendable_batch_def MAX_BATCH_TRANSACTIONS_def)
  moreover have "distinct (map utxo_key (us @ chunk_inputs (bs_chunks b)))"
    by (rule separate_inputs_distinct [OF utxos fee(2) _ fee(1) _ fee(3) _ ne])
      (use sp spendable_batch_eligible [OF sp] in \<open>auto simp: spendable_batch_def\<close>)
  moreover have "list_all (tx_sound env viewing forest utxos token) cs" "tx_sound env viewing forest utxos (bf_token_address fee) c"
    using tx jobs_list_all [of "tx_sound env viewing forest utxos" token sel_utxos "bs_chunks b" cs] unfolding ch by simp_all
  ultimately show ?thesis using inputs ch by (simp add: txs_sound_def)
qed

lemma different_token_fee:
  "ur_different_token_broadcaster_fee ur = Some fee \<Longrightarrow> ur_broadcaster_fee ur = Some fee \<and> bf_token_address fee \<noteq> ur_token_address ur"
  "sr_different_token_broadcaster_fee sr = Some fee \<Longrightarrow> sr_broadcaster_fee sr = Some fee \<and> bf_token_address fee \<noteq> sr_token_address sr"
  by (auto simp: ur_different_token_broadcaster_fee_def sr_different_token_broadcaster_fee_def option_filter_def split: option.splits if_splits)

text \<open>The rest of a plan with a fee transaction, whatever its other transactions pay.\<close>

lemma separate_plan_sound:
  assumes fs: "select_fee_utxos utxos (bf_token_address fee) (bf_amount fee) = Inr fs"
    and fo: "fee_only_chunk env builder viewing forest fee gas fs (build_start d) = Inr ((fouts, fplan), st)"
    and sel: "select_batched_utxos_with_limit utxos token target up_to first cont (MAX_BATCH_TRANSACTIONS - 1) = Inr b"
    and al: "spend_allocations b amount 0 None up_to = Inr as"
    and built: "list_all2 (chunk_built env viewing forest token layout) (zip (bs_chunks b) as) rs"
    and prove: "prove_transaction_plans env (fplan # map (\<lambda>r. snd (snd r)) rs) verify = Inr ps"
    and ne: "bf_token_address fee \<noteq> token"
    and wallet: "mf_inv (env_hash env) forest" "distinct (map utxo_key utxos)" "nat_sum utxos < 2 ^ 256" "local_positions utxos"
  shows "txs_sound env viewing forest utxos token (Some fee) (map ptp_chunk ps)"
    "pays layout None amount up_to (tl (map ptp_chunk ps)) (map (\<lambda>r. fst (snd r)) rs)"
    "fee_note_in (env_hash env) (Some fee) (tpc_outputs (hd (map ptp_chunk ps))) (Some (fo_broadcaster_fee_note fouts))"
proof -
  note fee = select_fee_Inr [OF fs wallet(3,2)]
  note f = fee_only_chunk_sound [OF fo wallet(1) cache_ok_start fee(1,2)]
  have m: "0 < MAX_BATCH_TRANSACTIONS - 1" by (simp add: MAX_BATCH_TRANSACTIONS_def)
  have al': "spend_allocations b amount (fee_value None) None up_to = Inr as" using al by simp
  note s = batch_plan_sound [OF sel m al' built, of "[(bf_token_address fee, sel_utxos fs)]" "[fplan]", simplified, OF f(1) fee(4) prove wallet(1,2) wallet(3) [simplified] wallet(4), simplified]
  show tx: "txs_sound env viewing forest utxos token (Some fee) (map ptp_chunk ps)"
    by (rule separate_sound [OF _ _ _ ne fee(3,4,5) wallet(2)]) (use s(1,2,5) in simp_all)
  show "pays layout None amount up_to (tl (map ptp_chunk ps)) (map (\<lambda>r. fst (snd r)) rs)"
    using s(3) by (simp add: drop_Suc)
  have "tpc_outputs (hd (map ptp_chunk ps)) = fo_outputs fouts" using s(6) tx f(3) by (cases ps) (auto simp: txs_sound_def)
  with f(5) show "fee_note_in (env_hash env) (Some fee) (tpc_outputs (hd (map ptp_chunk ps))) (Some (fo_broadcaster_fee_note fouts))"
    by (auto simp: fee_note_in_def)
qed

lemma unshield_separate:
  assumes plan: "build_unshield_plan_with_signer env builder viewing forest utxos request d = Inr plan"
    and fee: "ur_different_token_broadcaster_fee request = Some fee"
    and wallet: "mf_inv (env_hash env) forest" "distinct (map utxo_key utxos)" "nat_sum utxos < 2 ^ 256" "local_positions utxos"
  defines "layout \<equiv> unshield_layout (env_hash env) (address_data viewing) (ur_token_address request) (ur_recipient request)"
  shows "txs_sound env viewing forest utxos (ur_token_address request) (Some fee) (up_chunks plan)"
    "pays layout None (ur_amount request) (ur_spend_up_to request) (tl (up_chunks plan)) (up_unshield_notes plan)"
    "fee_note_in (env_hash env) (Some fee) (tpc_outputs (hd (up_chunks plan))) (up_broadcaster_fee_note plan)"
proof -
  let ?t = "ur_token_address request" let ?m = "MAX_BATCH_TRANSACTIONS - 1"
  from plan fee obtain fs b fouts fplan st as built st' where
    fs: "select_fee_utxos utxos (bf_token_address fee) (bf_amount fee) = Inr fs"
    and sel: "select_batched_utxos_with_limit utxos ?t (ur_amount request) (ur_spend_up_to request) 1 1 ?m = Inr b"
    and fo: "fee_only_chunk env builder viewing forest fee (ur_min_gas_price request) fs (build_start d) = Inr ((fouts, fplan), st)"
    and al: "spend_allocations b (ur_amount request) 0 None (ur_spend_up_to request) = Inr as"
    and loop: "unshield_loop env builder viewing forest request (zip (bs_chunks b) as) st = Inr (built, st')"
    and fin: "finish_unshield env builder (fplan # map snd built) (ur_verify_proof request)
       (Some (fo_broadcaster_fee_note fouts)) (map (\<lambda>p. uo_unshield_note (fst p)) built)
       (last_note (fo_change_note fouts) (map (\<lambda>p. uo_change_note (fst p)) built)) = Inr plan"
    by (auto simp: build_unshield_plan_with_signer_def build_unshield_batch_with_separate_fee_token_def)
  have m: "0 < ?m" by (simp add: MAX_BATCH_TRANSACTIONS_def)
  note fsel = select_fee_Inr [OF fs wallet(3,2)]
  note st = fee_only_chunk_sound(2) [OF fo wallet(1) cache_ok_start fsel(1,2)]
  have ready: "list_all (chunk_ready ?t) (zip (bs_chunks b) as)"
    by (rule allocated_ready [OF sel m _ _ wallet(2,3), of _ None]) (use al in simp_all)
  note built = unshield_loop_sound [OF loop wallet(1) st ready, folded layout_def]
  from finish_unshield_Inr [OF fin] obtain ps where
    ps: "prove_transaction_plans env (fplan # map snd built) (ur_verify_proof request) = Inr ps"
    and out: "up_chunks plan = map ptp_chunk ps" "up_broadcaster_fee_note plan = Some (fo_broadcaster_fee_note fouts)"
      "up_unshield_notes plan = map (\<lambda>p. uo_unshield_note (fst p)) built" by blast
  note s = separate_plan_sound [OF fs fo sel al built, simplified comp_def map_map fst_conv snd_conv,
      OF ps conjunct2 [OF different_token_fee(1) [OF fee]] wallet]
  show "txs_sound env viewing forest utxos ?t (Some fee) (up_chunks plan)"
    "pays layout None (ur_amount request) (ur_spend_up_to request) (tl (up_chunks plan)) (up_unshield_notes plan)"
    "fee_note_in (env_hash env) (Some fee) (tpc_outputs (hd (up_chunks plan))) (up_broadcaster_fee_note plan)"
    using s by (simp_all only: out)
qed

lemma send_separate:
  assumes plan: "build_send_plan_with_signer env builder viewing forest utxos request d = Inr plan"
    and fee: "sr_different_token_broadcaster_fee request = Some fee"
    and wallet: "mf_inv (env_hash env) forest" "distinct (map utxo_key utxos)" "nat_sum utxos < 2 ^ 256" "local_positions utxos"
  defines "layout \<equiv> send_layout (env_hash env) (address_data viewing) (sr_token_address request) (sr_recipient request)"
  shows "txs_sound env viewing forest utxos (sr_token_address request) (Some fee) (sdp_chunks plan)"
    "pays layout None (sr_amount request) (sr_spend_up_to request) (tl (sdp_chunks plan)) (sdp_recipient_notes plan)"
    "fee_note_in (env_hash env) (Some fee) (tpc_outputs (hd (sdp_chunks plan))) (sdp_broadcaster_fee_note plan)"
proof -
  let ?t = "sr_token_address request" let ?m = "MAX_BATCH_TRANSACTIONS - 1"
  from plan fee obtain fs b fouts fplan st as built st' where
    fs: "select_fee_utxos utxos (bf_token_address fee) (bf_amount fee) = Inr fs"
    and sel: "select_batched_utxos_with_limit utxos ?t (sr_amount request) (sr_spend_up_to request) 1 1 ?m = Inr b"
    and fo: "fee_only_chunk env builder viewing forest fee (sr_min_gas_price request) fs (build_start d) = Inr ((fouts, fplan), st)"
    and al: "spend_allocations b (sr_amount request) 0 None (sr_spend_up_to request) = Inr as"
    and loop: "send_loop env builder viewing forest request (zip (bs_chunks b) as) st = Inr (built, st')"
    and fin: "finish_send env builder (fplan # map snd built) (sr_verify_proof request)
       (Some (fo_broadcaster_fee_note fouts)) (map (\<lambda>p. so_recipient_note (fst p)) built)
       (last_note (fo_change_note fouts) (map (\<lambda>p. so_change_note (fst p)) built)) = Inr plan"
    by (auto simp: build_send_plan_with_signer_def build_send_batch_with_separate_fee_token_def)
  have m: "0 < ?m" by (simp add: MAX_BATCH_TRANSACTIONS_def)
  note fsel = select_fee_Inr [OF fs wallet(3,2)]
  note st = fee_only_chunk_sound(2) [OF fo wallet(1) cache_ok_start fsel(1,2)]
  have ready: "list_all (chunk_ready ?t) (zip (bs_chunks b) as)"
    by (rule allocated_ready [OF sel m _ _ wallet(2,3), of _ None]) (use al in simp_all)
  note built = send_loop_sound [OF loop wallet(1) st ready, folded layout_def]
  from finish_send_Inr [OF fin] obtain ps where
    ps: "prove_transaction_plans env (fplan # map snd built) (sr_verify_proof request) = Inr ps"
    and out: "sdp_chunks plan = map ptp_chunk ps" "sdp_broadcaster_fee_note plan = Some (fo_broadcaster_fee_note fouts)"
      "sdp_recipient_notes plan = map (\<lambda>p. so_recipient_note (fst p)) built" by blast
  note s = separate_plan_sound [OF fs fo sel al built, simplified comp_def map_map fst_conv snd_conv,
      OF ps conjunct2 [OF different_token_fee(2) [OF fee]] wallet]
  show "txs_sound env viewing forest utxos ?t (Some fee) (sdp_chunks plan)"
    "pays layout None (sr_amount request) (sr_spend_up_to request) (tl (sdp_chunks plan)) (sdp_recipient_notes plan)"
    "fee_note_in (env_hash env) (Some fee) (tpc_outputs (hd (sdp_chunks plan))) (sdp_broadcaster_fee_note plan)"
    using s by (simp_all only: out)
qed



end
