(* ===== verification/PlanLive.thy ===== *)
theory PlanLive
  imports PlanBatch
begin

text \<open>
  When \<open>build_unshield_plan_with_signer\<close> and \<open>build_send_plan_with_signer\<close> return a plan: a selected
  batch never fails the checks of \<open>TransactionPlanBuilder\<close> (mixed trees or tokens, too many inputs, the
  signature limit), so what is left are the conditions on the forest, the gas price, the amount, the
  encryption and the prover that the theorems name.
\<close>

section \<open>Single steps\<close>

text \<open>The encryption of notes to the recipients \<open>rs\<close> does not fail.\<close>

definition encrypts :: "'p env \<Rightarrow> viewing_key_data \<Rightarrow> address_data set \<Rightarrow> bool" where
  "encrypts env viewing rs \<longleftrightarrow>
     (\<forall>d n r. r \<in> rs \<longrightarrow> (\<exists>c. try_from_note (env_aes env) (env_curve env) (env_iv env (d + 2)) (env_rand env (d + 1) 15)
        n (address_data viewing) r (vk_viewing_private_key viewing) = Inr c))"

definition fee_recipients :: "broadcaster_fee_output option \<Rightarrow> address_data set" where
  "fee_recipients fee = (case fee of None \<Rightarrow> {} | Some f \<Rightarrow> {bf_recipient f})"

definition proves :: "'p env \<Rightarrow> bool" where
  "proves env \<longleftrightarrow> (\<forall>pub priv sig verify. env_prove env pub priv sig verify \<noteq> None)"

text \<open>The forest has the trees of all notes.\<close>

definition trees_known :: "merkle_forest \<Rightarrow> utxo list \<Rightarrow> bool" where
  "trees_known forest utxos \<longleftrightarrow> list_all (\<lambda>u. contains_tree forest (utxo_tree u)) utxos"

lemma private_note_ok:
  assumes "encrypts env viewing rs" "r \<in> rs"
  shows "\<exists>x. private_note env d (address_data viewing) r token amount (vk_viewing_private_key viewing) = Inr x"
proof -
  obtain c where "try_from_note (env_aes env) (env_curve env) (env_iv env (d + 2)) (env_rand env (d + 1) 15)
      (new_change (env_hash env) (ad_master_public_key r) token amount (env_rand env d 16)) (address_data viewing) r
      (vk_viewing_private_key viewing) = Inr c" using assms unfolding encrypts_def by blast
  then show ?thesis by (simp add: private_note_def Let_def)
qed

lemma push_fee_ok:
  assumes "encrypts env viewing rs" "fee_recipients fee \<subseteq> rs"
  shows "\<exists>x. push_broadcaster_fee_output env d outs cts (address_data viewing) fee (vk_viewing_private_key viewing) = Inr x"
proof (cases fee)
  case (Some f)
  with assms(2) have "bf_recipient f \<in> rs" by (simp add: fee_recipients_def)
  then obtain n c d' where "private_note env d (address_data viewing) (bf_recipient f) (bf_token_address f) (bf_amount f)
      (vk_viewing_private_key viewing) = Inr ((n, c), d')"
    using private_note_ok [OF assms(1)] by (metis prod.exhaust)
  then show ?thesis by (simp add: Some push_broadcaster_fee_output_def)
qed (simp add: push_broadcaster_fee_output_def)

lemma push_change_ok:
  assumes "encrypts env viewing rs" "address_data viewing \<in> rs"
  shows "\<exists>x. push_change_output env d outs cts (address_data viewing) token change (vk_viewing_private_key viewing) = Inr x"
proof -
  obtain n c d' where "private_note env d (address_data viewing) (address_data viewing) token change
      (vk_viewing_private_key viewing) = Inr ((n, c), d')"
    using private_note_ok [OF assms] by (metis prod.exhaust)
  then show ?thesis by (cases "change = 0") (simp_all add: push_change_output_def)
qed

lemma unshield_outputs_ok:
  assumes "encrypts env viewing rs" "fee_recipients fee \<subseteq> rs" "address_data viewing \<in> rs"
  shows "\<exists>outs d'. build_unshield_outputs env d token amount to change (address_data viewing) fee (vk_viewing_private_key viewing) = Inr (outs, d')"
proof -
  obtain o1 c1 fn d1 where fee: "push_broadcaster_fee_output env d [] [] (address_data viewing) fee (vk_viewing_private_key viewing) =
      Inr ((o1, c1, fn), d1)" using push_fee_ok [OF assms(1,2)] by (metis prod.exhaust)
  obtain o2 c2 cn d2 where "push_change_output env d1 o1 c1 (address_data viewing) token change (vk_viewing_private_key viewing) =
      Inr ((o2, c2, cn), d2)" using push_change_ok [OF assms(1,3)] by (metis prod.exhaust)
  with fee show ?thesis by (simp add: build_unshield_outputs_def Let_def)
qed

lemma send_outputs_ok:
  assumes "encrypts env viewing rs" "fee_recipients fee \<subseteq> rs" "address_data viewing \<in> rs" "recipient \<in> rs"
  shows "\<exists>outs d'. build_send_outputs env d token amount change (address_data viewing) recipient fee (vk_viewing_private_key viewing) = Inr (outs, d')"
proof -
  obtain o1 c1 fn d1 where fee: "push_broadcaster_fee_output env d [] [] (address_data viewing) fee (vk_viewing_private_key viewing) =
      Inr ((o1, c1, fn), d1)" using push_fee_ok [OF assms(1,2)] by (metis prod.exhaust)
  obtain n c d2 where n: "private_note env d1 (address_data viewing) recipient token amount (vk_viewing_private_key viewing) = Inr ((n, c), d2)"
    using private_note_ok [OF assms(1,4)] by (metis prod.exhaust)
  obtain o2 c2 cn d3 where "push_change_output env d2 (o1 @ [n]) (c1 @ [c]) (address_data viewing) token change (vk_viewing_private_key viewing) =
      Inr ((o2, c2, cn), d3)" using push_change_ok [OF assms(1,3)] by (metis prod.exhaust)
  with fee n show ?thesis by (simp add: build_send_outputs_def)
qed

text \<open>The number of outputs of a transaction.\<close>

lemma length_fee_notes: "fee_notes hash fee fs \<Longrightarrow> length fs = (if fee \<noteq> None then 1 else 0)"
  by (auto simp: fee_notes_def split: option.splits)

lemma length_change_notes: "change_notes hash owner token change cs \<Longrightarrow> length cs = (if change \<noteq> 0 then 1 else 0)"
  by (auto simp: change_notes_def split: if_splits)

lemma length_unshield_outputs:
  assumes "build_unshield_outputs env d token amount to change receiver fee key = Inr (outs, d')"
  shows "length (uo_outputs outs) = 1 + (if fee \<noteq> None then 1 else 0) + (if change \<noteq> 0 then 1 else 0)"
proof -
  obtain fs cs where o: "uo_outputs outs = fs @ cs @ [new_unshield to token amount]"
    "fee_notes (env_hash env) fee fs" "change_notes (env_hash env) receiver token change cs"
    using unshield_outputs_Inr [OF assms] by blast
  from length_fee_notes [OF o(2)] length_change_notes [OF o(3)] show ?thesis by (simp add: o(1))
qed

lemma length_send_outputs:
  assumes "build_send_outputs env d token amount change sender recipient fee key = Inr (outs, d')"
  shows "length (so_outputs outs) = 1 + (if fee \<noteq> None then 1 else 0) + (if change \<noteq> 0 then 1 else 0)"
proof -
  obtain fs n cs where o: "so_outputs outs = fs @ [n] @ cs"
    "fee_notes (env_hash env) fee fs" "change_notes (env_hash env) sender token change cs"
    using send_outputs_Inr [OF assms] by blast
  from length_fee_notes [OF o(2)] length_change_notes [OF o(3)] show ?thesis by (simp add: o(1))
qed

lemma map_result_ok: "\<forall>x \<in> set xs. \<exists>y. f x = Inr y \<Longrightarrow> \<exists>ys. map_result f xs = Inr ys"
  by (induction xs) fastforce+

lemma witnesses_ok:
  assumes "mf_inv hash forest" "cache_ok hash forest cache" "trees_known forest utxos" "local_positions utxos"
    "set us \<subseteq> set utxos"
  shows "\<exists>ws cache'. cached_witnesses hash forest us cache = Inr (ws, cache')"
proof -
  have "\<exists>w. forest_witness hash forest u = Inr w" if "u \<in> set us" for u
  proof -
    have "utxo_position u < TREE_LEAF_COUNT" "contains_tree forest (utxo_tree u)"
      using that assms(3-5) by (auto simp: trees_known_def local_positions_def list_all_iff)
    then have "forest_prove hash forest (utxo_tree u) (utxo_position u) \<noteq> None"
      using forest_prove_None [OF normalize_local] by blast
    then show ?thesis by (auto simp: forest_witness_def)
  qed
  then obtain ws where ws: "map_result (forest_witness hash forest) us = Inr ws"
    using map_result_ok [of us "forest_witness hash forest"] by metis
  show ?thesis
  proof (cases "cached_witnesses hash forest us cache")
    case (Inl e)
    with cached_witnesses_forest [OF assms(1,2), of us] ws show ?thesis by simp
  next
    case (Inr p)
    then show ?thesis by (cases p) simp
  qed
qed

lemma build_unproven_ok:
  assumes "mf_inv (env_hash env) (tpb_forest b)" "cache_ok (env_hash env) (tpb_forest b) cache"
    and "trees_known (tpb_forest b) utxos" "local_positions utxos" "set (tpb_inputs b) \<subseteq> set utxos" "tpb_inputs b \<noteq> []"
    and "2 + length (tpb_inputs b) + length outs \<le> MAX_SIGNATURE_INPUTS" "unat gas < 2 ^ 72"
    and "unshield = None \<or> unat (note_value (fst (the unshield))) < 2 ^ 120"
  shows "\<exists>plan cache'. build_unproven env b token gas unshield outs cts cache = Inr (plan, cache')"
proof -
  obtain ws cache' where ws: "cached_witnesses (env_hash env) (tpb_forest b) (tpb_inputs b) cache = Inr (ws, cache')"
    using witnesses_ok [OF assms(1-5)] by blast
  have "map iw_utxo ws = tpb_inputs b"
    using cached_witnesses_forest [OF assms(1,2), of "tpb_inputs b"] ws map_witness_Inr(1) by auto
  then have ne: "ws \<noteq> []" using assms(6) by auto
  have lim: "validate_signature_limit b (length outs) = Inr ()" using assms(7) by (simp add: validate_signature_limit_def)
  have root: "build_input_witnesses_and_root env b (Some cache) = Inr (ws, mp_root (iw_merkle_proof (hd ws)), Some cache')"
    using ws ne by (simp add: witnesses_and_root_Inr)
  have gas: "with_min_gas_price bp gas = Inr (bp\<lparr>bp_min_gas_price := ucast gas\<rparr>)" for bp
    using assms(8) by (simp add: with_min_gas_price_def)
  have "\<exists>p. (case unshield of None \<Rightarrow> Inr preimage_empty | Some (n, token) \<Rightarrow> ok_or (preimage_new_unshield n token) Panicked) = Inr p"
    using assms(9) by (cases unshield) (auto simp: preimage_new_unshield_def)
  then obtain p where p: "(case unshield of None \<Rightarrow> Inr preimage_empty | Some (n, token) \<Rightarrow> ok_or (preimage_new_unshield n token) Panicked) = Inr p" ..
  show ?thesis unfolding build_unproven_def Let_def lim root gas p by (simp add: lift_build_def bind_result_def)
qed

section \<open>Chunks\<close>

text \<open>What selection and allocation guarantee for a chunk and its allocation.\<close>

definition chunk_payable :: "utxo list \<Rightarrow> address \<Rightarrow> utxo_selection \<Rightarrow> spend_allocation \<Rightarrow> bool" where
  "chunk_payable utxos token c a \<longleftrightarrow>
     sel_utxos c \<noteq> [] \<and> length (sel_utxos c) \<le> MAX_CIRCUIT_INPUTS \<and>
     (\<exists>n. \<forall>u \<in> set (sel_utxos c). utxo_tree u = n \<and> eligible token u) \<and> set (sel_utxos c) \<subseteq> set utxos \<and>
     fits (1 + (if sa_fee a \<noteq> None then 1 else 0)) c a"

lemma builder_ok:
  assumes "chunk_payable utxos token c a"
  shows "tpb_new builder viewing forest (sel_utxos c) token =
    Inr \<lparr>tpb_builder = builder, tpb_viewing = viewing, tpb_forest = forest, tpb_inputs = sel_utxos c, tpb_token_address = token\<rparr>"
proof -
  obtain n where n: "\<forall>u \<in> set (sel_utxos c). utxo_tree u = n \<and> eligible token u" and ne: "sel_utxos c \<noteq> []"
    and len: "length (sel_utxos c) \<le> MAX_CIRCUIT_INPUTS" using assms by (auto simp: chunk_payable_def)
  have "utxo_tree (sel_utxos c ! 0) = n" using n ne by (simp add: nth_mem)
  then have "\<not> list_ex (\<lambda>u. utxo_tree u \<noteq> utxo_tree (sel_utxos c ! 0)) (sel_utxos c)"
    "\<not> list_ex (\<lambda>u. note_token_hash (utxo_note u) \<noteq> u256_from_be_slice (address_bytes token)) (sel_utxos c)"
    using n by (auto simp: list_ex_iff eligible_def token_hash_of_def)
  with ne len show ?thesis by (simp add: tpb_new_def)
qed

lemma unshield_chunk_ok:
  assumes "mf_inv (env_hash env) forest" "cache_ok (env_hash env) forest (bst_cache st)"
    and "trees_known forest utxos" "local_positions utxos" "chunk_payable utxos (ur_token_address request) c a"
    and "unat (ur_min_gas_price request) < 2 ^ 72" "unat (sa_amount a) < 2 ^ 120"
    and "encrypts env viewing rs" "fee_recipients (sa_fee a) \<subseteq> rs" "address_data viewing \<in> rs"
  shows "\<exists>y st'. unshield_chunk env builder viewing forest request c (sa_amount a) (sa_change a) (sa_fee a) st = Inr (y, st') \<and>
    cache_ok (env_hash env) forest (bst_cache st')"
proof -
  let ?t = "ur_token_address request"
  let ?b = "\<lparr>tpb_builder = builder, tpb_viewing = viewing, tpb_forest = forest, tpb_inputs = sel_utxos c, tpb_token_address = ?t\<rparr>"
  obtain outs d' where outs: "build_unshield_outputs env (bst_draws st) ?t (sa_amount a) (ur_recipient request) (sa_change a)
      (address_data viewing) (sa_fee a) (vk_viewing_private_key viewing) = Inr (outs, d')"
    using unshield_outputs_ok [OF assms(8-10)] by blast
  have un: "uo_unshield_note outs = new_unshield (ur_recipient request) ?t (sa_amount a)" using unshield_outputs_Inr [OF outs] by blast
  have "\<exists>plan cache'. build_unproven env ?b ?t (ur_min_gas_price request) (Some (uo_unshield_note outs, ?t)) (uo_outputs outs)
      (uo_commitment_ciphertext outs) (bst_cache st) = Inr (plan, cache')"
    by (rule build_unproven_ok [where utxos = utxos])
      (use assms length_unshield_outputs [OF outs] in \<open>auto simp: chunk_payable_def fits_def un new_unshield_def\<close>)
  then obtain plan cache' where plan: "build_unproven env ?b ?t (ur_min_gas_price request) (Some (uo_unshield_note outs, ?t))
      (uo_outputs outs) (uo_commitment_ciphertext outs) (bst_cache st) = Inr (plan, cache')" by blast
  have "cache_ok (env_hash env) forest cache'" using build_unproven_sound(2) [OF plan] assms(1,2) by simp
  with outs plan builder_ok [OF assms(5), of builder viewing forest] show ?thesis
    by (simp add: unshield_chunk_def build_unproven_unshield_def lift_build_def)
qed

lemma send_chunk_ok:
  assumes "mf_inv (env_hash env) forest" "cache_ok (env_hash env) forest (bst_cache st)"
    and "trees_known forest utxos" "local_positions utxos" "chunk_payable utxos (sr_token_address request) c a"
    and "unat (sr_min_gas_price request) < 2 ^ 72"
    and "encrypts env viewing rs" "fee_recipients (sa_fee a) \<subseteq> rs" "address_data viewing \<in> rs" "sr_recipient request \<in> rs"
  shows "\<exists>y st'. send_chunk env builder viewing forest request c (sa_amount a) (sa_change a) (sa_fee a) st = Inr (y, st') \<and>
    cache_ok (env_hash env) forest (bst_cache st')"
proof -
  let ?t = "sr_token_address request"
  let ?b = "\<lparr>tpb_builder = builder, tpb_viewing = viewing, tpb_forest = forest, tpb_inputs = sel_utxos c, tpb_token_address = ?t\<rparr>"
  obtain outs d' where outs: "build_send_outputs env (bst_draws st) ?t (sa_amount a) (sa_change a)
      (address_data viewing) (sr_recipient request) (sa_fee a) (vk_viewing_private_key viewing) = Inr (outs, d')"
    using send_outputs_ok [OF assms(7-10)] by blast
  have "\<exists>plan cache'. build_unproven env ?b ?t (sr_min_gas_price request) None (so_outputs outs)
      (so_commitment_ciphertext outs) (bst_cache st) = Inr (plan, cache')"
    by (rule build_unproven_ok [where utxos = utxos])
      (use assms length_send_outputs [OF outs] in \<open>auto simp: chunk_payable_def fits_def\<close>)
  then obtain plan cache' where plan: "build_unproven env ?b ?t (sr_min_gas_price request) None (so_outputs outs)
      (so_commitment_ciphertext outs) (bst_cache st) = Inr (plan, cache')" by blast
  have "cache_ok (env_hash env) forest cache'" using build_unproven_sound(2) [OF plan] assms(1,2) by simp
  with outs plan builder_ok [OF assms(5), of builder viewing forest] show ?thesis
    by (simp add: send_chunk_def build_unproven_send_def lift_build_def)
qed

lemma map_state_ok:
  assumes "\<And>x s. x \<in> set xs \<Longrightarrow> I s \<Longrightarrow> \<exists>y s'. f x s = Inr (y, s') \<and> I s'" "I s"
  shows "\<exists>ys s'. map_state f xs s = Inr (ys, s') \<and> length ys = length xs"
  using assms
proof (induction xs arbitrary: s)
  case (Cons x xs)
  obtain y s1 where y: "f x s = Inr (y, s1)" "I s1" using Cons.prems by (meson list.set_intros(1))
  have "\<exists>ys s'. map_state f xs s1 = Inr (ys, s') \<and> length ys = length xs"
    by (rule Cons.IH) (use Cons.prems(1) y(2) in auto)
  then obtain ys s' where "map_state f xs s1 = Inr (ys, s')" "length ys = length xs" by blast
  with y show ?case by simp
qed simp

lemma prove_ok: "proves env \<Longrightarrow> \<exists>ps. prove_transaction_plans env plans verify = Inr ps \<and> length ps = length plans"
proof -
  assume p: "proves env"
  have "\<exists>y. prove_transaction_plan env verify plan = Inr y" for plan
  proof -
    let ?pub = "public_inputs_from_transaction env (utp_merkle_root plan) (utp_transaction plan) (utp_outputs plan)"
    obtain proof' where "env_prove env ?pub (utp_private_inputs plan) (public_inputs_signature env ?pub) verify = Some proof'"
      using p unfolding proves_def by blast
    then show ?thesis by (simp add: prove_transaction_plan_def Let_def)
  qed
  then obtain ps where ps: "prove_transaction_plans env plans verify = Inr ps"
    using map_result_ok [of plans "prove_transaction_plan env verify"] unfolding prove_transaction_plans_def by metis
  with map_result_Inr [OF ps [unfolded prove_transaction_plans_def]] show ?thesis by blast
qed

lemma finish_unshield_ok:
  assumes "proves env" "plans \<noteq> []" "ns \<noteq> []"
  shows "\<exists>plan. finish_unshield env builder plans verify fn ns cn = Inr plan"
proof -
  obtain ps where "prove_transaction_plans env plans verify = Inr ps" "length ps = length plans" using prove_ok [OF assms(1)] by blast
  with assms(2,3) show ?thesis by (cases ps; cases ns) (auto simp: finish_unshield_def lift_build_def expect_first_def Let_def)
qed

lemma finish_send_ok:
  assumes "proves env" "plans \<noteq> []" "ns \<noteq> []"
  shows "\<exists>plan. finish_send env builder plans verify fn ns cn = Inr plan"
proof -
  obtain ps where "prove_transaction_plans env plans verify = Inr ps" "length ps = length plans" using prove_ok [OF assms(1)] by blast
  with assms(2,3) show ?thesis by (cases ps; cases ns) (auto simp: finish_send_def lift_build_def expect_first_def Let_def)
qed

section \<open>Plans\<close>

lemma allocated_payable:
  assumes b: "batch_or_max utxos token (amount + fee_value fee) up_to (1 + (if fee \<noteq> None then 1 else 0)) 1 m b"
    and wallet: "distinct (map utxo_key utxos)" "nat_sum utxos < 2 ^ 256" and sum: "unat amount + unat (fee_value fee) < 2 ^ 256"
    and al: "spend_allocations b amount (fee_value fee) fee up_to = Inr as" and x: "(c, a) \<in> set (zip (bs_chunks b) as)"
  shows "chunk_payable utxos token c a" "unat (sa_amount a) \<le> unat amount" "fee_recipients (sa_fee a) \<subseteq> fee_recipients fee"
proof -
  from x obtain i where i: "i < length (bs_chunks b)" "i < length as" and eq: "c = bs_chunks b ! i" "a = as ! i"
    by (auto simp: in_set_zip)
  note alloc = spend_allocations_Inr [OF al] and sp = batch_or_max_spendable(1) [OF b wallet]
  have fee: "sa_fee a = alloc_fee fee i" using alloc(2) i eq by simp
  have "fits (1 + (if sa_fee a \<noteq> None then 1 else 0)) c a"
    using all_fit_nth [OF spend_allocations_fit [OF b wallet sum al] i(1)] fee unfolding eq by (auto simp: alloc_fee_def split: if_splits)
  moreover have "c \<in> set (bs_chunks b)" using i eq by simp
  then have "set (sel_utxos c) \<subseteq> set utxos" using sp by (auto simp: spendable_batch_def chunk_inputs_def)
  ultimately show "chunk_payable utxos token c a"
    using sp i(1) unfolding chunk_payable_def spendable_batch_def Let_def eq by blast
  have "unat (sa_amount a) \<le> paid as" using i eq by (auto simp: paid_def intro!: member_le_sum_list)
  also have "\<dots> \<le> unat amount" using alloc(5) by (auto split: if_splits)
  finally show "unat (sa_amount a) \<le> unat amount" .
  show "fee_recipients (sa_fee a) \<subseteq> fee_recipients fee" by (simp add: fee alloc_fee_def fee_recipients_def)
qed

lemma base_output_counts:
  "ur_base_output_count ur = 1 + (if ur_same_token_broadcaster_fee ur \<noteq> None then 1 else 0)"
  "sr_base_output_count sr = 1 + (if sr_same_token_broadcaster_fee sr \<noteq> None then 1 else 0)"
  by (simp_all add: ur_base_output_count_def sr_base_output_count_def)

text \<open>
  Claim C24. An unshield whose amount is positive and below \<open>2 ^ 120\<close>, with the fee in the same token
  or none, gives a plan as soon as the notes can be selected, the first chunk of the selection is
  worth more than the fee, the forest has the trees of the wallet, the gas price fits 72 bits, and
  neither the encryption nor the prover fails: none of the other checks of the builder can fail.
\<close>

theorem unshield_plan_builds:
  assumes "forest_reachable (env_hash env) forest" "distinct (map utxo_key utxos)" "nat_sum utxos < 2 ^ 256" "local_positions utxos"
    and "trees_known forest utxos"
    and "encrypts env viewing (insert (address_data viewing) (fee_recipients (ur_broadcaster_fee request)))" "proves env"
    and "ur_different_token_broadcaster_fee request = None" "ur_amount request \<noteq> 0" "unat (ur_amount request) < 2 ^ 120"
    and "unat (ur_amount request) + unat (ur_fee_amount request) < 2 ^ 256" "unat (ur_min_gas_price request) < 2 ^ 72"
    and "select_batched_utxos utxos (ur_token_address request) (ur_target_amount request) (ur_spend_up_to request)
      (ur_base_output_count request) 1 = Inr b" "ur_fee_amount request < sel_total (hd (bs_chunks b))"
  shows "\<exists>plan. build_unshield_plan_with_signer env builder viewing forest utxos request d = Inr plan"
proof -
  let ?t = "ur_token_address request" let ?f = "ur_same_token_broadcaster_fee request" let ?h = "env_hash env"
  let ?rs = "insert (address_data viewing) (fee_recipients ?f)"
  note inv = forest_reachable_inv [OF assms(1)] and f = same_token_fee(1) [OF assms(8)] and wallet = assms(2,3)
  have b: "batch_or_max utxos ?t (ur_amount request + fee_value ?f) (ur_spend_up_to request)
      (1 + (if ?f \<noteq> None then 1 else 0)) 1 MAX_BATCH_TRANSACTIONS b"
    using selected_batch [OF assms(13) [unfolded select_batched_utxos_def] assms(2)]
    by (simp add: base_output_counts ur_target_amount_def fee_amount_value MAX_BATCH_TRANSACTIONS_def)
  have sum: "unat (ur_amount request) + unat (fee_value ?f) < 2 ^ 256" using assms(11) by (simp add: fee_amount_value)
  obtain as where al: "spend_allocations b (ur_amount request) (fee_value ?f) ?f (ur_spend_up_to request) = Inr as"
    using spend_allocations_selected [OF b wallet assms(9) sum] assms(14) by (auto simp: fee_amount_value)
  have ne: "bs_chunks b \<noteq> []" by (rule batch_or_max_chunks(2) [OF b])
  have len: "length as = length (bs_chunks b)" using spend_allocations_Inr(1) [OF al] by (simp add: list_all2_lengthD)
  have "\<exists>built st. unshield_loop env builder viewing forest request (zip (bs_chunks b) as) (build_start d) = Inr (built, st) \<and>
      length built = length (zip (bs_chunks b) as)"
    unfolding unshield_loop_def
  proof (rule map_state_ok [where I = "\<lambda>s. cache_ok ?h forest (bst_cache s)"])
    fix x and s :: build_state assume x: "x \<in> set (zip (bs_chunks b) as)" and I: "cache_ok ?h forest (bst_cache s)"
    obtain c a where eq: "x = (c, a)" by (cases x)
    note pay = allocated_payable [OF b wallet sum al x [unfolded eq]]
    have "\<exists>y s'. unshield_chunk env builder viewing forest request c (sa_amount a) (sa_change a) (sa_fee a) s = Inr (y, s') \<and>
        cache_ok ?h forest (bst_cache s')"
      by (rule unshield_chunk_ok [OF inv I assms(5,4) pay(1) assms(12), where rs = ?rs]) (use pay(2,3) assms(6,10) f in auto)
    then show "\<exists>y s'. (case x of (chunk, a) \<Rightarrow> unshield_chunk env builder viewing forest request chunk (sa_amount a)
        (sa_change a) (sa_fee a)) s = Inr (y, s') \<and> cache_ok ?h forest (bst_cache s')" by (simp add: eq)
  qed simp
  then obtain built st where loop: "unshield_loop env builder viewing forest request (zip (bs_chunks b) as) (build_start d) = Inr (built, st)"
    and "built \<noteq> []" using ne len by fastforce
  then obtain plan where "finish_unshield env builder (map snd built) (ur_verify_proof request)
      (first_note (map (\<lambda>p. uo_broadcaster_fee_note (fst p)) built)) (map (\<lambda>p. uo_unshield_note (fst p)) built)
      (last_note None (map (\<lambda>p. uo_change_note (fst p)) built)) = Inr plan" using finish_unshield_ok [OF assms(7)] by fastforce
  with assms(8,13) al loop show ?thesis
    by (simp add: build_unshield_plan_with_signer_def build_unshield_batch_with_signer_def lift_build_def fee_amount_value)
qed

text \<open>
  Claim C25. The same for a send, whose amount has no bound of its own.
\<close>

theorem send_plan_builds:
  assumes "forest_reachable (env_hash env) forest" "distinct (map utxo_key utxos)" "nat_sum utxos < 2 ^ 256" "local_positions utxos"
    and "trees_known forest utxos"
    and "encrypts env viewing (insert (address_data viewing) (insert (sr_recipient request) (fee_recipients (sr_broadcaster_fee request))))" "proves env"
    and "sr_different_token_broadcaster_fee request = None" "sr_amount request \<noteq> 0"
    and "unat (sr_amount request) + unat (sr_fee_amount request) < 2 ^ 256" "unat (sr_min_gas_price request) < 2 ^ 72"
    and "select_batched_utxos utxos (sr_token_address request) (sr_target_amount request) (sr_spend_up_to request)
      (sr_base_output_count request) 1 = Inr b" "sr_fee_amount request < sel_total (hd (bs_chunks b))"
  shows "\<exists>plan. build_send_plan_with_signer env builder viewing forest utxos request d = Inr plan"
proof -
  let ?t = "sr_token_address request" let ?f = "sr_same_token_broadcaster_fee request" let ?h = "env_hash env"
  let ?rs = "insert (address_data viewing) (insert (sr_recipient request) (fee_recipients ?f))"
  note inv = forest_reachable_inv [OF assms(1)] and f = same_token_fee(2) [OF assms(8)] and wallet = assms(2,3)
  have b: "batch_or_max utxos ?t (sr_amount request + fee_value ?f) (sr_spend_up_to request)
      (1 + (if ?f \<noteq> None then 1 else 0)) 1 MAX_BATCH_TRANSACTIONS b"
    using selected_batch [OF assms(12) [unfolded select_batched_utxos_def] assms(2)]
    by (simp add: base_output_counts sr_target_amount_def fee_amount_value MAX_BATCH_TRANSACTIONS_def)
  have sum: "unat (sr_amount request) + unat (fee_value ?f) < 2 ^ 256" using assms(10) by (simp add: fee_amount_value)
  obtain as where al: "spend_allocations b (sr_amount request) (fee_value ?f) ?f (sr_spend_up_to request) = Inr as"
    using spend_allocations_selected [OF b wallet assms(9) sum] assms(13) by (auto simp: fee_amount_value)
  have ne: "bs_chunks b \<noteq> []" by (rule batch_or_max_chunks(2) [OF b])
  have len: "length as = length (bs_chunks b)" using spend_allocations_Inr(1) [OF al] by (simp add: list_all2_lengthD)
  have "\<exists>built st. send_loop env builder viewing forest request (zip (bs_chunks b) as) (build_start d) = Inr (built, st) \<and>
      length built = length (zip (bs_chunks b) as)"
    unfolding send_loop_def
  proof (rule map_state_ok [where I = "\<lambda>s. cache_ok ?h forest (bst_cache s)"])
    fix x and s :: build_state assume x: "x \<in> set (zip (bs_chunks b) as)" and I: "cache_ok ?h forest (bst_cache s)"
    obtain c a where eq: "x = (c, a)" by (cases x)
    note pay = allocated_payable [OF b wallet sum al x [unfolded eq]]
    have "\<exists>y s'. send_chunk env builder viewing forest request c (sa_amount a) (sa_change a) (sa_fee a) s = Inr (y, s') \<and>
        cache_ok ?h forest (bst_cache s')"
      by (rule send_chunk_ok [OF inv I assms(5,4) pay(1) assms(11), where rs = ?rs]) (use pay(2,3) assms(6) f in auto)
    then show "\<exists>y s'. (case x of (chunk, a) \<Rightarrow> send_chunk env builder viewing forest request chunk (sa_amount a)
        (sa_change a) (sa_fee a)) s = Inr (y, s') \<and> cache_ok ?h forest (bst_cache s')" by (simp add: eq)
  qed simp
  then obtain built st where loop: "send_loop env builder viewing forest request (zip (bs_chunks b) as) (build_start d) = Inr (built, st)"
    and "built \<noteq> []" using ne len by fastforce
  then obtain plan where "finish_send env builder (map snd built) (sr_verify_proof request)
      (first_note (map (\<lambda>p. so_broadcaster_fee_note (fst p)) built)) (map (\<lambda>p. so_recipient_note (fst p)) built)
      (last_note None (map (\<lambda>p. so_change_note (fst p)) built)) = Inr plan" using finish_send_ok [OF assms(7)] by fastforce
  with assms(8,12) al loop show ?thesis
    by (simp add: build_send_plan_with_signer_def build_send_batch_with_signer_def lift_build_def fee_amount_value)
qed

section \<open>A wallet with one note\<close>

definition sample_env :: "256 word env" where
  "sample_env =
     \<lparr>env_hash = sum_list, env_aes = clear_aead, env_curve = word_curve,
      env_abi = \<lparr>abi_keccak256 = (\<lambda>bs. word_of_nat (length bs)), abi_bound_params = (\<lambda>_. []), abi_token_data = (\<lambda>_. []),
        abi_adapt_params = (\<lambda>_. []), abi_call = (\<lambda>_. []), abi_decode_execute = (\<lambda>_. None)\<rparr>,
      env_rand = (\<lambda>d n. replicate n (word_of_nat d)), env_iv = (\<lambda>d. Some (replicate 16 (word_of_nat d))),
      env_spending_public_key = (3, 4), env_sign_spend_message = (\<lambda>m. (m, 0, 0)),
      env_prove = (\<lambda>_ _ _ _. Some default_snark_proof)\<rparr>"

definition sample_forest :: merkle_forest where
  "sample_forest = fst (insert_leaf forest_new \<lparr>upd_tree_number = 0, upd_tree_position = 0, upd_hash = 12\<rparr>)"

definition sample_builder :: transaction_builder where
  "sample_builder = \<lparr>tb_chain_type = 0, tb_chain_id = 1, tb_railgun_contract = 4\<rparr>"

definition sample_unshield :: unshield_request where
  "sample_unshield =
     \<lparr>ur_token_address = 9, ur_amount = 5, ur_recipient = 77, ur_verify_proof = True, ur_spend_up_to = False,
      ur_broadcaster_fee = None, ur_min_gas_price = 0\<rparr>"

definition sample_send :: send_request where
  "sample_send =
     \<lparr>sr_token_address = 9, sr_amount = 5, sr_recipient = address_data (sample_keys [2] 22), sr_verify_proof = True,
      sr_spend_up_to = False, sr_broadcaster_fee = None, sr_min_gas_price = 0\<rparr>"

definition one_note_batch :: batch_utxo_selection where
  "one_note_batch = \<lparr>bs_chunks = [\<lparr>sel_utxos = [sample_utxo 9 0 0 5], sel_total = 5\<rparr>], bs_total = 5\<rparr>"

lemma one_note_selection: "select_batched_utxos [sample_utxo 9 0 0 5] 9 5 False 1 1 = Inr one_note_batch"
  by code_simp

lemma sample_requests:
  "ur_same_token_broadcaster_fee sample_unshield = None" "ur_different_token_broadcaster_fee sample_unshield = None"
  "ur_fee_amount sample_unshield = 0" "ur_target_amount sample_unshield = 5" "ur_base_output_count sample_unshield = 1"
  "sr_same_token_broadcaster_fee sample_send = None" "sr_different_token_broadcaster_fee sample_send = None"
  "sr_fee_amount sample_send = 0" "sr_target_amount sample_send = 5" "sr_base_output_count sample_send = 1"
  by (simp_all add: sample_unshield_def sample_send_def ur_same_token_broadcaster_fee_def ur_different_token_broadcaster_fee_def
      ur_fee_amount_def ur_target_amount_def ur_base_output_count_def sr_same_token_broadcaster_fee_def
      sr_different_token_broadcaster_fee_def sr_fee_amount_def sr_target_amount_def sr_base_output_count_def option_filter_def)

lemma sample_wallet:
  "forest_reachable (env_hash sample_env) sample_forest" "distinct (map utxo_key [sample_utxo 9 0 0 5])"
  "nat_sum [sample_utxo 9 0 0 5] < 2 ^ 256" "local_positions [sample_utxo 9 0 0 5]"
  "trees_known sample_forest [sample_utxo 9 0 0 5]" "proves sample_env"
proof -
  show "forest_reachable (env_hash sample_env) sample_forest"
    unfolding sample_forest_def by (rule forest_reachable.leaf [OF forest_reachable.new])
  show "trees_known sample_forest [sample_utxo 9 0 0 5]"
    by (simp add: trees_known_def sample_forest_def insert_leaf_def validate_tree_position_def forest_new_def TREE_LEAF_COUNT_def
        TREE_DEPTH_def
        contains_tree_def bt_contains_key_def bt_get_def Let_def case_prod_beta)
qed (simp_all add: nat_sum_def val_def local_positions_def TREE_LEAF_COUNT_def TREE_DEPTH_def proves_def sample_env_def)

lemma sample_encrypts: "encrypts sample_env (sample_keys [1] 21) rs"
  by (simp add: encrypts_def sample_env_def try_from_note_def note_blinding_keys_def shared_symmetric_key_def map_key_error_def
      encrypt_v2_payload_def encrypt_in_place_16b_iv_def encrypt_in_place_with_iv_def clear_aead_def word_curve_def Let_def)

lemma unshield_plan_builds_witness:
  "\<exists>plan. build_unshield_plan_with_signer sample_env sample_builder (sample_keys [1] 21) sample_forest
     [sample_utxo 9 0 0 5] sample_unshield 0 = Inr plan"
  by (rule unshield_plan_builds [OF sample_wallet(1-5) sample_encrypts sample_wallet(6), of _ one_note_batch])
    (simp_all add: sample_requests one_note_selection [simplified], simp_all add: sample_unshield_def one_note_selection [simplified],
      simp add: one_note_batch_def)

lemma send_plan_builds_witness:
  "\<exists>plan. build_send_plan_with_signer sample_env sample_builder (sample_keys [1] 21) sample_forest
     [sample_utxo 9 0 0 5] sample_send 0 = Inr plan"
  by (rule send_plan_builds [OF sample_wallet(1-5) sample_encrypts sample_wallet(6), of _ one_note_batch])
    (simp_all add: sample_requests one_note_selection [simplified], simp_all add: sample_send_def one_note_selection [simplified],
      simp add: one_note_batch_def)

lemma sample_chunk_payable:
  "chunk_payable [sample_utxo 9 0 0 5] 9 \<lparr>sel_utxos = [sample_utxo 9 0 0 5], sel_total = 5\<rparr>
     \<lparr>sa_amount = 5, sa_change = 0, sa_fee = None\<rparr>"
  by (simp add: chunk_payable_def fits_def eligible_def MAX_CIRCUIT_INPUTS_def MAX_SIGNATURE_INPUTS_def)

lemma sample_allocation:
  "spend_allocations one_note_batch 5 0 None False = Inr [\<lparr>sa_amount = 5, sa_change = 0, sa_fee = None\<rparr>]"
  by (simp add: spend_allocations_def one_note_batch_def Let_def)



end
