(* ===== verification/MixedSpec.thy ===== *)
theory MixedSpec
  imports PlanLive
begin

text \<open>
  The plans of mixed private actions: the transactions that
  \<open>build_mixed_private_action_plan_inner\<close> builds are those of its preview, which the code only
  asserts in debug builds; they are sound, and each leg is paid exactly.
\<close>

section \<open>What a step adds to the plan\<close>

type_synonym delta =
  "unproven_transaction_plan list \<times> mixed_private_planned_output list \<times> mixed_public_planned_output list"

definition adds :: "mixed_state \<Rightarrow> delta \<Rightarrow> mixed_state \<Rightarrow> bool" where
  "adds s d s' \<longleftrightarrow> mst_plans s' = mst_plans s @ fst d \<and>
     mst_private_outputs s' = mst_private_outputs s @ fst (snd d) \<and>
     mst_public_outputs s' = mst_public_outputs s @ snd (snd d)"

definition sum_delta :: "delta list \<Rightarrow> delta" where
  "sum_delta ds = (concat (map fst ds), concat (map (\<lambda>d. fst (snd d)) ds), concat (map (\<lambda>d. snd (snd d)) ds))"

lemma fold_deltas:
  assumes "fold_result f xs s = Inr s'" "I s"
    and "\<And>x s s1. x \<in> set xs \<Longrightarrow> I s \<Longrightarrow> f x s = Inr s1 \<Longrightarrow> I s1 \<and> (\<exists>d. D x d \<and> adds s d s1)"
  shows "I s' \<and> (\<exists>ds. list_all2 D xs ds \<and> adds s (sum_delta ds) s')"
  using assms
proof (induction xs arbitrary: s)
  case Nil
  then show ?case by (auto simp: adds_def sum_delta_def)
next
  case (Cons x xs)
  from Cons.prems(1) obtain s1 where s1: "f x s = Inr s1" "fold_result f xs s1 = Inr s'" by auto
  obtain d where d: "I s1" "D x d" "adds s d s1" using Cons.prems(3) [OF _ Cons.prems(2) s1(1)] by auto
  have "I s' \<and> (\<exists>ds. list_all2 D xs ds \<and> adds s1 (sum_delta ds) s')"
    by (rule Cons.IH [OF s1(2) d(1)]) (use Cons.prems(3) in auto)
  then obtain ds where "I s'" "list_all2 D xs ds" "adds s1 (sum_delta ds) s'" by blast
  with d show ?case by (intro conjI exI [of _ "d # ds"]) (auto simp: adds_def sum_delta_def)
qed

text \<open>A planned output names the place of its note in the transactions.\<close>

definition points :: "railgun_note list list \<Rightarrow> nat \<Rightarrow> nat \<Rightarrow> railgun_note \<Rightarrow> bool" where
  "points outs i j n \<longleftrightarrow> i < length outs \<and> j < length (outs ! i) \<and> outs ! i ! j = n"

definition outputs_point :: "railgun_note list list \<Rightarrow> mixed_private_planned_output list \<Rightarrow> mixed_public_planned_output list \<Rightarrow> bool" where
  "outputs_point outs privates publics \<longleftrightarrow>
     list_all (\<lambda>p. points outs (mpo_transaction_index p) (mpo_output_index p) (mpo_note p)) privates \<and>
     list_all (\<lambda>p. points outs (mpp_transaction_index p) (mpp_output_index p) (mpp_note p)) publics"

lemma points_append: "points outs i j n \<Longrightarrow> points (outs @ later) i j n"
  by (auto simp: points_def nth_append)

lemma points_last: "points (map f plans @ [os]) (length plans) j n \<longleftrightarrow> j < length os \<and> os ! j = n"
  using nth_append_length [of "map f plans" os "[]"] by (simp add: points_def)

lemma outputs_point_add:
  "outputs_point outs privates publics \<Longrightarrow> outputs_point (outs @ later) ps qs \<Longrightarrow>
     outputs_point (outs @ later) (privates @ ps) (publics @ qs)"
  using points_append by (auto simp: outputs_point_def list_all_iff)

definition mixed_inv :: "'p env \<Rightarrow> merkle_forest \<Rightarrow> mixed_state \<Rightarrow> bool" where
  "mixed_inv env forest s \<longleftrightarrow> cache_ok (env_hash env) forest (bst_cache (mst_build s)) \<and>
     outputs_point (map utp_outputs (mst_plans s)) (mst_private_outputs s) (mst_public_outputs s)"

definition shape_of_plan :: "unproven_transaction_plan \<Rightarrow> transaction_shape" where
  "shape_of_plan plan = \<lparr>ts_input_count = length (utp_inputs plan), ts_output_count = length (utp_outputs plan),
     ts_has_unshield = utp_has_unshield plan\<rparr>"

text \<open>The transaction of a chunk.\<close>

definition chunk_plan ::
  "'p env \<Rightarrow> viewing_key_data \<Rightarrow> merkle_forest \<Rightarrow> address \<Rightarrow> bool \<Rightarrow> utxo_selection \<times> spend_allocation \<Rightarrow>
     unproven_transaction_plan \<Rightarrow> bool" where
  "chunk_plan env viewing forest token unshield = (\<lambda>(c, a) plan.
     plan_sound env viewing forest token (sel_utxos c) plan \<and>
     shape_of_plan plan = \<lparr>ts_input_count = length (sel_utxos c),
       ts_output_count = 1 + (if sa_change a \<noteq> 0 then 1 else 0), ts_has_unshield = unshield\<rparr>)"

lemma plan_sound_inputs: "plan_sound env viewing forest token us plan \<Longrightarrow> length (utp_inputs plan) = length us"
  by (auto simp: plan_sound_def utp_sound_def)

definition send_delta ::
  "'p env \<Rightarrow> viewing_key_data \<Rightarrow> merkle_forest \<Rightarrow> nat \<Rightarrow> mixed_private_send \<Rightarrow>
     utxo_selection \<times> spend_allocation \<Rightarrow> delta \<Rightarrow> bool" where
  "send_delta env viewing forest k send x d \<longleftrightarrow>
     (\<exists>plan p ps. d = ([plan], p # ps, []) \<and> chunk_plan env viewing forest (mps_token_address send) False x plan \<and>
        mpo_source p = FromSend k \<and> mpo_role p = RecipientOutput (mps_role send) \<and> mpo_amount p = sa_amount (snd x) \<and>
        note_to (env_hash env) (mps_recipient send) (mps_token_address send) (sa_amount (snd x)) (mpo_note p) \<and>
        list_all (\<lambda>q. mpo_source q = FromSend k \<and> mpo_role q = ChangeOutput) ps \<and>
        length ps = (if sa_change (snd x) \<noteq> 0 then 1 else 0))"

definition unshield_delta ::
  "'p env \<Rightarrow> viewing_key_data \<Rightarrow> merkle_forest \<Rightarrow> address \<Rightarrow> nat \<Rightarrow> composite_unshield_leg \<Rightarrow>
     utxo_selection \<times> spend_allocation \<Rightarrow> delta \<Rightarrow> bool" where
  "unshield_delta env viewing forest to k leg x d \<longleftrightarrow>
     (\<exists>plan ps q. d = ([plan], ps, [q]) \<and> chunk_plan env viewing forest (leg_token_address leg) True x plan \<and>
        mpp_unshield_index q = k \<and> mpp_amount q = sa_amount (snd x) \<and> mpp_recipient q = leg_recipient leg \<and>
        mpp_note q = new_unshield to (leg_token_address leg) (sa_amount (snd x)) \<and>
        list_all (\<lambda>q. mpo_source q = FromPublicUnshield k \<and> mpo_role q = ChangeOutput) ps \<and>
        length ps = (if sa_change (snd x) \<noteq> 0 then 1 else 0))"

lemma mixed_send_step_ok:
  assumes "mixed_send_step env builder viewing forest request k send x s = Inr s'"
    and "mf_inv (env_hash env) forest" "mixed_inv env forest s" "chunk_ready (mps_token_address send) x" "sa_fee (snd x) = None"
  shows "mixed_inv env forest s' \<and> (\<exists>d. send_delta env viewing forest k send x d \<and> adds s d s')"
proof -
  obtain c a where x: "x = (c, a)" by (cases x)
  let ?t = "mps_token_address send"
  let ?r = "\<lparr>sr_token_address = ?t, sr_amount = mps_amount send, sr_recipient = mps_recipient send,
    sr_verify_proof = mar_verify_proof request, sr_spend_up_to = mar_spend_up_to request, sr_broadcaster_fee = None,
    sr_min_gas_price = mar_min_gas_price request\<rparr>"
  from assms(1) obtain outs plan st where run: "send_chunk env builder viewing forest ?r c (sa_amount a) (sa_change a) None (mst_build s) =
      Inr ((outs, plan), st)" and s': "s' = s\<lparr>
        mst_private_outputs := mst_private_outputs s
          @ [\<lparr>mpo_source = FromSend k, mpo_transaction_index = length (mst_plans s), mpo_output_index = 0,
              mpo_token_address = ?t, mpo_amount = sa_amount a, mpo_role = RecipientOutput (mps_role send), mpo_note = so_recipient_note outs\<rparr>]
          @ (case so_change_note outs of None \<Rightarrow> []
             | Some n \<Rightarrow> [\<lparr>mpo_source = FromSend k, mpo_transaction_index = length (mst_plans s), mpo_output_index = 1,
                 mpo_token_address = ?t, mpo_amount = sa_change a, mpo_role = ChangeOutput, mpo_note = n\<rparr>]),
        mst_plans := mst_plans s @ [plan], mst_build := st\<rparr>"
    by (auto simp: mixed_send_step_def x Let_def)
  have cache: "cache_ok (env_hash env) forest (bst_cache (mst_build s))"
    and pts: "outputs_point (map utp_outputs (mst_plans s)) (mst_private_outputs s) (mst_public_outputs s)"
    using assms(3) by (auto simp: mixed_inv_def)
  have bal: "nat_sum (sel_utxos c) = unat (sa_amount a) + unat (sa_change a) + unat (fee_value None)"
    using assms(4,5) by (simp add: chunk_ready_def balanced_def x)
  note ch = send_chunk_sound [OF run assms(2) cache _ bal, simplified]
  from ch(5) obtain d d' where b: "build_send_outputs env d ?t (sa_amount a) (sa_change a) (address_data viewing) (mps_recipient send)
      None (vk_viewing_private_key viewing) = Inr (outs, d')" by blast
  obtain n cs where o: "so_outputs outs = n # cs" "note_to (env_hash env) (mps_recipient send) ?t (sa_amount a) n"
    "change_notes (env_hash env) (address_data viewing) ?t (sa_change a) cs" "so_recipient_note outs = n"
    "so_change_note outs = (if cs = [] then None else Some (hd cs))"
    using send_outputs_Inr [OF b] by (auto simp: fee_notes_def)
  have len: "length cs = (if sa_change a \<noteq> 0 then 1 else 0)" by (rule length_change_notes [OF o(3)])
  have plan: "chunk_plan env viewing forest ?t False x plan"
    using ch(1,3,4) o(1) len by (simp add: chunk_plan_def x shape_of_plan_def plan_sound_inputs)
  let ?new = "drop (length (mst_private_outputs s)) (mst_private_outputs s')"
  have "outputs_point (map utp_outputs (mst_plans s) @ [utp_outputs plan]) ?new []"
    using ch(3) o len by (auto simp: s' outputs_point_def points_last hd_conv_nth)
  from outputs_point_add [OF pts this] have "mixed_inv env forest s'"
    using ch(2) by (simp add: mixed_inv_def s')
  moreover have "adds s ([plan], ?new, []) s'" by (simp add: adds_def s')
  moreover have "send_delta env viewing forest k send x ([plan], ?new, [])"
    using plan o len by (auto simp: send_delta_def s' x split: if_splits)
  ultimately show ?thesis by blast
qed

lemma mixed_unshield_step_ok:
  assumes "mixed_unshield_step env builder viewing forest request to k leg x s = Inr s'"
    and "mf_inv (env_hash env) forest" "mixed_inv env forest s" "chunk_ready (leg_token_address leg) x" "sa_fee (snd x) = None"
  shows "mixed_inv env forest s' \<and> (\<exists>d. unshield_delta env viewing forest to k leg x d \<and> adds s d s')"
proof -
  obtain c a where x: "x = (c, a)" by (cases x)
  let ?t = "leg_token_address leg" let ?n = "new_unshield to ?t (sa_amount a)"
  let ?r = "\<lparr>ur_token_address = ?t, ur_amount = sa_amount a, ur_recipient = to, ur_verify_proof = mar_verify_proof request,
    ur_spend_up_to = mar_spend_up_to request, ur_broadcaster_fee = None, ur_min_gas_price = mar_min_gas_price request\<rparr>"
  from assms(1) obtain outs plan st where run: "unshield_chunk env builder viewing forest ?r c (sa_amount a) (sa_change a) None (mst_build s) =
      Inr ((outs, plan), st)" and s': "s' = s\<lparr>
        mst_private_outputs := mst_private_outputs s
          @ (case uo_change_note outs of None \<Rightarrow> []
             | Some n \<Rightarrow> [\<lparr>mpo_source = FromPublicUnshield k, mpo_transaction_index = length (mst_plans s), mpo_output_index = 0,
                 mpo_token_address = ?t, mpo_amount = sa_change a, mpo_role = ChangeOutput, mpo_note = n\<rparr>]),
        mst_public_outputs := mst_public_outputs s @
          [\<lparr>mpp_unshield_index = k, mpp_transaction_index = length (mst_plans s), mpp_output_index = uo_unshield_output_index outs,
            mpp_token_address = ?t, mpp_amount = sa_amount a, mpp_recipient = leg_recipient leg, mpp_role = leg_role leg,
            mpp_note = uo_unshield_note outs\<rparr>],
        mst_plans := mst_plans s @ [plan], mst_build := st\<rparr>"
    by (auto simp: mixed_unshield_step_def x Let_def)
  have cache: "cache_ok (env_hash env) forest (bst_cache (mst_build s))"
    and pts: "outputs_point (map utp_outputs (mst_plans s)) (mst_private_outputs s) (mst_public_outputs s)"
    using assms(3) by (auto simp: mixed_inv_def)
  have bal: "nat_sum (sel_utxos c) = unat (sa_amount a) + unat (sa_change a) + unat (fee_value None)"
    using assms(4,5) by (simp add: chunk_ready_def balanced_def x)
  note ch = unshield_chunk_sound [OF run assms(2) cache _ bal, simplified]
  from ch(5) obtain d d' where b: "build_unshield_outputs env d ?t (sa_amount a) to (sa_change a) (address_data viewing)
      None (vk_viewing_private_key viewing) = Inr (outs, d')" by blast
  obtain cs where o: "uo_outputs outs = cs @ [?n]" "change_notes (env_hash env) (address_data viewing) ?t (sa_change a) cs"
    "uo_unshield_note outs = ?n" "uo_unshield_output_index outs = length cs" "uo_change_note outs = (if cs = [] then None else Some (hd cs))"
    using unshield_outputs_Inr [OF b] by (auto simp: fee_notes_def)
  have len: "length cs = (if sa_change a \<noteq> 0 then 1 else 0)" by (rule length_change_notes [OF o(2)])
  have plan: "chunk_plan env viewing forest ?t True x plan"
    using ch(1,3,4) o(1) len by (simp add: chunk_plan_def x shape_of_plan_def plan_sound_inputs)
  let ?new = "drop (length (mst_private_outputs s)) (mst_private_outputs s')"
  let ?q = "last (mst_public_outputs s')"
  have "outputs_point (map utp_outputs (mst_plans s) @ [utp_outputs plan]) ?new [?q]"
    using ch(3) o len by (auto simp: s' outputs_point_def points_last hd_conv_nth nth_append)
  from outputs_point_add [OF pts this] have "mixed_inv env forest s'"
    using ch(2) by (simp add: mixed_inv_def s')
  moreover have "adds s ([plan], ?new, [?q]) s'" by (simp add: adds_def s')
  moreover have "unshield_delta env viewing forest to k leg x ([plan], ?new, [?q])"
    using plan o len by (auto simp: unshield_delta_def s' x split: if_splits)
  ultimately show ?thesis by blast
qed

section \<open>Legs\<close>

lemma sum_delta_simps [simp]:
  "sum_delta [] = ([], [], [])"
  "sum_delta (d # ds) = (fst d @ fst (sum_delta ds), fst (snd d) @ fst (snd (sum_delta ds)), snd (snd d) @ snd (snd (sum_delta ds)))"
  by (simp_all add: sum_delta_def)

definition outs_of :: "(utxo_selection \<times> spend_allocation) list \<Rightarrow> nat" where
  "outs_of xs = sum_list (map (\<lambda>x. 1 + (if sa_change (snd x) \<noteq> 0 then 1 else 0)) xs)"

definition is_recipient :: "mixed_private_planned_output \<Rightarrow> bool" where
  "is_recipient p \<longleftrightarrow> mpo_role p \<noteq> ChangeOutput"

definition amounts :: "mixed_private_planned_output list \<Rightarrow> nat" where
  "amounts ps = sum_list (map (\<lambda>p. unat (mpo_amount p)) (filter is_recipient ps))"

definition public_amounts :: "mixed_public_planned_output list \<Rightarrow> nat" where
  "public_amounts qs = sum_list (map (\<lambda>q. unat (mpp_amount q)) qs)"

text \<open>The private outputs of a send: notes of its recipient and change.\<close>

definition send_output :: "hash_fn \<Rightarrow> nat \<Rightarrow> mixed_private_send \<Rightarrow> mixed_private_planned_output \<Rightarrow> bool" where
  "send_output hash k send p \<longleftrightarrow> mpo_source p = FromSend k \<and>
     (mpo_role p = ChangeOutput \<or> mpo_role p = RecipientOutput (mps_role send) \<and>
        note_to hash (mps_recipient send) (mps_token_address send) (mpo_amount p) (mpo_note p))"

definition unshield_output :: "address \<Rightarrow> nat \<Rightarrow> composite_unshield_leg \<Rightarrow> mixed_public_planned_output \<Rightarrow> bool" where
  "unshield_output to k leg q \<longleftrightarrow> mpp_unshield_index q = k \<and> mpp_recipient q = leg_recipient leg \<and>
     mpp_note q = new_unshield to (leg_token_address leg) (mpp_amount q)"

lemma send_deltas:
  assumes "list_all2 (send_delta env viewing forest k send) xs ds"
  shows "list_all2 (chunk_plan env viewing forest (mps_token_address send) False) xs (fst (sum_delta ds))"
    "length (fst (snd (sum_delta ds))) = outs_of xs" "snd (snd (sum_delta ds)) = []"
    "list_all (send_output (env_hash env) k send) (fst (snd (sum_delta ds)))"
    "amounts (fst (snd (sum_delta ds))) = paid (map snd xs)"
  using assms
proof (induction xs ds rule: list_all2_induct)
  case (Cons x xs d ds)
  from Cons.hyps(1) obtain plan p ps where d: "d = ([plan], p # ps, [])"
    and plan: "chunk_plan env viewing forest (mps_token_address send) False x plan"
    and p: "mpo_source p = FromSend k" "mpo_role p = RecipientOutput (mps_role send)" "mpo_amount p = sa_amount (snd x)"
      "note_to (env_hash env) (mps_recipient send) (mps_token_address send) (sa_amount (snd x)) (mpo_note p)"
    and ps: "list_all (\<lambda>q. mpo_source q = FromSend k \<and> mpo_role q = ChangeOutput) ps" "length ps = (if sa_change (snd x) \<noteq> 0 then 1 else 0)"
    by (auto simp: send_delta_def)
  have f: "filter is_recipient ps = []" using ps(1) by (auto simp: filter_empty_conv is_recipient_def list_all_iff)
  have so: "list_all (send_output (env_hash env) k send) (p # ps)" using p ps(1) by (auto simp: list_all_iff send_output_def)
  show "list_all2 (chunk_plan env viewing forest (mps_token_address send) False) (x # xs) (fst (sum_delta (d # ds)))"
    "snd (snd (sum_delta (d # ds))) = []" using plan Cons.IH by (simp_all add: d)
  show "length (fst (snd (sum_delta (d # ds)))) = outs_of (x # xs)" using ps(2) Cons.IH by (simp add: d outs_of_def)
  show "list_all (send_output (env_hash env) k send) (fst (snd (sum_delta (d # ds))))"
    using so Cons.IH by (simp add: d)
  show "amounts (fst (snd (sum_delta (d # ds)))) = paid (map snd (x # xs))"
    using p f Cons.IH by (simp add: d amounts_def paid_def is_recipient_def)
qed (simp_all add: outs_of_def amounts_def paid_def)

lemma unshield_deltas:
  assumes "list_all2 (unshield_delta env viewing forest to k leg) xs ds"
  shows "list_all2 (chunk_plan env viewing forest (leg_token_address leg) True) xs (fst (sum_delta ds))"
    "length (fst (snd (sum_delta ds))) + length xs = outs_of xs" "length (snd (snd (sum_delta ds))) = length xs"
    "list_all (\<lambda>p. mpo_source p = FromPublicUnshield k \<and> mpo_role p = ChangeOutput) (fst (snd (sum_delta ds)))"
    "list_all (unshield_output to k leg) (snd (snd (sum_delta ds)))"
    "public_amounts (snd (snd (sum_delta ds))) = paid (map snd xs)"
  using assms
proof (induction xs ds rule: list_all2_induct)
  case (Cons x xs d ds)
  from Cons.hyps(1) obtain plan ps q where d: "d = ([plan], ps, [q])"
    and plan: "chunk_plan env viewing forest (leg_token_address leg) True x plan"
    and q: "mpp_unshield_index q = k" "mpp_amount q = sa_amount (snd x)" "mpp_recipient q = leg_recipient leg"
      "mpp_note q = new_unshield to (leg_token_address leg) (sa_amount (snd x))"
    and ps: "list_all (\<lambda>q. mpo_source q = FromPublicUnshield k \<and> mpo_role q = ChangeOutput) ps"
      "length ps = (if sa_change (snd x) \<noteq> 0 then 1 else 0)"
    by (auto simp: unshield_delta_def)
  have qo: "unshield_output to k leg q" using q by (simp add: unshield_output_def)
  show "list_all2 (chunk_plan env viewing forest (leg_token_address leg) True) (x # xs) (fst (sum_delta (d # ds)))"
    "length (snd (snd (sum_delta (d # ds)))) = length (x # xs)" using plan Cons.IH by (simp_all add: d)
  show "length (fst (snd (sum_delta (d # ds)))) + length (x # xs) = outs_of (x # xs)" using ps(2) Cons.IH by (simp add: d outs_of_def)
  show "list_all (\<lambda>p. mpo_source p = FromPublicUnshield k \<and> mpo_role p = ChangeOutput) (fst (snd (sum_delta (d # ds))))"
    using ps Cons.IH by (simp add: d)
  show "list_all (unshield_output to k leg) (snd (snd (sum_delta (d # ds))))"
    using qo Cons.IH by (simp add: d)
  show "public_amounts (snd (snd (sum_delta (d # ds)))) = paid (map snd (x # xs))"
    using q Cons.IH by (simp add: d public_amounts_def paid_def)
qed (simp_all add: outs_of_def public_amounts_def paid_def)

text \<open>The transactions of a leg, in the shapes of the preview.\<close>

definition leg_plans ::
  "'p env \<Rightarrow> viewing_key_data \<Rightarrow> merkle_forest \<Rightarrow> address \<Rightarrow> bool \<Rightarrow> batch_utxo_selection \<Rightarrow> spend_allocation list \<Rightarrow>
     unproven_transaction_plan list \<Rightarrow> bool" where
  "leg_plans env viewing forest token unshield b as plans \<longleftrightarrow>
     list_all2 (\<lambda>c. plan_sound env viewing forest token (sel_utxos c)) (bs_chunks b) plans \<and>
     map shape_of_plan plans = shapes_of b as unshield"

lemma chunk_plans_leg:
  assumes "list_all2 (chunk_plan env viewing forest token unshield) (zip (bs_chunks b) as) plans" "length as = length (bs_chunks b)"
  shows "leg_plans env viewing forest token unshield b as plans"
  using assms by (auto simp: leg_plans_def list_all2_conv_all_nth chunk_plan_def shapes_of_def intro!: nth_equalityI)

lemma outs_of_shapes: "sum_list (map ts_output_count (shapes_of b as unshield)) = outs_of (zip (bs_chunks b) as)"
  by (simp add: shapes_of_def outs_of_def comp_def case_prod_beta)

lemma leg_ready:
  assumes "leg_batch utxos leg None up b" "distinct (map utxo_key utxos)" "nat_sum utxos < 2 ^ 256"
    and "spend_allocations b amount 0 None up' = Inr as"
  shows "list_all (chunk_ready (leg_token_address leg)) (zip (bs_chunks b) as)" "length as = length (bs_chunks b)"
    "\<forall>x \<in> set (zip (bs_chunks b) as). sa_fee (snd x) = None" "map snd (zip (bs_chunks b) as) = as"
proof -
  obtain us m where us: "nat_sum us < 2 ^ 256"
    and b: "batch_or_max us (leg_token_address leg) (leg_amount leg + fee_value None) up
      (1 + (if None \<noteq> (None :: broadcaster_fee_output option) then 1 else 0)) 1 m b"
    by (rule leg_batchE [OF assms(1-3)])
  have al: "spend_allocations b amount (fee_value None) None up' = Inr as" using assms(4) by simp
  note alloc = spend_allocations_Inr [OF al]
  show "list_all (chunk_ready (leg_token_address leg)) (zip (bs_chunks b) as)"
    by (rule batch_ready [OF b us alloc(1,2)]) simp
  show len: "length as = length (bs_chunks b)" using alloc(1) by (simp add: list_all2_lengthD)
  show "\<forall>x \<in> set (zip (bs_chunks b) as). sa_fee (snd x) = None"
    using alloc(2) by (auto simp: in_set_zip alloc_fee_def)
  show "map snd (zip (bs_chunks b) as) = as" using len by simp
qed

definition send_leg_delta ::
  "'p env \<Rightarrow> viewing_key_data \<Rightarrow> merkle_forest \<Rightarrow> mixed_private_action_request \<Rightarrow> batch_utxo_selection list \<Rightarrow>
     nat \<times> mixed_private_send \<Rightarrow> delta \<Rightarrow> bool" where
  "send_leg_delta env viewing forest request bs = (\<lambda>(k, send) d.
     let b = bs ! (length (mar_public_unshields request) + k)
     in \<exists>as. spend_allocations b (mps_amount send) 0 None (mar_spend_up_to request) = Inr as \<and>
          leg_plans env viewing forest (mps_token_address send) False b as (fst d) \<and>
          length (fst (snd d)) = sum_list (map ts_output_count (shapes_of b as False)) \<and> snd (snd d) = [] \<and>
          list_all (send_output (env_hash env) k send) (fst (snd d)) \<and> amounts (fst (snd d)) = paid as)"

definition unshield_leg_delta ::
  "'p env \<Rightarrow> viewing_key_data \<Rightarrow> merkle_forest \<Rightarrow> composite_execution \<Rightarrow> batch_utxo_selection list \<Rightarrow>
     nat \<times> composite_unshield_leg \<Rightarrow> delta \<Rightarrow> bool" where
  "unshield_leg_delta env viewing forest execution bs = (\<lambda>(k, leg) d.
     \<exists>as. spend_allocations (bs ! k) (leg_amount leg) 0 None False = Inr as \<and>
          leg_plans env viewing forest (leg_token_address leg) True (bs ! k) as (fst d) \<and>
          length (fst (snd d)) + length (snd (snd d)) = sum_list (map ts_output_count (shapes_of (bs ! k) as True)) \<and>
          length (snd (snd d)) = length (bs_chunks (bs ! k)) \<and>
          list_all (\<lambda>p. mpo_source p = FromPublicUnshield k \<and> mpo_role p = ChangeOutput) (fst (snd d)) \<and>
          list_all (unshield_output (unshield_to (leg_recipient leg) (execution_account execution)) k leg) (snd (snd d)) \<and>
          public_amounts (snd (snd d)) = unat (leg_amount leg))"

lemma mixed_send_leg_ok:
  assumes "mixed_send_leg env builder viewing forest request bs (k, send) s = Inr s'" "mf_inv (env_hash env) forest" "mixed_inv env forest s"
    and "leg_batch utxos (send_leg send) None (mar_spend_up_to request) (bs ! (length (mar_public_unshields request) + k))"
    and "distinct (map utxo_key utxos)" "nat_sum utxos < 2 ^ 256"
  shows "mixed_inv env forest s' \<and> (\<exists>d. send_leg_delta env viewing forest request bs (k, send) d \<and> adds s d s')"
proof -
  let ?b = "bs ! (length (mar_public_unshields request) + k)" let ?t = "mps_token_address send"
  from assms(1) obtain as where al: "spend_allocations ?b (mps_amount send) 0 None (mar_spend_up_to request) = Inr as"
    and run: "fold_result (mixed_send_step env builder viewing forest request k send) (zip (bs_chunks ?b) as) s = Inr s'"
    by (auto simp: mixed_send_leg_def Let_def)
  note ready = leg_ready [OF assms(4-6) al, unfolded send_leg_def, simplified]
  have "mixed_inv env forest s' \<and> (\<exists>ds. list_all2 (send_delta env viewing forest k send) (zip (bs_chunks ?b) as) ds \<and> adds s (sum_delta ds) s')"
    by (rule fold_deltas [where I = "mixed_inv env forest", OF run assms(3)], rule mixed_send_step_ok [OF _ assms(2)])
      (use ready in \<open>auto simp: list_all_iff\<close>)
  then obtain ds where inv: "mixed_inv env forest s'" and ds: "list_all2 (send_delta env viewing forest k send) (zip (bs_chunks ?b) as) ds"
    "adds s (sum_delta ds) s'" by blast
  note sd = send_deltas [OF ds(1)]
  have "send_leg_delta env viewing forest request bs (k, send) (sum_delta ds)"
    using al sd(2-5) chunk_plans_leg [OF sd(1) ready(2)] ready(4) by (simp add: send_leg_delta_def Let_def outs_of_shapes)
  with inv ds(2) show ?thesis by blast
qed

lemma mixed_unshield_leg_ok:
  assumes "mixed_unshield_leg env builder viewing forest request execution bs (k, leg) s = Inr s'" "mf_inv (env_hash env) forest"
    and "mixed_inv env forest s" "leg_batch utxos leg None False (bs ! k)" "distinct (map utxo_key utxos)" "nat_sum utxos < 2 ^ 256"
  shows "mixed_inv env forest s' \<and> (\<exists>d. unshield_leg_delta env viewing forest execution bs (k, leg) d \<and> adds s d s')"
proof -
  let ?b = "bs ! k" let ?to = "unshield_to (leg_recipient leg) (execution_account execution)"
  from assms(1) obtain as where al: "spend_allocations ?b (leg_amount leg) 0 None False = Inr as"
    and run: "fold_result (mixed_unshield_step env builder viewing forest request ?to k leg) (zip (bs_chunks ?b) as) s = Inr s'"
    by (auto simp: mixed_unshield_leg_def Let_def)
  note ready = leg_ready [OF assms(4-6) al]
  have "mixed_inv env forest s' \<and> (\<exists>ds. list_all2 (unshield_delta env viewing forest ?to k leg) (zip (bs_chunks ?b) as) ds \<and> adds s (sum_delta ds) s')"
    by (rule fold_deltas [where I = "mixed_inv env forest", OF run assms(3)], rule mixed_unshield_step_ok [OF _ assms(2)])
      (use ready in \<open>auto simp: list_all_iff\<close>)
  then obtain ds where inv: "mixed_inv env forest s'" and ds: "list_all2 (unshield_delta env viewing forest ?to k leg) (zip (bs_chunks ?b) as) ds"
    "adds s (sum_delta ds) s'" by blast
  note sd = unshield_deltas [OF ds(1)]
  have "paid as = unat (leg_amount leg)" using spend_allocations_Inr(5) [of ?b "leg_amount leg" None False as] al by simp
  then have "unshield_leg_delta env viewing forest execution bs (k, leg) (sum_delta ds)"
    using al sd(2-6) chunk_plans_leg [OF sd(1) ready(2)] ready(2,4)
    by (simp add: unshield_leg_delta_def outs_of_shapes)
  with inv ds(2) show ?thesis by blast
qed

section \<open>Plans\<close>

lemma mixed_unproven_ok:
  assumes run: "mixed_unproven env builder viewing forest request execution bs d = Inr mst" and inv: "mf_inv (env_hash env) forest"
    and legs: "\<And>j. j < length (mixed_legs request) \<Longrightarrow>
      leg_batch utxos (mixed_legs request ! j) None (leg_up_to (mixed_up_to request) j) (bs ! j)"
    and wallet: "distinct (map utxo_key utxos)" "nat_sum utxos < 2 ^ 256"
  obtains ss us where "list_all2 (send_leg_delta env viewing forest request bs) (enumerate 0 (mar_private_sends request)) ss"
    "list_all2 (unshield_leg_delta env viewing forest execution bs) (enumerate 0 (mar_public_unshields request)) us"
    "mst_plans mst = fst (sum_delta (ss @ us))" "mst_private_outputs mst = fst (snd (sum_delta (ss @ us)))"
    "mst_public_outputs mst = snd (snd (sum_delta (ss @ us)))" "mixed_inv env forest mst"
proof -
  let ?start = "\<lparr>mst_plans = [], mst_private_outputs = [], mst_public_outputs = [], mst_build = build_start d\<rparr>"
  let ?u = "length (mar_public_unshields request)"
  from run obtain m1 where r1: "fold_result (mixed_send_leg env builder viewing forest request bs) (enumerate 0 (mar_private_sends request)) ?start = Inr m1"
    and r2: "fold_result (mixed_unshield_leg env builder viewing forest request execution bs) (enumerate 0 (mar_public_unshields request)) m1 = Inr mst"
    by (auto simp: mixed_unproven_def)
  have start: "mixed_inv env forest ?start" by (simp add: mixed_inv_def outputs_point_def)
  have "mixed_inv env forest m1 \<and> (\<exists>ss. list_all2 (send_leg_delta env viewing forest request bs) (enumerate 0 (mar_private_sends request)) ss \<and>
      adds ?start (sum_delta ss) m1)"
  proof (rule fold_deltas [where I = "mixed_inv env forest", OF r1 start])
    fix x s s1 assume x: "x \<in> set (enumerate 0 (mar_private_sends request))" and I: "mixed_inv env forest s"
      and step: "mixed_send_leg env builder viewing forest request bs x s = Inr s1"
    obtain k send where k: "x = (k, send)" "k < length (mar_private_sends request)" "mar_private_sends request ! k = send"
      using x by (simp add: in_set_enumerate_eq) (metis prod.collapse)
    have "leg_batch utxos (send_leg send) None (mar_spend_up_to request) (bs ! (?u + k))"
      using legs [of "?u + k"] k by (simp add: mixed_legs_def mixed_up_to_def leg_up_to_def nth_append)
    from mixed_send_leg_ok [OF step [unfolded k(1)] inv I this wallet]
    show "mixed_inv env forest s1 \<and> (\<exists>d. send_leg_delta env viewing forest request bs x d \<and> adds s d s1)" by (simp add: k(1))
  qed
  then obtain ss where m1: "mixed_inv env forest m1" and ss: "list_all2 (send_leg_delta env viewing forest request bs) (enumerate 0 (mar_private_sends request)) ss"
    "adds ?start (sum_delta ss) m1" by blast
  have "mixed_inv env forest mst \<and> (\<exists>us. list_all2 (unshield_leg_delta env viewing forest execution bs) (enumerate 0 (mar_public_unshields request)) us \<and>
      adds m1 (sum_delta us) mst)"
  proof (rule fold_deltas [where I = "mixed_inv env forest", OF r2 m1])
    fix x s s1 assume x: "x \<in> set (enumerate 0 (mar_public_unshields request))" and I: "mixed_inv env forest s"
      and step: "mixed_unshield_leg env builder viewing forest request execution bs x s = Inr s1"
    obtain k leg where k: "x = (k, leg)" "k < ?u" "mar_public_unshields request ! k = leg"
      using x by (simp add: in_set_enumerate_eq) (metis prod.collapse)
    have "leg_batch utxos leg None False (bs ! k)"
      using legs [of k] k by (simp add: mixed_legs_def mixed_up_to_def leg_up_to_def nth_append)
    from mixed_unshield_leg_ok [OF step [unfolded k(1)] inv I this wallet]
    show "mixed_inv env forest s1 \<and> (\<exists>d. unshield_leg_delta env viewing forest execution bs x d \<and> adds s d s1)" by (simp add: k(1))
  qed
  then obtain us where m2: "mixed_inv env forest mst"
    and us: "list_all2 (unshield_leg_delta env viewing forest execution bs) (enumerate 0 (mar_public_unshields request)) us"
    "adds m1 (sum_delta us) mst" by blast
  have "mst_plans mst = fst (sum_delta (ss @ us))" "mst_private_outputs mst = fst (snd (sum_delta (ss @ us)))"
    "mst_public_outputs mst = snd (snd (sum_delta (ss @ us)))"
    using ss(2) us(2) by (simp_all add: adds_def sum_delta_def)
  from that [OF ss(1) us(1) this m2] show ?thesis .
qed

text \<open>The shapes and the allocations of the preview are those of the transactions.\<close>

lemma mixed_shapes:
  assumes "list_all2 (send_leg_delta env viewing forest request bs) (enumerate 0 (mar_private_sends request)) ss"
    and "list_all2 (unshield_leg_delta env viewing forest execution bs) (enumerate 0 (mar_public_unshields request)) us"
    and "mixed_transactions request bs = Inr ts"
  shows "map shape_of_plan (fst (sum_delta (ss @ us))) = ts"
proof -
  let ?u = "length (mar_public_unshields request)"
  from assms(3) obtain tss uss where ts: "ts = concat tss @ concat uss"
    and tss: "map_result (\<lambda>(send_index, send).
         let selection = bs ! (?u + send_index)
         in bind_result (spend_allocations selection (mps_amount send) 0 None (mar_spend_up_to request))
              (\<lambda>allocations. Inr (shapes_of selection allocations False)))
       (enumerate 0 (mar_private_sends request)) = Inr tss"
    and uss: "map_result (\<lambda>(unshield_index, leg).
         let selection = bs ! unshield_index
         in bind_result (spend_allocations selection (leg_amount leg) 0 None False)
              (\<lambda>allocations. Inr (shapes_of selection allocations True)))
       (enumerate 0 (mar_public_unshields request)) = Inr uss"
    unfolding mixed_transactions_def by auto
  have ls: "length ss = length (mar_private_sends request)" "length us = ?u"
    using list_all2_lengthD [OF assms(1)] list_all2_lengthD [OF assms(2)] by simp_all
  have s: "map shape_of_plan (fst (ss ! i)) = tss ! i" if "i < length ss" for i
  proof -
    have "send_leg_delta env viewing forest request bs (i, mar_private_sends request ! i) (ss ! i)"
      using list_all2_nthD2 [OF assms(1) that] that ls by (simp add: nth_enumerate_eq)
    moreover have "(let selection = bs ! (?u + i)
         in bind_result (spend_allocations selection (mps_amount (mar_private_sends request ! i)) 0 None (mar_spend_up_to request))
              (\<lambda>allocations. Inr (shapes_of selection allocations False))) = Inr (tss ! i)"
      using map_result_Inr [OF tss] that ls by (simp add: nth_enumerate_eq)
    ultimately show ?thesis by (auto simp: send_leg_delta_def leg_plans_def Let_def)
  qed
  have u: "map shape_of_plan (fst (us ! i)) = uss ! i" if "i < length us" for i
  proof -
    have "unshield_leg_delta env viewing forest execution bs (i, mar_public_unshields request ! i) (us ! i)"
      using list_all2_nthD2 [OF assms(2) that] that ls by (simp add: nth_enumerate_eq)
    moreover have "(let selection = bs ! i
         in bind_result (spend_allocations selection (leg_amount (mar_public_unshields request ! i)) 0 None False)
              (\<lambda>allocations. Inr (shapes_of selection allocations True))) = Inr (uss ! i)"
      using map_result_Inr [OF uss] that ls by (simp add: nth_enumerate_eq)
    ultimately show ?thesis by (auto simp: unshield_leg_delta_def leg_plans_def Let_def)
  qed
  have "map (\<lambda>d. map shape_of_plan (fst d)) ss = tss" "map (\<lambda>d. map shape_of_plan (fst d)) us = uss"
    using s u map_result_Inr(1) [OF tss] map_result_Inr(1) [OF uss] ls by (auto intro!: nth_equalityI)
  then show ?thesis by (auto simp add: ts sum_delta_def map_concat comp_def)
qed

text \<open>The notes that the transactions spend, in their order.\<close>

definition mixed_jobs :: "mixed_private_action_request \<Rightarrow> batch_utxo_selection list \<Rightarrow> (address \<times> utxo list) list" where
  "mixed_jobs request bs =
     concat (map (\<lambda>(k, send). map (\<lambda>c. (mps_token_address send, sel_utxos c))
         (bs_chunks (bs ! (length (mar_public_unshields request) + k)))) (enumerate 0 (mar_private_sends request)))
     @ concat (map (\<lambda>(k, leg). map (\<lambda>c. (leg_token_address leg, sel_utxos c)) (bs_chunks (bs ! k)))
         (enumerate 0 (mar_public_unshields request)))"

lemma list_all2_concat_map:
  assumes "list_all2 D xs ds" "\<And>x d. x \<in> set xs \<Longrightarrow> D x d \<Longrightarrow> list_all2 R (f x) (g d)"
  shows "list_all2 R (concat (map f xs)) (concat (map g ds))"
  using assms by (induction xs ds rule: list_all2_induct) (auto intro!: list_all2_appendI)

lemma mixed_jobs_plans:
  assumes "list_all2 (send_leg_delta env viewing forest request bs) (enumerate 0 (mar_private_sends request)) ss"
    and "list_all2 (unshield_leg_delta env viewing forest execution bs) (enumerate 0 (mar_public_unshields request)) us"
  shows "list_all2 (\<lambda>(token, us). plan_sound env viewing forest token us) (mixed_jobs request bs) (fst (sum_delta (ss @ us)))"
proof -
  let ?R = "\<lambda>(token, us). plan_sound env viewing forest token us"
  have "list_all2 ?R (concat (map (\<lambda>(k, send). map (\<lambda>c. (mps_token_address send, sel_utxos c))
         (bs_chunks (bs ! (length (mar_public_unshields request) + k)))) (enumerate 0 (mar_private_sends request)))) (concat (map fst ss))"
    by (rule list_all2_concat_map [OF assms(1)]) (auto simp: send_leg_delta_def leg_plans_def list_all2_map1 Let_def)
  moreover have "list_all2 ?R (concat (map (\<lambda>(k, leg). map (\<lambda>c. (leg_token_address leg, sel_utxos c)) (bs_chunks (bs ! k)))
         (enumerate 0 (mar_public_unshields request)))) (concat (map fst us))"
    by (rule list_all2_concat_map [OF assms(2)]) (auto simp: unshield_leg_delta_def leg_plans_def list_all2_map1)
  ultimately show ?thesis by (simp add: mixed_jobs_def sum_delta_def list_all2_appendI)
qed

lemma map_enumerate_nth: "length bs = length xs \<Longrightarrow> map (\<lambda>(k, x). f (bs ! k)) (enumerate 0 xs) = map f bs"
  by (intro nth_equalityI) (simp_all add: nth_enumerate_eq)

lemma mixed_jobs_chunks:
  assumes "length bs = length (mixed_legs request)"
  shows "mset (map snd (mixed_jobs request bs)) = mset (concat (map (\<lambda>b. map sel_utxos (bs_chunks b)) bs))"
proof -
  let ?u = "length (mar_public_unshields request)" let ?f = "\<lambda>b. map sel_utxos (bs_chunks b)"
  have "map (\<lambda>(k, send). ?f (bs ! (?u + k))) (enumerate 0 (mar_private_sends request)) = map ?f (drop ?u bs)"
    using map_enumerate_nth [of "drop ?u bs" "mar_private_sends request" ?f] assms by (simp add: mixed_legs_def)
  moreover have "map (\<lambda>(k, leg). ?f (bs ! k)) (enumerate 0 (mar_public_unshields request)) = map ?f (take ?u bs)"
    by (rule nth_equalityI) (use assms in \<open>auto simp: mixed_legs_def nth_enumerate_eq\<close>)
  ultimately have "map snd (mixed_jobs request bs) = concat (map ?f (drop ?u bs)) @ concat (map ?f (take ?u bs))"
    by (simp add: mixed_jobs_def map_concat comp_def case_prod_unfold)
  moreover have "concat (map ?f bs) = concat (map ?f (take ?u bs)) @ concat (map ?f (drop ?u bs))"
    by (simp flip: concat_append map_append)
  ultimately show ?thesis by (simp del: map_append)
qed

lemma mset_concat_cong: "mset xss = mset yss \<Longrightarrow> mset (concat xss) = mset (concat yss)"
  by (metis mset_concat mset_map sum_mset_sum_list)

lemma mixed_jobs_inputs:
  assumes "length bs = length (mixed_legs request)"
  shows "mset (concat (map snd (mixed_jobs request bs))) = mset (concat (map (\<lambda>b. chunk_inputs (bs_chunks b)) bs))"
    "length (mixed_jobs request bs) = sum_list (map (\<lambda>b. length (bs_chunks b)) bs)"
proof -
  have "concat (concat (map (\<lambda>b. map sel_utxos (bs_chunks b)) bs)) = concat (map (\<lambda>b. chunk_inputs (bs_chunks b)) bs)"
    by (induction bs) (simp_all add: chunk_inputs_def)
  then show "mset (concat (map snd (mixed_jobs request bs))) = mset (concat (map (\<lambda>b. chunk_inputs (bs_chunks b)) bs))"
    using mset_concat_cong [OF mixed_jobs_chunks [OF assms]] by simp
  show "length (mixed_jobs request bs) = sum_list (map (\<lambda>b. length (bs_chunks b)) bs)"
    using mixed_jobs_chunks [OF assms, THEN mset_eq_length] by (simp add: length_concat comp_def)
qed

lemma sort_by_cmp: "sort_by cmp xs = sort (xs :: 'a::linorder list)"
proof -
  have "insort_by cmp x ys = insort x ys" for x :: 'a and ys
    by (induction ys) (auto simp: cmp_def split: if_splits)
  then show ?thesis by (induction xs) auto
qed

lemma sort_unstable_mset: "mset xs = mset ys \<Longrightarrow> sort_unstable xs = sort_unstable ys"
  unfolding sort_unstable_def sort_by_cmp by (metis sorted_list_of_multiset_mset)

text \<open>Binding the relay actions leaves inputs, outputs and nullifiers.\<close>

lemma plan_sound_bound:
  "plan_sound env viewing forest token us (plan\<lparr>utp_transaction := (utp_transaction plan)\<lparr>tx_bound_params := bp\<rparr>\<rparr>) \<longleftrightarrow>
     plan_sound env viewing forest token us plan"
  by (simp add: plan_sound_def utp_sound_def)

lemma bind_actions_plans:
  "list_all2 (\<lambda>(token, us). plan_sound env viewing forest token us) jobs plans \<Longrightarrow>
     list_all2 (\<lambda>(token, us). plan_sound env viewing forest token us) jobs (bind_actions env execution action plans)"
  "map shape_of_plan (bind_actions env execution action plans) = map shape_of_plan plans"
  "map utp_outputs (bind_actions env execution action plans) = map utp_outputs plans"
  by (simp_all add: bind_actions_def Let_def list_all2_map2 plan_sound_bound shape_of_plan_def comp_def case_prod_unfold)

lemma mixed_actions_plans:
  assumes "mixed_actions env execution relay request d plans = Inr (action, plans')"
  shows "plans' = plans \<or> (\<exists>a. plans' = bind_actions env execution a plans)"
  using assms by (auto simp: mixed_actions_def split: if_splits)

definition shape_of_chunk :: "transaction_plan_chunk \<Rightarrow> transaction_shape" where
  "shape_of_chunk c = \<lparr>ts_input_count = length (tpc_inputs c), ts_output_count = length (tpc_outputs c),
     ts_has_unshield = tpc_has_unshield c\<rparr>"

lemma prove_shapes:
  assumes "prove_transaction_plans env plans verify = Inr ps"
  shows "map shape_of_chunk (map ptp_chunk ps) = map shape_of_plan plans"
    "map tpc_outputs (map ptp_chunk ps) = map utp_outputs plans"
proof -
  note r = map_result_Inr [OF assms [unfolded prove_transaction_plans_def]]
  have "shape_of_chunk (ptp_chunk p) = shape_of_plan plan" "tpc_outputs (ptp_chunk p) = utp_outputs plan" if "prove_transaction_plan env verify plan = Inr p" for plan p
    using that by (auto simp: prove_transaction_plan_def Let_def shape_of_chunk_def shape_of_plan_def)
  then have "shape_of_chunk (ptp_chunk (ps ! i)) = shape_of_plan (plans ! i)" "tpc_outputs (ptp_chunk (ps ! i)) = utp_outputs (plans ! i)"
    if "i < length plans" for i using r that by blast+
  then show "map shape_of_chunk (map ptp_chunk ps) = map shape_of_plan plans"
    "map tpc_outputs (map ptp_chunk ps) = map utp_outputs plans"
    using r by (simp_all add: list_eq_iff_nth_eq [of "map _ _" "map _ _"])
qed

text \<open>A plan and the selection behind it.\<close>

lemma mixed_plan_parts:
  assumes plan: "build_mixed_private_action_plan_inner env builder viewing forest utxos request d = Inr plan"
    and inv: "mf_inv (env_hash env) forest" and wallet: "distinct (map utxo_key utxos)" "nat_sum utxos < 2 ^ 256"
  obtains sel ss us plans ps execution calls relay where
    "select_mixed_private_action_plan builder utxos request = Inr sel" "mixed_transactions request (msp_selections sel) = Inr (map_transactions (msp_preview sel))"
    "list_all2 (send_leg_delta env viewing forest request (msp_selections sel)) (enumerate 0 (mar_private_sends request)) ss"
    "list_all2 (unshield_leg_delta env viewing forest (cps_execution (map_shape (msp_preview sel))) (msp_selections sel))
       (enumerate 0 (mar_public_unshields request)) us"
    "mpl_private_outputs plan = fst (snd (sum_delta (ss @ us)))" "mpl_public_outputs plan = snd (snd (sum_delta (ss @ us)))"
    "outputs_point (map tpc_outputs (mpl_chunks plan)) (mpl_private_outputs plan) (mpl_public_outputs plan)"
    "map shape_of_chunk (mpl_chunks plan) = map_transactions (msp_preview sel)"
    "prove_transaction_plans env plans (mar_verify_proof request) = Inr ps" "mpl_chunks plan = map ptp_chunk ps"
    "list_all2 (\<lambda>(token, us). plan_sound env viewing forest token us) (mixed_jobs request (msp_selections sel)) plans"
    "mset (concat (map snd (mixed_jobs request (msp_selections sel)))) = mset (concat (map (\<lambda>b. chunk_inputs (bs_chunks b)) (msp_selections sel)))"
    "mset (concat (map snd (mixed_jobs request (msp_selections sel)))) \<subseteq># mset utxos"
    "map_selected_inputs (msp_preview sel) = sort_unstable (map utxo_key (concat (map (\<lambda>b. chunk_inputs (bs_chunks b)) (msp_selections sel))))"
    "mpl_inputs plan = concat (map tpc_inputs (mpl_chunks plan))" "mpl_shape plan = map_shape (msp_preview sel)"
    "mpl_selected_inputs plan = map_selected_inputs (msp_preview sel)"
    "msp_preview sel = mixed_preview execution calls relay (msp_selections sel) (map_transactions (msp_preview sel))"
    "length (mixed_jobs request (msp_selections sel)) = sum_list (map (\<lambda>b. length (bs_chunks b)) (msp_selections sel))"
proof -
  from plan obtain sel mst action plans ps where sel: "select_mixed_private_action_plan builder utxos request = Inr sel"
    and mst: "mixed_unproven env builder viewing forest request (cps_execution (map_shape (msp_preview sel))) (msp_selections sel) d = Inr mst"
    and act: "mixed_actions env (cps_execution (map_shape (msp_preview sel))) (cps_uses_relay_adapt (map_shape (msp_preview sel))) request
        (bst_draws (mst_build mst)) (mst_plans mst) = Inr (action, plans)"
    and ps: "prove_transaction_plans env plans (mar_verify_proof request) = Inr ps"
    and out: "mpl_chunks plan = map ptp_chunk ps" "mpl_private_outputs plan = mst_private_outputs mst" "mpl_public_outputs plan = mst_public_outputs mst"
      "mpl_inputs plan = concat (map tpc_inputs (map ptp_chunk ps))" "mpl_shape plan = map_shape (msp_preview sel)"
      "mpl_selected_inputs plan = map_selected_inputs (msp_preview sel)"
    unfolding build_mixed_private_action_plan_inner_def Let_def by auto
  let ?bs = "msp_selections sel"
  obtain cu idx execution calls relay ts where
    cu: "case mar_rebuild request of None \<Rightarrow> cu = utxos | Some c \<Rightarrow> resolve_pinned_utxos utxos (mrc_selected_inputs c) = Inr cu"
    and legs: "select_composite_leg_selections_with_policy cu (mixed_legs request) None (mixed_up_to request) 0 = Inr (?bs, idx)"
    and ts: "mixed_transactions request ?bs = Inr ts" and pre: "msp_preview sel = mixed_preview execution calls relay ?bs ts"
    by (rule select_mixed_Inr [OF sel])
  note cu' = candidate_utxos [OF cu wallet(1)]
  have sum: "nat_sum cu < 2 ^ 256" using nat_sum_submset [OF cu'(1)] wallet(2) by simp
  have ok: "legs_ok None (mixed_up_to request) cu 0 0 None (mixed_legs request) ?bs idx"
    using select_inner_ok [OF legs [unfolded select_composite_leg_selections_with_policy_def] cu'(2)] by simp
  have leg: "leg_batch cu (mixed_legs request ! j) None (leg_up_to (mixed_up_to request) j) (?bs ! j)" if "j < length (mixed_legs request)" for j
    using legs_ok_batches [OF ok that] by (simp add: leg_fee_at_def)
  obtain ss us where ss: "list_all2 (send_leg_delta env viewing forest request ?bs) (enumerate 0 (mar_private_sends request)) ss"
    and us: "list_all2 (unshield_leg_delta env viewing forest (cps_execution (map_shape (msp_preview sel))) ?bs) (enumerate 0 (mar_public_unshields request)) us"
    and m: "mst_plans mst = fst (sum_delta (ss @ us))" "mst_private_outputs mst = fst (snd (sum_delta (ss @ us)))"
      "mst_public_outputs mst = snd (snd (sum_delta (ss @ us)))" "mixed_inv env forest mst"
    by (rule mixed_unproven_ok [OF mst inv leg cu'(2) sum])
  have shapes: "map shape_of_plan (mst_plans mst) = ts" using mixed_shapes [OF ss us ts] m(1) by simp
  have jobs: "list_all2 (\<lambda>(token, us). plan_sound env viewing forest token us) (mixed_jobs request ?bs) (mst_plans mst)"
    using mixed_jobs_plans [OF ss us] m(1) by simp
  have bound: "list_all2 (\<lambda>(token, us). plan_sound env viewing forest token us) (mixed_jobs request ?bs) plans"
    "map shape_of_plan plans = ts" "map utp_outputs plans = map utp_outputs (mst_plans mst)"
    using mixed_actions_plans [OF act] jobs shapes bind_actions_plans by auto
  note ins = mixed_jobs_inputs [of ?bs request]
  have len: "length ?bs = length (mixed_legs request)" using legs_ok_sizes [OF ok] by simp
  have sub: "mset (concat (map snd (mixed_jobs request ?bs))) \<subseteq># mset utxos"
    using legs_ok_inputs [OF ok] cu'(1) ins(1) [OF len] subset_mset.order_trans by metis
  have pts: "outputs_point (map tpc_outputs (mpl_chunks plan)) (mpl_private_outputs plan) (mpl_public_outputs plan)"
    using m(4) by (simp only: mixed_inv_def out prove_shapes(2) [OF ps] bound(3))
  show ?thesis
    by (rule that [OF sel _ ss us _ _ pts _ ps out(1) bound(1) ins(1) [OF len] sub, of execution calls relay])
      (use ts pre m out prove_shapes [OF ps] bound(2) ins(2) [OF len] in \<open>simp_all add: mixed_preview_def Let_def chunk_inputs_def\<close>)
qed

section \<open>The plan is the preview\<close>

definition counted :: "delta \<Rightarrow> bool" where
  "counted d \<longleftrightarrow>
     length (fst (snd d)) + length (snd (snd d)) = sum_list (map ts_output_count (map shape_of_plan (fst d))) \<and>
     length (snd (snd d)) = length (filter ts_has_unshield (map shape_of_plan (fst d)))"

lemma counted_sum: "list_all counted ds \<Longrightarrow> counted (sum_delta ds)"
  by (induction ds) (auto simp: counted_def)

lemma filter_shapes:
  "length as = length (bs_chunks b) \<Longrightarrow>
     length (filter ts_has_unshield (shapes_of b as unshield)) = (if unshield then length (bs_chunks b) else 0)"
  by (simp add: shapes_of_def filter_map comp_def case_prod_unfold)

lemma deltas_counted:
  "send_leg_delta env viewing forest request bs x d \<Longrightarrow> counted d"
  "unshield_leg_delta env viewing forest execution bs y d \<Longrightarrow> counted d"
proof -
  assume "send_leg_delta env viewing forest request bs x d"
  then obtain b as where "spend_allocations b (mps_amount (snd x)) (fee_value None) None (mar_spend_up_to request) = Inr as"
    and d: "leg_plans env viewing forest (mps_token_address (snd x)) False b as (fst d)"
    "length (fst (snd d)) = sum_list (map ts_output_count (shapes_of b as False))" "snd (snd d) = []"
    by (auto simp: send_leg_delta_def Let_def split: prod.splits)
  then have "length as = length (bs_chunks b)" using spend_allocations_Inr(1) by (metis list_all2_lengthD)
  with d show "counted d" using filter_shapes [of as b False] by (simp add: counted_def leg_plans_def)
next
  assume "unshield_leg_delta env viewing forest execution bs y d"
  then obtain as where "spend_allocations (bs ! fst y) (leg_amount (snd y)) (fee_value None) None False = Inr as"
    and d: "leg_plans env viewing forest (leg_token_address (snd y)) True (bs ! fst y) as (fst d)"
    "length (fst (snd d)) + length (snd (snd d)) = sum_list (map ts_output_count (shapes_of (bs ! fst y) as True))"
    "length (snd (snd d)) = length (bs_chunks (bs ! fst y))"
    by (auto simp: unshield_leg_delta_def split: prod.splits)
  then have "length as = length (bs_chunks (bs ! fst y))" using spend_allocations_Inr(1) by (metis list_all2_lengthD)
  with d show "counted d" using filter_shapes [of as "bs ! fst y" True] by (simp add: counted_def leg_plans_def)
qed

lemma list_all2_all: "list_all2 R xs ds \<Longrightarrow> (\<And>x d. R x d \<Longrightarrow> P d) \<Longrightarrow> list_all P ds"
  by (induction xs ds rule: list_all2_induct) auto

text \<open>
  Claim C10. A mixed plan is what its preview announced, as \<open>build_mixed_private_action_plan_inner\<close>
  asserts in debug builds: the preview succeeds on the same wallet, the transactions have its shapes
  in its order, the inputs are its selected inputs, and the counts of its shape are those of the plan.
\<close>

theorem mixed_plan_matches_preview:
  assumes "forest_reachable (env_hash env) forest" "distinct (map utxo_key utxos)" "nat_sum utxos < 2 ^ 256" "local_positions utxos"
    and "build_mixed_private_action_plan_inner env builder viewing forest utxos request d = Inr plan"
  shows "\<exists>preview. preview_mixed_private_action_plan builder utxos request = Inr preview \<and>
    map shape_of_chunk (mpl_chunks plan) = map_transactions preview \<and>
    sort_unstable (map utxo_key (map iw_utxo (mpl_inputs plan))) = map_selected_inputs preview \<and>
    mpl_selected_inputs plan = map_selected_inputs preview \<and> mpl_shape plan = map_shape preview \<and>
    cps_transaction_count (mpl_shape plan) = length (mpl_chunks plan) \<and>
    cps_input_count (mpl_shape plan) = length (mpl_inputs plan) \<and>
    cps_private_output_count (mpl_shape plan) = length (mpl_private_outputs plan) \<and>
    cps_public_output_count (mpl_shape plan) = length (mpl_public_outputs plan)"
proof -
  note inv = forest_reachable_inv [OF assms(1)]
  obtain sel ss us plans ps execution calls relay where sel: "select_mixed_private_action_plan builder utxos request = Inr sel"
    and ts: "mixed_transactions request (msp_selections sel) = Inr (map_transactions (msp_preview sel))"
    and ss: "list_all2 (send_leg_delta env viewing forest request (msp_selections sel)) (enumerate 0 (mar_private_sends request)) ss"
    and us: "list_all2 (unshield_leg_delta env viewing forest (cps_execution (map_shape (msp_preview sel))) (msp_selections sel))
       (enumerate 0 (mar_public_unshields request)) us"
    and o: "mpl_private_outputs plan = fst (snd (sum_delta (ss @ us)))" "mpl_public_outputs plan = snd (snd (sum_delta (ss @ us)))"
    and sh: "map shape_of_chunk (mpl_chunks plan) = map_transactions (msp_preview sel)"
    and ps: "prove_transaction_plans env plans (mar_verify_proof request) = Inr ps" "mpl_chunks plan = map ptp_chunk ps"
    and jobs: "list_all2 (\<lambda>(token, us). plan_sound env viewing forest token us) (mixed_jobs request (msp_selections sel)) plans"
    and ins: "mset (concat (map snd (mixed_jobs request (msp_selections sel)))) = mset (concat (map (\<lambda>b. chunk_inputs (bs_chunks b)) (msp_selections sel)))"
    "mset (concat (map snd (mixed_jobs request (msp_selections sel)))) \<subseteq># mset utxos"
    and ids: "map_selected_inputs (msp_preview sel) = sort_unstable (map utxo_key (concat (map (\<lambda>b. chunk_inputs (bs_chunks b)) (msp_selections sel))))"
    and p: "mpl_inputs plan = concat (map tpc_inputs (mpl_chunks plan))" "mpl_shape plan = map_shape (msp_preview sel)"
      "mpl_selected_inputs plan = map_selected_inputs (msp_preview sel)"
    and pre: "msp_preview sel = mixed_preview execution calls relay (msp_selections sel) (map_transactions (msp_preview sel))"
    and cnt: "length (mixed_jobs request (msp_selections sel)) = sum_list (map (\<lambda>b. length (bs_chunks b)) (msp_selections sel))"
    by (rule mixed_plan_parts [OF assms(5) inv assms(2,3)])
  let ?jobs = "mixed_jobs request (msp_selections sel)"
  have sub: "set (concat (map snd ?jobs)) \<subseteq> set utxos" using submset_distinct_keys(2) [OF ins(2) assms(2)] .
  have inputs: "map iw_utxo (mpl_inputs plan) = concat (map snd ?jobs)"
    using prove_transactions_sound(2) [OF ps(1) jobs inv sub assms(4)] by (simp add: p(1) ps(2))
  have chunks: "length (mpl_chunks plan) = length ?jobs"
    using list_all2_lengthD [OF jobs] map_result_Inr [OF ps(1) [unfolded prove_transaction_plans_def]] by (simp add: ps(2))
  have "mset (map utxo_key (map iw_utxo (mpl_inputs plan))) =
      mset (map utxo_key (concat (map (\<lambda>b. chunk_inputs (bs_chunks b)) (msp_selections sel))))"
    using ins(1) unfolding inputs by (metis mset_map)
  from sort_unstable_mset [OF this] have srt: "sort_unstable (map utxo_key (map iw_utxo (mpl_inputs plan))) = map_selected_inputs (msp_preview sel)"
    by (simp add: ids)
  have "counted (sum_delta (ss @ us))"
    by (rule counted_sum) (simp add: list_all2_all [OF ss, where P = counted] list_all2_all [OF us, where P = counted] deltas_counted)
  then have counts: "length (mpl_private_outputs plan) + length (mpl_public_outputs plan) =
      sum_list (map ts_output_count (map_transactions (msp_preview sel)))"
    "length (mpl_public_outputs plan) = length (filter ts_has_unshield (map_transactions (msp_preview sel)))"
    using mixed_shapes [OF ss us ts] by (simp_all add: counted_def o)
  have shape: "cps_transaction_count (map_shape (msp_preview sel)) = length ?jobs"
    "cps_input_count (map_shape (msp_preview sel)) = length (map_selected_inputs (msp_preview sel))"
    "cps_private_output_count (map_shape (msp_preview sel)) = sum_list (map ts_output_count (map_transactions (msp_preview sel)))
       - length (filter ts_has_unshield (map_transactions (msp_preview sel)))"
    "cps_public_output_count (map_shape (msp_preview sel)) = length (filter ts_has_unshield (map_transactions (msp_preview sel)))"
    by (subst pre, simp add: mixed_preview_def Let_def cnt sort_unstable_def)+
  have len: "length (map_selected_inputs (msp_preview sel)) = length (mpl_inputs plan)"
    using arg_cong [OF srt, of length] by (simp add: sort_unstable_def)
  show ?thesis
    by (rule exI [of _ "msp_preview sel"]) (use sel sh srt p counts shape len chunks in \<open>simp add: preview_mixed_private_action_plan_def\<close>)
qed

section \<open>What the plan pays\<close>

text \<open>The outputs of a leg, picked out of those of the plan by the index of the leg.\<close>

lemma unshield_leg_outputs:
  assumes "list_all2 (unshield_leg_delta env viewing forest execution bs) (enumerate n legs) us"
  shows "list_all (\<lambda>q. n \<le> mpp_unshield_index q) (snd (snd (sum_delta us))) \<and>
    filter is_recipient (fst (snd (sum_delta us))) = [] \<and>
    (\<forall>k < length legs. filter (\<lambda>q. mpp_unshield_index q = n + k) (snd (snd (sum_delta us))) = snd (snd (us ! k)))"
  using assms
proof (induction legs arbitrary: us n)
  case (Cons leg legs)
  then obtain u us' where us: "us = u # us'" and u: "unshield_leg_delta env viewing forest execution bs (n, leg) u"
    and rest: "list_all2 (unshield_leg_delta env viewing forest execution bs) (enumerate (Suc n) legs) us'"
    unfolding enumerate_simps list_all2_Cons1 by blast
  have own: "list_all (\<lambda>q. mpp_unshield_index q = n) (snd (snd u))" "filter is_recipient (fst (snd u)) = []"
    using u by (auto simp: unshield_leg_delta_def unshield_output_def list_all_iff is_recipient_def filter_empty_conv)
  note IH = Cons.IH [OF rest]
  have "filter (\<lambda>q. mpp_unshield_index q = n + k) (snd (snd (sum_delta us))) = snd (snd (us ! k))" if "k < length (leg # legs)" for k
    using own IH that by (cases k) (fastforce simp: us list_all_iff filter_empty_conv)+
  moreover have "list_all (\<lambda>q. n \<le> mpp_unshield_index q) (snd (snd (sum_delta us)))" using own IH by (auto simp: us list_all_iff)
  ultimately show ?case using own IH by (simp add: us)
qed simp

lemma send_leg_outputs:
  assumes "list_all2 (send_leg_delta env viewing forest request bs) (enumerate n sends) ss"
  shows "list_all (\<lambda>p. \<exists>j \<ge> n. mpo_source p = FromSend j) (fst (snd (sum_delta ss))) \<and> snd (snd (sum_delta ss)) = [] \<and>
    (\<forall>k < length sends. filter (\<lambda>p. mpo_source p = FromSend (n + k)) (fst (snd (sum_delta ss))) = fst (snd (ss ! k)))"
  using assms
proof (induction sends arbitrary: ss n)
  case (Cons send sends)
  then obtain s ss' where ss: "ss = s # ss'" and s: "send_leg_delta env viewing forest request bs (n, send) s"
    and rest: "list_all2 (send_leg_delta env viewing forest request bs) (enumerate (Suc n) sends) ss'"
    unfolding enumerate_simps list_all2_Cons1 by blast
  have own: "list_all (\<lambda>p. mpo_source p = FromSend n) (fst (snd s))" "snd (snd s) = []"
    using s by (auto simp: send_leg_delta_def send_output_def list_all_iff Let_def)
  note IH = Cons.IH [OF rest]
  have "filter (\<lambda>p. mpo_source p = FromSend (n + k)) (fst (snd (sum_delta ss))) = fst (snd (ss ! k))" if "k < length (send # sends)" for k
    using own IH that by (cases k) (fastforce simp: ss list_all_iff filter_empty_conv)+
  moreover have "list_all (\<lambda>p. \<exists>j \<ge> n. mpo_source p = FromSend j) (fst (snd (sum_delta ss)))"
    using own IH Suc_leD by (fastforce simp: ss list_all_iff)
  ultimately show ?case using own IH by (simp add: ss)
qed simp

lemma mixed_jobs_tokens: "(token, us) \<in> set (mixed_jobs request bs) \<Longrightarrow> token \<in> leg_token_address ` set (mixed_legs request)"
  by (force simp: mixed_jobs_def mixed_legs_def send_leg_def in_set_enumerate_eq)

lemma list_all2_right: "list_all2 R xs ys \<Longrightarrow> (\<And>x y. x \<in> set xs \<Longrightarrow> R x y \<Longrightarrow> P y) \<Longrightarrow> list_all P ys"
  by (induction xs ys rule: list_all2_induct) auto

definition pays_unshield :: "composite_execution \<Rightarrow> mixed_public_planned_output list \<Rightarrow> nat \<Rightarrow> composite_unshield_leg \<Rightarrow> bool" where
  "pays_unshield execution publics k leg \<longleftrightarrow>
     (let qs = filter (\<lambda>q. mpp_unshield_index q = k) publics
      in list_all (unshield_output (unshield_to (leg_recipient leg) (execution_account execution)) k leg) qs \<and>
         public_amounts qs = unat (leg_amount leg))"

definition pays_send :: "hash_fn \<Rightarrow> bool \<Rightarrow> mixed_private_planned_output list \<Rightarrow> nat \<Rightarrow> mixed_private_send \<Rightarrow> bool" where
  "pays_send hash up_to privates k send \<longleftrightarrow>
     (let ps = filter (\<lambda>p. mpo_source p = FromSend k) privates
      in list_all (send_output hash k send) ps \<and> amounts ps \<le> unat (mps_amount send) \<and>
         (up_to \<or> amounts ps = unat (mps_amount send)))"

lemma unshields_paid:
  assumes "list_all2 (send_leg_delta env viewing forest request bs) (enumerate 0 sends) ss"
    and "list_all2 (unshield_leg_delta env viewing forest execution bs) (enumerate 0 legs) us" "k < length legs"
  shows "pays_unshield execution (snd (snd (sum_delta (ss @ us)))) k (legs ! k)"
proof -
  have "unshield_leg_delta env viewing forest execution bs (k, legs ! k) (us ! k)"
    using list_all2_nthD [OF assms(2), of k] assms(3) by (simp add: nth_enumerate_eq)
  moreover have "snd (snd (sum_delta (ss @ us))) = snd (snd (sum_delta us))"
    using send_leg_outputs [OF assms(1)] by (simp add: sum_delta_def)
  ultimately show ?thesis using unshield_leg_outputs [OF assms(2)] assms(3)
    by (auto simp: pays_unshield_def unshield_leg_delta_def)
qed

lemma sends_paid:
  assumes "list_all2 (send_leg_delta env viewing forest request bs) (enumerate 0 sends) ss"
    and "list_all2 (unshield_leg_delta env viewing forest execution bs) (enumerate 0 legs) us" "k < length sends"
  shows "pays_send (env_hash env) (mar_spend_up_to request) (fst (snd (sum_delta (ss @ us)))) k (sends ! k)"
proof -
  have s: "send_leg_delta env viewing forest request bs (k, sends ! k) (ss ! k)"
    using list_all2_nthD [OF assms(1), of k] assms(3) by (simp add: nth_enumerate_eq)
  then obtain b as where al: "spend_allocations b (mps_amount (sends ! k)) (fee_value None) None (mar_spend_up_to request) = Inr as"
    and own: "list_all (send_output (env_hash env) k (sends ! k)) (fst (snd (ss ! k)))" "amounts (fst (snd (ss ! k))) = paid as"
    by (auto simp: send_leg_delta_def Let_def)
  have "filter (\<lambda>p. mpo_source p = FromSend k) (fst (snd (sum_delta us))) = []"
    using list_all2_all [OF assms(2), where P = "\<lambda>d. list_all (\<lambda>p. mpo_source p \<noteq> FromSend k) (fst (snd d))"]
    by (force simp: unshield_leg_delta_def sum_delta_def list_all_iff filter_empty_conv)
  then have "filter (\<lambda>p. mpo_source p = FromSend k) (fst (snd (sum_delta (ss @ us)))) = fst (snd (ss ! k))"
    using send_leg_outputs [OF assms(1)] assms(3) by (simp add: sum_delta_def)
  with own spend_allocations_Inr(5) [OF al] show ?thesis by (simp add: pays_send_def)
qed

text \<open>
  Claim C3. A mixed plan spends each note once and pays what was asked: every transaction is sound
  for the token of one of the legs, every planned output names the transaction and the position of
  the note it stands for, the public outputs of a leg are unshields to its recipient, or to the
  executing contract, worth exactly its amount, and the recipient notes of a send are worth its
  amount, or less when spending up to it is allowed.
\<close>

theorem mixed_plan_sound:
  assumes "forest_reachable (env_hash env) forest" "distinct (map utxo_key utxos)" "nat_sum utxos < 2 ^ 256" "local_positions utxos"
    and "build_mixed_private_action_plan_inner env builder viewing forest utxos request d = Inr plan"
  shows "list_all (\<lambda>c. \<exists>leg \<in> set (mixed_legs request). tx_sound env viewing forest utxos (leg_token_address leg) c) (mpl_chunks plan) \<and>
    mpl_inputs plan = concat (map tpc_inputs (mpl_chunks plan)) \<and>
    distinct (map utxo_key (map iw_utxo (mpl_inputs plan))) \<and>
    outputs_point (map tpc_outputs (mpl_chunks plan)) (mpl_private_outputs plan) (mpl_public_outputs plan) \<and>
    (\<forall>k < length (mar_public_unshields request).
       pays_unshield (cps_execution (mpl_shape plan)) (mpl_public_outputs plan) k (mar_public_unshields request ! k)) \<and>
    (\<forall>k < length (mar_private_sends request).
       pays_send (env_hash env) (mar_spend_up_to request) (mpl_private_outputs plan) k (mar_private_sends request ! k))"
proof -
  note inv = forest_reachable_inv [OF assms(1)]
  obtain sel ss us plans ps execution calls relay where "select_mixed_private_action_plan builder utxos request = Inr sel"
    and ts: "mixed_transactions request (msp_selections sel) = Inr (map_transactions (msp_preview sel))"
    and ss: "list_all2 (send_leg_delta env viewing forest request (msp_selections sel)) (enumerate 0 (mar_private_sends request)) ss"
    and us: "list_all2 (unshield_leg_delta env viewing forest (cps_execution (map_shape (msp_preview sel))) (msp_selections sel))
       (enumerate 0 (mar_public_unshields request)) us"
    and o: "mpl_private_outputs plan = fst (snd (sum_delta (ss @ us)))" "mpl_public_outputs plan = snd (snd (sum_delta (ss @ us)))"
    and pts: "outputs_point (map tpc_outputs (mpl_chunks plan)) (mpl_private_outputs plan) (mpl_public_outputs plan)"
    and sh: "map shape_of_chunk (mpl_chunks plan) = map_transactions (msp_preview sel)"
    and ps: "prove_transaction_plans env plans (mar_verify_proof request) = Inr ps" "mpl_chunks plan = map ptp_chunk ps"
    and jobs: "list_all2 (\<lambda>(token, us). plan_sound env viewing forest token us) (mixed_jobs request (msp_selections sel)) plans"
    and ins: "mset (concat (map snd (mixed_jobs request (msp_selections sel)))) = mset (concat (map (\<lambda>b. chunk_inputs (bs_chunks b)) (msp_selections sel)))"
    "mset (concat (map snd (mixed_jobs request (msp_selections sel)))) \<subseteq># mset utxos"
    and ids: "map_selected_inputs (msp_preview sel) = sort_unstable (map utxo_key (concat (map (\<lambda>b. chunk_inputs (bs_chunks b)) (msp_selections sel))))"
    and p: "mpl_inputs plan = concat (map tpc_inputs (mpl_chunks plan))" "mpl_shape plan = map_shape (msp_preview sel)"
      "mpl_selected_inputs plan = map_selected_inputs (msp_preview sel)"
    and pre: "msp_preview sel = mixed_preview execution calls relay (msp_selections sel) (map_transactions (msp_preview sel))"
    and cnt: "length (mixed_jobs request (msp_selections sel)) = sum_list (map (\<lambda>b. length (bs_chunks b)) (msp_selections sel))"
    by (rule mixed_plan_parts [OF assms(5) inv assms(2,3)])
  note us = us [folded p(2)] and sub = submset_distinct_keys [OF ins(2) assms(2)]
  note pr = prove_transactions_sound [OF ps(1) jobs inv sub(2) assms(4)]
  have "list_all (\<lambda>c. \<exists>leg \<in> set (mixed_legs request). tx_sound env viewing forest utxos (leg_token_address leg) c) (mpl_chunks plan)"
    unfolding ps(2) by (rule list_all2_right [OF pr(1)]) (use mixed_jobs_tokens in fastforce)
  moreover have "distinct (map utxo_key (map iw_utxo (mpl_inputs plan)))" using sub(1) pr(2) by (simp add: p(1) ps(2))
  moreover note pts p(1) unshields_paid [OF ss us] sends_paid [OF ss us]
  ultimately show ?thesis unfolding o by simp
qed

section \<open>A plan for one unshield\<close>

lemma push_unique_hd: "\<exists>cs'. foldl push_unique_batch_candidate (c # cs) xs = c # cs'"
proof (induction xs arbitrary: cs)
  case (Cons x xs)
  obtain cs1 where "push_unique_batch_candidate (c # cs) x = c # cs1" unfolding push_unique_batch_candidate_def by (metis append_Cons)
  with Cons.IH show ?case by simp
qed simp

lemma one_note_candidates:
  "\<exists>cs. select_batched_utxo_candidates_with_limit [sample_utxo 9 0 0 5] 9 5 False 1 1 MAX_BATCH_TRANSACTIONS = Inr (one_note_batch # cs)"
proof -
  have "select_batched_utxos_with_limit [sample_utxo 9 0 0 5] 9 5 False 1 1 MAX_BATCH_TRANSACTIONS = Inr one_note_batch"
    using one_note_selection unfolding select_batched_utxos_def .
  moreover have "\<exists>cs. foldl push_unique_batch_candidate (foldl push_unique_batch_candidate [one_note_batch] xs) ys = one_note_batch # cs" for xs ys
    using push_unique_hd [of one_note_batch] by metis
  ultimately show ?thesis by (simp add: select_batched_utxo_candidates_with_limit_def Let_def MAX_BATCH_TRANSACTIONS_def)
qed

lemma sample_leg_selection:
  "select_composite_leg_selections_with_policy [sample_utxo 9 0 0 5] [sample_leg] None [False] 0 = Inr ([one_note_batch], None)"
  using one_note_candidates
  by (auto simp: select_composite_leg_selections_with_policy_def select_leg_def leg_fee_options_def sample_leg_def
      MAX_BATCH_TRANSACTIONS_def)

lemma sample_mixed_plan:
  "\<exists>plan. build_mixed_private_action_plan_inner sample_env sample_builder (sample_keys [1] 21) sample_forest
     [sample_utxo 9 0 0 5] sample_request 0 = Inr plan"
proof -
  let ?us = "[sample_utxo 9 0 0 5]" and ?a = "\<lparr>sa_amount = 5, sa_change = 0, sa_fee = None\<rparr>" and ?v = "sample_keys [1] 21"
  let ?c = "\<lparr>sel_utxos = ?us, sel_total = 5\<rparr>"
  let ?r = "\<lparr>ur_token_address = 9, ur_amount = 5, ur_recipient = 0, ur_verify_proof = False, ur_spend_up_to = False,
    ur_broadcaster_fee = None, ur_min_gas_price = 0\<rparr>"
  have "\<exists>y st. unshield_chunk sample_env sample_builder ?v sample_forest ?r ?c (sa_amount ?a) (sa_change ?a) (sa_fee ?a)
      (build_start 0) = Inr (y, st) \<and> cache_ok (env_hash sample_env) sample_forest (bst_cache st)"
    by (rule unshield_chunk_ok [OF forest_reachable_inv [OF sample_wallet(1)] cache_ok_start sample_wallet(5,4), where rs = UNIV])
      (use sample_chunk_payable sample_encrypts in simp_all)
  then obtain outs plan st where y: "unshield_chunk sample_env sample_builder ?v sample_forest ?r ?c 5 0 None (build_start 0) = Inr ((outs, plan), st)"
    by auto
  obtain ps where ps: "prove_transaction_plans sample_env [plan] False = Inr ps" using prove_ok [OF sample_wallet(6)] by blast
  show ?thesis
    using y ps sample_leg_selection sample_allocation
    by (simp add: build_mixed_private_action_plan_inner_def select_mixed_private_action_plan_def sample_request_def
        tb_composite_execution_def is_executor_adapter_def mixed_relay_call_count_def mixed_transactions_def
        check_rebuild_def sample_leg_def uses_relay_adapt_def lift_build_def mixed_unproven_def mixed_unshield_leg_def
        mixed_unshield_step_def mixed_actions_def mixed_preview_def Let_def unshield_to_def one_note_batch_def composite_call_def)
qed

lemma mixed_plan_matches_preview_witness:
  "\<exists>plan preview. build_mixed_private_action_plan_inner sample_env sample_builder (sample_keys [1] 21) sample_forest
     [sample_utxo 9 0 0 5] sample_request 0 = Inr plan \<and>
     preview_mixed_private_action_plan sample_builder [sample_utxo 9 0 0 5] sample_request = Inr preview \<and>
     mpl_shape plan = map_shape preview \<and> map shape_of_chunk (mpl_chunks plan) = map_transactions preview"
proof -
  obtain plan where plan: "build_mixed_private_action_plan_inner sample_env sample_builder (sample_keys [1] 21) sample_forest
     [sample_utxo 9 0 0 5] sample_request 0 = Inr plan" using sample_mixed_plan ..
  from mixed_plan_matches_preview [OF sample_wallet(1-4) plan] plan show ?thesis by blast
qed

lemma mixed_plan_sound_witness:
  "\<exists>plan. build_mixed_private_action_plan_inner sample_env sample_builder (sample_keys [1] 21) sample_forest
     [sample_utxo 9 0 0 5] sample_request 0 = Inr plan \<and>
     list_all (tx_sound sample_env (sample_keys [1] 21) sample_forest [sample_utxo 9 0 0 5] 9) (mpl_chunks plan) \<and>
     pays_unshield (cps_execution (mpl_shape plan)) (mpl_public_outputs plan) 0 sample_leg"
proof -
  obtain plan where plan: "build_mixed_private_action_plan_inner sample_env sample_builder (sample_keys [1] 21) sample_forest
     [sample_utxo 9 0 0 5] sample_request 0 = Inr plan" using sample_mixed_plan ..
  from mixed_plan_sound [OF sample_wallet(1-4) plan] plan show ?thesis
    by (auto simp: sample_request_def mixed_legs_def) (simp add: sample_leg_def)
qed

end
