(* ===== verification/WalletSpec.thy ===== *)
theory WalletSpec
  imports WalletPending MixedSpec
begin

text \<open>
  What scanning, deltas and rewinds guarantee: the wallets they reach satisfy the hypotheses of plan
  building, reorganisations leave no trace, the pending overlay announces what confirmation will
  apply, and what a send encrypts is found by its recipient.
\<close>

section \<open>Wallets fit for planning\<close>

lemma nat_sum_bound: "\<forall>u \<in> set us. val u < b \<Longrightarrow> nat_sum us \<le> length us * b"
  by (induction us) (auto simp: nat_sum_def)

definition spendable :: "wallet_utxo list \<Rightarrow> utxo list" where
  "spendable ws = map wu_utxo (filter (\<lambda>w. \<not> is_spent w) ws)"

text \<open>
  Claim C14. The unspent notes of every wallet that scanning, rewinding and status refreshes can reach
  have the type plan building relies on: no position occurs twice, every position lies in its tree,
  the commitment, the public key and the blinded commitment of the metadata are those of the note, and
  fewer than \<open>2 ^ 128\<close> notes cannot overflow a sum of values.
\<close>

theorem reachable_wallet_spendable:
  assumes "wallet_reachable env keys ws" "length ws < 2 ^ 128"
  shows "distinct (map utxo_key (spendable ws)) \<and> local_positions (spendable ws) \<and> nat_sum (spendable ws) < 2 ^ 256 \<and>
    list_all (placed (env_hash env)) (spendable ws)"
proof -
  have ok: "distinct (map (\<lambda>w. utxo_key (wu_utxo w)) ws)" "\<forall>w \<in> set ws. placed (env_hash env) (wu_utxo w)"
    using reachable_wallet [OF assms(1)] by (simp_all add: wallet_keys_eq)
  have "nat_sum (spendable ws) \<le> length (spendable ws) * 2 ^ 128"
    using ok(2) by (intro nat_sum_bound) (auto simp: spendable_def placed_def val_def utxo_value_def)
  also have "\<dots> < 2 ^ 128 * 2 ^ 128"
    using assms(2) le_less_trans [OF length_filter_le] by (simp add: spendable_def)
  finally have "nat_sum (spendable ws) < 2 ^ 256" by simp
  with ok show ?thesis
    by (auto simp: spendable_def local_positions_def list_all_iff placed_def distinct_map_filter comp_def)
qed

section \<open>Reorganisations\<close>

definition before :: "u64 \<Rightarrow> wallet_utxo \<Rightarrow> bool" where
  "before b w \<longleftrightarrow> src_block_number (utxo_source (wu_utxo w)) < b \<and>
     (case wu_spent w of None \<Rightarrow> True | Some s \<Rightarrow> src_block_number s < b)"

lemma rewind_before: "list_all (before b) ws \<Longrightarrow> fst (rewind_wallet_utxos ws b) = ws"
proof -
  assume b: "list_all (before b) ws"
  then have "filter (\<lambda>w. src_block_number (utxo_source (wu_utxo w)) < b) ws = ws"
    by (simp add: list_all_iff before_def filter_id_conv)
  moreover have "\<not> rewind_spent b w" if "w \<in> set ws" for w
    using b that by (cases "wu_spent w") (fastforce simp: list_all_iff before_def rewind_spent_def)+
  ultimately show ?thesis by (auto simp: rewind_wallet_utxos_def Let_def intro!: map_idI)
qed

text \<open>The deltas of later blocks do not matter to a rewind.\<close>

lemma rewind_delta:
  assumes "distinct (wallet_keys ws)" "\<forall>s \<in> row_sources rows. b \<le> src_block_number s"
  shows "fst (rewind_wallet_utxos (apply_rows env keys ws rows) b) = fst (rewind_wallet_utxos ws b)"
proof -
  let ?d = "from_rows env rows keys" let ?s = "delta_spent env keys ?d"
  let ?new = "new_wallet_utxos ?s (wallet_keys ws) (wld_utxos ?d)"
  let ?clear = "\<lambda>w. if rewind_spent b w then w\<lparr>wu_spent := None\<rparr> else w"
  have late: "b \<le> src_block_number src" if "?s u = Some src" for u src
    using nullifier_sources_range(2) [OF delta_nullifiers(1)] that delta_nullifiers(3) assms(2)
    unfolding spent_source_for_utxo_def by blast
  have "filter (\<lambda>w. src_block_number (utxo_source (wu_utxo w)) < b) ?new = []"
    using new_utxos [of ?s "wallet_keys ws" "wld_utxos ?d"] delta_utxos assms(2)
    by (fastforce simp: filter_empty_conv not_less)
  moreover have "?clear (mark_spent ?s w) = ?clear w" for w
    using late by (auto simp: mark_spent_def rewind_spent_def is_spent_def split: option.splits)
  ultimately show ?thesis
    by (simp add: apply_delta_fst [OF assms(1)] rewind_wallet_utxos_def Let_def filter_map comp_def)
qed

lemma rewind_deltas:
  assumes "distinct (wallet_keys ws)" "\<forall>rows \<in> set rowss. \<forall>s \<in> row_sources rows. b \<le> src_block_number s"
  shows "fst (rewind_wallet_utxos (foldl (apply_rows env keys) ws rowss) b) = fst (rewind_wallet_utxos ws b)"
  using assms
proof (induction rowss arbitrary: ws)
  case (Cons rows rowss)
  have "fst (rewind_wallet_utxos (foldl (apply_rows env keys) (apply_rows env keys ws rows) rowss) b) =
      fst (rewind_wallet_utxos (apply_rows env keys ws rows) b)"
    by (rule Cons.IH) (use Cons.prems in \<open>simp_all add: apply_delta_keys(1)\<close>)
  also have "\<dots> = fst (rewind_wallet_utxos ws b)" by (rule rewind_delta) (use Cons.prems in simp_all)
  finally show ?case by simp
qed simp

text \<open>
  Claim C5. A chain reorganisation leaves no trace: let a wallet hold only blocks before \<open>b\<close>, apply
  the deltas of any blocks from \<open>b\<close> on, rewind to \<open>b\<close> and apply the deltas of the blocks that replaced
  them. The result is the wallet that saw only the replacing blocks.
\<close>

theorem reorganisation_leaves_no_trace:
  assumes "wallet_reachable env keys ws" "list_all (before b) ws"
    and "\<forall>rows \<in> set orphaned. \<forall>s \<in> row_sources rows. b \<le> src_block_number s"
  shows "foldl (apply_rows env keys) (fst (rewind_wallet_utxos (foldl (apply_rows env keys) ws orphaned) b)) canonical =
    foldl (apply_rows env keys) ws canonical"
proof -
  have "distinct (wallet_keys ws)" using reachable_wallet [OF assms(1)] ..
  from rewind_deltas [OF this assms(3), of env keys] rewind_before [OF assms(2)] show ?thesis by simp
qed

section \<open>The effect of a delta\<close>

definition nullified :: "'p env \<Rightarrow> viewing_key_data \<Rightarrow> wallet_scan_input_rows \<Rightarrow> utxo \<Rightarrow> bool" where
  "nullified env keys rows u \<longleftrightarrow> (\<exists>r \<in> set (row_nullifiers rows).
     utxo_tree u = inl_tree_number r \<and> nullifier (env_hash env) (vk_nullifying_key keys) u = inl_nullifier r)"

lemma delta_spent_iff: "delta_spent env keys (from_rows env rows keys) u \<noteq> None \<longleftrightarrow> nullified env keys rows u"
proof -
  have "delta_spent env keys (from_rows env rows keys) u \<noteq> None \<longleftrightarrow>
      (utxo_tree u, nullifier (env_hash env) (vk_nullifying_key keys) u) \<in> (\<lambda>r. (inl_tree_number r, inl_nullifier r)) ` set (row_nullifiers rows)"
    unfolding spent_source_for_utxo_def nullifier_sources_None [OF delta_nullifiers(1)] delta_nullifiers(2) by simp
  also have "\<dots> \<longleftrightarrow> nullified env keys rows u" by (simp add: nullified_def image_iff)
  finally show ?thesis .
qed

lemma is_spent_mark: "is_spent (mark_spent f w) \<longleftrightarrow> is_spent w \<or> f (wu_utxo w) \<noteq> None"
  by (auto simp: mark_spent_def is_spent_def split: option.splits)

lemma delta_entries:
  assumes "distinct (wallet_keys ws)" and ws': "ws' = apply_rows env keys ws rows"
  shows "map wu_utxo (take (length ws) ws') = map wu_utxo ws"
    "i < length ws \<Longrightarrow> is_spent (ws' ! i) \<longleftrightarrow> is_spent (ws ! i) \<or> nullified env keys rows (wu_utxo (ws ! i))"
    "w \<in> set (drop (length ws) ws') \<Longrightarrow> wu_utxo w \<in> set (wld_utxos (from_rows env rows keys)) \<and>
       (is_spent w \<longleftrightarrow> nullified env keys rows (wu_utxo w))"
proof -
  let ?d = "from_rows env rows keys" let ?s = "delta_spent env keys ?d"
  let ?new = "new_wallet_utxos ?s (wallet_keys ws) (wld_utxos ?d)"
  have eq: "ws' = map (mark_spent ?s) ws @ ?new" by (simp add: ws' apply_delta_fst [OF assms(1)])
  show "map wu_utxo (take (length ws) ws') = map wu_utxo ws" by (simp add: eq)
  show "i < length ws \<Longrightarrow> is_spent (ws' ! i) \<longleftrightarrow> is_spent (ws ! i) \<or> nullified env keys rows (wu_utxo (ws ! i))"
    by (simp add: eq nth_append is_spent_mark delta_spent_iff [simplified])
  assume "w \<in> set (drop (length ws) ws')"
  then have "w \<in> set ?new" by (simp add: eq)
  with new_utxos [of ?s "wallet_keys ws" "wld_utxos ?d"] delta_spent_iff [of env keys rows "wu_utxo w", simplified]
  show "wu_utxo w \<in> set (wld_utxos ?d) \<and> (is_spent w \<longleftrightarrow> nullified env keys rows (wu_utxo w))"
    by (auto simp: is_spent_def)
qed

text \<open>
  Claim C11. Applying scanned rows to a reachable wallet keeps its notes in place, adds exactly the
  found notes at new positions, and a note is spent afterwards exactly when it was spent before or
  its nullifier is among the rows of its tree. Applying the same rows again changes nothing and
  reports so.
\<close>

theorem apply_delta_effect:
  assumes "wallet_reachable env keys ws" "ws' = apply_rows env keys ws rows"
  shows "map wu_utxo (take (length ws) ws') = map wu_utxo ws \<and>
    set (wallet_keys ws') = set (wallet_keys ws) \<union> utxo_key ` set (wld_utxos (from_rows env rows keys)) \<and>
    (\<forall>i < length ws. is_spent (ws' ! i) \<longleftrightarrow> is_spent (ws ! i) \<or> nullified env keys rows (wu_utxo (ws ! i))) \<and>
    (\<forall>w \<in> set (drop (length ws) ws'). wu_utxo w \<in> set (wld_utxos (from_rows env rows keys)) \<and>
       (is_spent w \<longleftrightarrow> nullified env keys rows (wu_utxo w))) \<and>
    apply_rows env keys ws' rows = ws' \<and>
    \<not> wda_changed (snd (apply_wallet_delta_to_vec_with_outcome env keys ws' (from_rows env rows keys)))"
proof -
  let ?d = "from_rows env rows keys" let ?s = "delta_spent env keys ?d"
  have dist: "distinct (wallet_keys ws)" using reachable_wallet [OF assms(1)] ..
  note ent = delta_entries [OF dist assms(2)] and ks = apply_delta_keys [OF dist, of env keys ?d, folded assms(2)]
  have old: "is_spent w" if "w \<in> set ws'" "?s (wu_utxo w) \<noteq> None" for w
  proof (cases "w \<in> set (drop (length ws) ws')")
    case True
    with ent(3) that(2) show ?thesis by (simp add: delta_spent_iff [simplified])
  next
    case False
    with that(1) obtain i where i: "i < length ws" "w = ws' ! i"
      by (metis Un_iff append_take_drop_id in_set_takeD in_set_conv_nth length_take min_less_iff_conj nth_take set_append)
    then have "wu_utxo w = wu_utxo (ws ! i)"
      using arg_cong [OF ent(1), of "\<lambda>us. us ! i"] assms(2) by (auto simp: apply_delta_fst [OF dist] nth_append)
    with i ent(2) [of i] that(2) show ?thesis by (simp add: delta_spent_iff [simplified])
  qed
  have "newly_spent ?s ws' = []" using old by (auto simp: newly_spent_def filter_empty_conv)
  then have same: "\<not> wda_changed (snd (apply_wallet_delta_to_vec_with_outcome env keys ws' ?d))"
    using ks by (simp add: apply_delta_changed [OF ks(1)])
  have "new_wallet_utxos ?s (wallet_keys ws') (wld_utxos ?d) = []"
    using new_utxos [of ?s "wallet_keys ws'" "wld_utxos ?d"] ks(2) by (cases "new_wallet_utxos ?s (wallet_keys ws') (wld_utxos ?d)") auto
  moreover have "map (mark_spent ?s) ws' = ws'" using old by (intro map_idI) (auto simp: mark_spent_def split: option.splits)
  ultimately have "apply_rows env keys ws' rows = ws'" by (simp add: apply_delta_fst [OF ks(1)])
  with ks same show ?thesis by (intro conjI allI impI ballI) (simp_all add: ent)
qed

lemma sorted_sort_by_key: "sorted (map f (sort_by (\<lambda>a b. cmp (f a) (f b)) xs))"
  unfolding sorted_map
  by (rule sorted_wrt_mono_rel [OF _ total_cmp.sorted_sort_by [OF total_cmp_key]]) (auto simp: cmp_def split: if_splits)

text \<open>
  Claim C12. The pending overlay of unconfirmed rows announces what applying them will do: its new
  notes are those the delta adds, with the same spent marks, and its pending spends are the positions
  of the notes the delta turns from unspent to spent, both sorted by position.
\<close>

theorem overlay_announces_delta:
  assumes "wallet_reachable env keys ws" "ws' = apply_rows env keys ws rows"
    and "overlay = pending_overlay_from_delta (env_hash env) keys ws (from_rows env rows keys)"
  shows "mset (wpo_new_utxos overlay) = mset (drop (length ws) ws') \<and>
    set (map wps_key (wpo_pending_spent overlay)) =
      {utxo_key (wu_utxo (ws ! i)) | i. i < length ws \<and> \<not> is_spent (ws ! i) \<and> is_spent (ws' ! i)} \<and>
    sorted (map (\<lambda>w. utxo_key (wu_utxo w)) (wpo_new_utxos overlay)) \<and> sorted (map wps_key (wpo_pending_spent overlay))"
proof -
  let ?d = "from_rows env rows keys" let ?s = "delta_spent env keys ?d"
  have dist: "distinct (wallet_keys ws)" using reachable_wallet [OF assms(1)] ..
  have "mset (wpo_new_utxos overlay) = mset (drop (length ws) ws')"
    by (simp add: assms(2,3) apply_delta_fst [OF dist] pending_overlay_from_delta_def Let_def)
  moreover have "set (map wps_key (wpo_pending_spent overlay)) =
      {utxo_key (wu_utxo w) | w. w \<in> set ws \<and> \<not> is_spent w \<and> ?s (wu_utxo w) \<noteq> None}"
    by (force simp: assms(3) pending_overlay_from_delta_def Let_def set_map_filter from_source_def wps_key_def utxo_key_def image_iff)
  moreover have "\<dots> = {utxo_key (wu_utxo (ws ! i)) | i. i < length ws \<and> \<not> is_spent (ws ! i) \<and> is_spent (ws' ! i)}"
    using delta_entries(2) [OF dist assms(2)] by (auto simp: delta_spent_iff [simplified] in_set_conv_nth)
  ultimately show ?thesis by (simp add: assms(3) pending_overlay_from_delta_def Let_def sorted_sort_by_key)
qed

section \<open>From a send to the recipient's wallet\<close>

text \<open>
  The random source gives as many bytes as asked for, and nonces of 16 bytes; the public viewing key of
  a wallet belongs to its private one.
\<close>

definition random_ok :: "'p env \<Rightarrow> bool" where
  "random_ok env \<longleftrightarrow> (\<forall>d n. length (env_rand env d n) = n) \<and> (\<forall>d iv. env_iv env d = Some iv \<longrightarrow> length iv = 16)"

definition keys_ok :: "'p env \<Rightarrow> viewing_key_data \<Rightarrow> bool" where
  "keys_ok env keys \<longleftrightarrow> vk_viewing_public_key keys = derive_viewing_public_key (env_curve env) (vk_viewing_private_key keys)"

lemma private_note_scanned:
  assumes "aead_ok (env_aes env)" "curve_ok (env_curve env) base" "random_ok env" "keys_ok env sender" "keys_ok env keys"
    and "unat amount < 2 ^ 128"
    and "private_note env d (address_data sender) (address_data keys) token amount (vk_viewing_private_key sender) = Inr ((n, c), d')"
    and "itc_hash row = commitment (env_hash env) n" "itc_ciphertext row = nc_ciphertext c" "itc_memo row = nc_memo c"
      "itc_blinded_sender_viewing_key row = nc_blinded_sender_viewing_key c"
  shows "\<exists>u. scan_transact env keys row = Some u \<and> utxo_note u = n \<and>
    utxo_key u = normalize_tree_position (itc_tree_number row) (itc_tree_position row)"
proof -
  let ?r = "address_data keys"
  have n: "n = new_change (env_hash env) (ad_master_public_key ?r) token amount (env_rand env d 16)"
    and enc: "try_from_note (env_aes env) (env_curve env) (env_iv env (d + 2)) (env_rand env (d + 1) 15) n (address_data sender) ?r
      (vk_viewing_private_key sender) = Inr c"
    using assms(7) by (auto simp: private_note_def Let_def split: sum.splits)
  have ok: "note_ok n" using assms(3,6) by (simp add: n note_ok_def new_change_def random_ok_def)
  have pub: "ad_viewing_public_key (address_data sender) = derive_viewing_public_key (env_curve env) (vk_viewing_private_key sender)"
    "ad_viewing_public_key ?r = derive_viewing_public_key (env_curve env) (vk_viewing_private_key keys)"
    using assms(4,5) by (simp_all add: keys_ok_def address_data_def)
  obtain key m where key: "shared_symmetric_key (env_curve env) (vk_viewing_private_key keys) (fb32_bytes (nc_blinded_sender_viewing_key c)) = Inr key"
    and dec: "decrypt_in_place_16b_iv (env_aes env) key (take 16 (fb32_bytes (nc_ciphertext c ! 0)))
       (drop 16 (fb32_bytes (nc_ciphertext c ! 0)))
       (fb32_bytes (nc_ciphertext c ! 1) @ fb32_bytes (nc_ciphertext c ! 2) @ fb32_bytes (nc_ciphertext c ! 3) @ nc_memo c) =
       Inr (v2_plaintext m n)"
    by (rule try_from_note_opened [OF assms(1,2) ok _ pub enc]) (use assms(3) in \<open>auto simp: random_ok_def\<close>)
  have "decrypt_v2 (env_aes env) (env_hash env) (nc_ciphertext c) (nc_memo c) key (vk_master_public_key keys) = Inr n"
    by (simp add: decrypt_v2_def split_iv_tag_def Let_def dec [simplified] v2_plaintext_parts [OF ok])
      (simp add: n new_change_def address_data_def)
  with key assms(8-11) show ?thesis
    by (auto simp: scan_transact_def Let_def case_prod_beta utxo_new_def utxo_key_def)
qed

text \<open>The rows of a log are in the rows of a successful scan.\<close>

lemma foldl_keeps: "(\<And>s x. f (g s x) = f s) \<Longrightarrow> f (foldl g s xs) = f s"
  by (induction xs arbitrary: s) auto

lemma push_shield_transacts:
  "row_transact_commitments (push_shield_event_rows hash ab a b cs ss src rows) = row_transact_commitments rows"
  unfolding push_shield_event_rows_def by (rule foldl_keeps) (simp add: Let_def split: prod.split)

lemma scan_log_transacts:
  "scan_log hash ab ev ts log rows = Inr rows' \<Longrightarrow> set (row_transact_commitments rows) \<subseteq> set (row_transact_commitments rows')"
  by (auto simp: scan_log_def shield_log_def push_shield_transacts Let_def split: if_splits)

lemma scan_logs_transacts:
  "fold_result (scan_log hash ab ev ts) logs rows = Inr rows' \<Longrightarrow>
     set (row_transact_commitments rows) \<subseteq> set (row_transact_commitments rows')"
proof (induction logs arbitrary: rows)
  case (Cons log logs)
  then obtain r1 where "scan_log hash ab ev ts log rows = Inr r1" "fold_result (scan_log hash ab ev ts) logs r1 = Inr rows'" by auto
  with Cons.IH scan_log_transacts show ?case by blast
qed simp

definition transact_log :: "event_abi \<Rightarrow> raw_log \<Rightarrow> transact_event \<Rightarrow> bool" where
  "transact_log ev log event \<longleftrightarrow> (\<exists>ts. log_topics log = transact_signature ev # ts) \<and>
     decode_transact ev (log_topics log) (log_data log) = Some event"

lemma transact_log_rows:
  assumes "from_logs hash ab ev logs ts = Inr rows" "log \<in> set logs" "transact_log ev log event"
    and "i < length (te_hash event)" "i < length (te_ciphertext event)"
  shows "\<exists>row \<in> set (row_transact_commitments rows).
    itc_tree_number row = ucast (te_tree_number event) \<and> itc_tree_position row = ucast (te_start_position event) + word_of_nat i \<and>
    itc_hash row = u256_from_be_slice (fb32_bytes (te_hash event ! i)) \<and> itc_ciphertext row = cc_ciphertext (te_ciphertext event ! i) \<and>
    itc_memo row = cc_memo (te_ciphertext event ! i) \<and>
    itc_blinded_sender_viewing_key row = cc_blinded_sender_viewing_key (te_ciphertext event ! i)"
proof -
  obtain l1 l2 where logs: "logs = l1 @ log # l2" using assms(2) by (auto dest: split_list)
  have app: "fold_result f (xs @ ys) s = bind_result (fold_result f xs s) (fold_result f ys)" for f :: "raw_log \<Rightarrow> wallet_scan_input_rows \<Rightarrow> scan_failure + _" and xs ys s
    by (induction xs arbitrary: s) (auto simp: bind_result_def split: sum.splits)
  from assms(1) obtain r1 r2 where one: "scan_log hash ab ev ts log r1 = Inr r2"
    and rest: "fold_result (scan_log hash ab ev ts) l2 r2 = Inr rows"
    by (auto simp: from_logs_def logs app)
  from one assms(3) obtain n p src where n: "to_u32 (te_tree_number event) = Inr n" "to_u64 (te_start_position event) = Inr p"
    and r2: "r2 = r1\<lparr>row_transact_commitments := row_transact_commitments r1 @ transact_rows n p event src\<rparr>"
    by (auto simp: scan_log_def transact_log_def decode_log_def)
  have np: "n = ucast (te_tree_number event)" "p = ucast (te_start_position event)"
    using n by (auto simp: to_u32_def to_u64_def split: if_splits)
  let ?c = "te_ciphertext event ! i"
  let ?row = "\<lparr>itc_tree_number = n, itc_tree_position = p + word_of_nat i,
      itc_hash = u256_from_be_slice (fb32_bytes (te_hash event ! i)), itc_ciphertext = cc_ciphertext ?c,
      itc_blinded_sender_viewing_key = cc_blinded_sender_viewing_key ?c,
      itc_blinded_receiver_viewing_key = cc_blinded_receiver_viewing_key ?c,
      itc_annotation_data = cc_annotation_data ?c, itc_memo = cc_memo ?c, itc_source = src\<rparr>"
  have "(i, ?c) \<in> set (enumerate 0 (te_ciphertext event))" using assms(5) by (simp add: in_set_enumerate_eq)
  with assms(4) have "?row \<in> set (transact_rows n p event src)" by (force simp: transact_rows_def)
  then have "?row \<in> set (row_transact_commitments rows)" using scan_logs_transacts [OF rest] by (auto simp: r2)
  then show ?thesis by (rule bexI [rotated]) (simp add: np)
qed

lemma send_outputs_note:
  assumes "build_send_outputs env d token amount change sender recipient fee key = Inr (outs, d')"
  obtains i c d1 d2 where "private_note env d1 sender recipient token amount key = Inr ((so_recipient_note outs, c), d2)"
    "i < length (so_outputs outs)" "i < length (so_commitment_ciphertext outs)"
    "so_outputs outs ! i = so_recipient_note outs" "so_commitment_ciphertext outs ! i = c"
proof -
  from assms obtain o1 c1 fn d1 n c d2 o2 c2 cn where
    fee: "push_broadcaster_fee_output env d [] [] sender fee key = Inr ((o1, c1, fn), d1)"
    and n: "private_note env d1 sender recipient token amount key = Inr ((n, c), d2)"
    and change: "push_change_output env d2 (o1 @ [n]) (c1 @ [c]) sender token change key = Inr ((o2, c2, cn), d')"
    and outs: "outs = \<lparr>so_outputs = o2, so_commitment_ciphertext = c2, so_broadcaster_fee_note = fn,
      so_recipient_note = n, so_change_note = cn\<rparr>"
    by (auto simp: build_send_outputs_def)
  have len: "length c1 = length o1" using push_fee_Inr [OF fee] by auto
  obtain os cs where "o2 = o1 @ [n] @ os" "c2 = c1 @ [c] @ cs"
    using change by (auto simp: push_change_output_def split: if_splits)
  with len n show ?thesis by (intro that [of d1 c d2 "length o1"]) (simp_all add: outs nth_append)
qed

text \<open>
  Claim C4. What is sent is received: when the outputs a send builds are published by a \<open>Transact\<close>
  event, every successful scan of logs with that event by the recipient finds the note of the amount
  and the token, if the amount fits the 128 bits of the ciphertext.
\<close>

theorem sent_note_received:
  assumes "aead_ok (env_aes env)" "curve_ok (env_curve env) base" "random_ok env" "keys_ok env sender" "keys_ok env keys"
    and "unat amount < 2 ^ 128"
    and "build_send_outputs env d token amount change (address_data sender) (address_data keys) fee
      (vk_viewing_private_key sender) = Inr (outs, d')"
    and "transact_log ev log event" "te_hash event = map (\<lambda>n. fb32 (u256_to_be_bytes (commitment (env_hash env) n))) (so_outputs outs)"
    and "te_ciphertext event = map ciphertext_from_note (so_commitment_ciphertext outs)"
    and "log \<in> set logs" "parse_wallet_delta_from_logs env ev logs timestamps keys = Inr delta"
  shows "\<exists>u \<in> set (wld_utxos delta). utxo_note u = so_recipient_note outs \<and>
    note_value (utxo_note u) = amount \<and> note_token_hash (utxo_note u) = token_hash_of token"
proof -
  obtain i c d1 d2 where n: "private_note env d1 (address_data sender) (address_data keys) token amount (vk_viewing_private_key sender) =
      Inr ((so_recipient_note outs, c), d2)"
    and i: "i < length (so_outputs outs)" "i < length (so_commitment_ciphertext outs)"
      "so_outputs outs ! i = so_recipient_note outs" "so_commitment_ciphertext outs ! i = c"
    by (rule send_outputs_note [OF assms(7)])
  obtain rows where rows: "from_logs (env_hash env) (env_abi env) ev logs timestamps = Inr rows" and delta: "delta = from_rows env rows keys"
    using assms(12) by (auto simp: parse_wallet_delta_from_logs_def)
  obtain row where row: "row \<in> set (row_transact_commitments rows)"
    "itc_hash row = u256_from_be_slice (fb32_bytes (te_hash event ! i))" "itc_ciphertext row = cc_ciphertext (te_ciphertext event ! i)"
    "itc_memo row = cc_memo (te_ciphertext event ! i)" "itc_blinded_sender_viewing_key row = cc_blinded_sender_viewing_key (te_ciphertext event ! i)"
    using transact_log_rows [OF rows assms(11,8), of i] i(1,2) by (auto simp: assms(9,10))
  have hash: "itc_hash row = commitment (env_hash env) (so_recipient_note outs)"
    using i by (simp add: row(2) assms(9) fb32_bytes_fb32 from_be_u256)
  have rest: "itc_ciphertext row = nc_ciphertext c" "itc_memo row = nc_memo c" "itc_blinded_sender_viewing_key row = nc_blinded_sender_viewing_key c"
    using i by (simp_all add: row(3-5) assms(10) ciphertext_from_note_def)
  obtain u where u: "scan_transact env keys row = Some u" "utxo_note u = so_recipient_note outs"
    using private_note_scanned [OF assms(1-6) n hash rest] by blast
  have "u \<in> set (wld_utxos delta)"
    using row(1) u(1) by (auto simp: delta from_rows_def from_indexed_inputs_def set_map_filter)
  moreover have "note_of token amount (so_recipient_note outs)"
    using private_note_Inr [OF n] by (simp add: note_to_def)
  ultimately show ?thesis using u(2) by (intro bexI [of _ u]) (auto simp: note_of_def)
qed

section \<open>Concrete wallets\<close>

definition sample_events :: "transact_event \<Rightarrow> event_abi" where
  "sample_events event =
     \<lparr>transact_signature = 1, shield_signature = 2, legacy_shield_signature = 3, nullifiers_signature = 4, nullified_signature = 5,
      commitment_batch_signature = 6, generated_batch_signature = 7, decode_transact = (\<lambda>_ _. Some event),
      decode_shield = (\<lambda>_ _. None), decode_legacy_shield = (\<lambda>_ _. None), decode_nullifiers = (\<lambda>_ _. None),
      decode_nullified = (\<lambda>_ _. None), decode_commitment_batch = (\<lambda>_ _. None), decode_generated_batch = (\<lambda>_ _. None)\<rparr>"

definition sample_log :: raw_log where
  "sample_log = \<lparr>log_topics = [1], log_data = [], log_block_number = Some 8, log_transaction_hash = Some 99\<rparr>"

lemma sample_scan:
  assumes "unat (te_tree_number event) < 2 ^ 32" "unat (te_start_position event) < 2 ^ 64"
  shows "\<exists>delta. parse_wallet_delta_from_logs env (sample_events event) [sample_log] [8 \<mapsto> 9] keys = Inr delta"
  using assms
  by (simp add: parse_wallet_delta_from_logs_def from_logs_def scan_log_def sample_events_def sample_log_def decode_log_def
      to_u32_def to_u64_def source_from_log_def)

lemma sample_env_ok:
  "aead_ok (env_aes sample_env)" "curve_ok (env_curve sample_env) 3" "random_ok sample_env" "keys_ok sample_env (sample_keys seed mpk)"
  by (auto simp: sample_env_def clear_aead_ok word_curve_ok random_ok_def keys_ok_def sample_keys_def)

lemma sent_note_received_witness:
  "\<exists>outs d' event delta. build_send_outputs sample_env 0 9 5 0 (address_data (sample_keys [1] 21)) (address_data (sample_keys [2] 22)) None
      (vk_viewing_private_key (sample_keys [1] 21)) = Inr (outs, d') \<and>
     parse_wallet_delta_from_logs sample_env (sample_events event) [sample_log] [8 \<mapsto> 9] (sample_keys [2] 22) = Inr delta \<and>
     list_ex (\<lambda>u. note_value (utxo_note u) = 5) (wld_utxos delta)"
proof -
  let ?s = "sample_keys [1] 21" and ?r = "sample_keys [2] 22"
  have "\<exists>outs d'. build_send_outputs sample_env 0 9 5 0 (address_data ?s) (address_data ?r) None (vk_viewing_private_key ?s) = Inr (outs, d')"
    by (rule send_outputs_ok [OF sample_encrypts, where rs = UNIV]) simp_all
  then obtain outs d' where outs: "build_send_outputs sample_env 0 9 5 0 (address_data ?s) (address_data ?r) None
      (vk_viewing_private_key ?s) = Inr (outs, d')" by blast
  let ?e = "\<lparr>te_tree_number = 0, te_start_position = 0,
    te_hash = map (\<lambda>n. fb32 (u256_to_be_bytes (commitment (env_hash sample_env) n))) (so_outputs outs),
    te_ciphertext = map ciphertext_from_note (so_commitment_ciphertext outs)\<rparr>"
  obtain delta where delta: "parse_wallet_delta_from_logs sample_env (sample_events ?e) [sample_log] [8 \<mapsto> 9] ?r = Inr delta"
    using sample_scan [of ?e] by auto
  have "transact_log (sample_events ?e) sample_log ?e" by (simp add: transact_log_def sample_events_def sample_log_def)
  from sent_note_received [OF sample_env_ok sample_env_ok(4) _ outs this _ _ _ delta] outs delta show ?thesis
    by (auto simp: list_ex_iff sample_env_ok)
qed

definition sample_source :: "u64 \<Rightarrow> utxo_source" where
  "sample_source block = \<lparr>src_tx_hash = 1, src_block_number = block, src_block_timestamp = 0\<rparr>"

text \<open>A shield into tree 6, and the nullifier of a note of tree 7.\<close>

definition sample_rows :: "u64 \<Rightarrow> wallet_scan_input_rows" where
  "sample_rows block =
     no_rows\<lparr>row_shield_commitments := [\<lparr>isc_tree_number = 6, isc_tree_position = 3,
         isc_preimage = \<lparr>cp_npk = 4, cp_token = token_erc20 9, cp_value = 5\<rparr>,
         isc_shield_ciphertext = \<lparr>sc_encrypted_bundle = [0, 0, 0], sc_shield_key = 3072\<rparr>, isc_source = sample_source block\<rparr>],
       row_nullifiers := [\<lparr>inl_tree_number = 7, inl_nullifier = 0, inl_source = sample_source block\<rparr>]\<rparr>"

lemma sample_shield:
  "scan_shield_commitment sample_env keys c = Some (utxo_new (env_hash sample_env)
     (note_with_random (env_abi sample_env) (isc_preimage c) (take 16 (fb32_bytes (sc_encrypted_bundle (isc_shield_ciphertext c) ! 1))))
     (fst (normalize_tree_position (isc_tree_number c) (isc_tree_position c)))
     (snd (normalize_tree_position (isc_tree_number c) (isc_tree_position c))) (isc_source c) ShieldCommitment)"
  by (simp add: scan_shield_commitment_def sample_env_def shared_symmetric_key_def word_curve_def decrypt_shield_random_def
      decrypt_in_place_16b_iv_def clear_aead_def map_note_error_def split_iv_tag_def Let_def case_prod_beta)

lemma sample_delta:
  "\<exists>u. wld_utxos (from_rows sample_env (sample_rows block) keys) = [u] \<and> utxo_key u = (6, 3) \<and> utxo_source u = sample_source block"
  by (simp add: from_rows_def from_indexed_inputs_def sample_rows_def no_rows_def List.map_filter_def sample_shield
      utxo_key_def normalize_tree_position_def TREE_LEAF_COUNT_def TREE_DEPTH_def)
     (simp add: utxo_new_def)

abbreviation sample_wallet_at :: "u64 \<Rightarrow> wallet_utxo list" where
  "sample_wallet_at block \<equiv> apply_rows sample_env (sample_keys [1] 21) [] (sample_rows block)"

lemma sample_wallet_at:
  "wallet_reachable sample_env (sample_keys [1] 21) (sample_wallet_at block)" "length (sample_wallet_at block) = 1"
  "block < b \<Longrightarrow> list_all (before b) (sample_wallet_at block)"
proof -
  obtain u where u: "wld_utxos (from_rows sample_env (sample_rows block) (sample_keys [1] 21)) = [u]" "utxo_key u = (6, 3)"
    "utxo_source u = sample_source block" using sample_delta by blast
  have "\<not> nullified sample_env (sample_keys [1] 21) (sample_rows block) u"
    using u(2) by (simp add: nullified_def sample_rows_def no_rows_def utxo_key_def)
  then have spent: "delta_spent sample_env (sample_keys [1] 21) (from_rows sample_env (sample_rows block) (sample_keys [1] 21)) u = None"
    using delta_spent_iff [of sample_env "sample_keys [1] 21" "sample_rows block" u] by blast
  show "wallet_reachable sample_env (sample_keys [1] 21) (sample_wallet_at block)"
    by (rule wallet_reachable.delta [OF wallet_reachable.empty])
  show "length (sample_wallet_at block) = 1" by (simp add: apply_delta_fst u(1))
  show "block < b \<Longrightarrow> list_all (before b) (sample_wallet_at block)"
    by (simp add: apply_delta_fst u(1) spent before_def u(3)) (simp add: sample_source_def)
qed

lemma reachable_wallet_spendable_witness:
  "local_positions (spendable (sample_wallet_at 5)) \<and> nat_sum (spendable (sample_wallet_at 5)) < 2 ^ 256 \<and> length (sample_wallet_at 5) = 1"
  using reachable_wallet_spendable [OF sample_wallet_at(1) [of 5]] sample_wallet_at(2) [of 5] by simp

lemma sample_row_sources: "row_sources (sample_rows block) = {sample_source block}"
  by (simp add: row_sources_def sample_rows_def no_rows_def)

lemma reorganisation_leaves_no_trace_witness:
  "foldl (apply_rows sample_env (sample_keys [1] 21)) (fst (rewind_wallet_utxos
       (foldl (apply_rows sample_env (sample_keys [1] 21)) (sample_wallet_at 5) [sample_rows 6, sample_rows 7]) 6)) [sample_rows 8] =
     foldl (apply_rows sample_env (sample_keys [1] 21)) (sample_wallet_at 5) [sample_rows 8]"
  by (rule reorganisation_leaves_no_trace [OF sample_wallet_at(1) sample_wallet_at(3)])
    (simp_all add: sample_row_sources, simp add: sample_source_def)

lemma apply_delta_effect_witness:
  "set (wallet_keys (sample_wallet_at 5)) = {(6, 3)} \<and>
     \<not> wda_changed (snd (apply_wallet_delta_to_vec_with_outcome sample_env (sample_keys [1] 21) (sample_wallet_at 5)
       (from_rows sample_env (sample_rows 5) (sample_keys [1] 21))))"
  using apply_delta_effect [OF wallet_reachable.empty refl, of sample_env "sample_keys [1] 21" "sample_rows 5"]
    sample_delta [of 5 "sample_keys [1] 21"] by auto

lemma overlay_announces_delta_witness:
  "mset (wpo_new_utxos (pending_overlay_from_delta (env_hash sample_env) (sample_keys [1] 21) []
     (from_rows sample_env (sample_rows 5) (sample_keys [1] 21)))) = mset (sample_wallet_at 5)"
  using overlay_announces_delta [OF wallet_reachable.empty refl refl, of sample_env "sample_keys [1] 21" "sample_rows 5"] by simp

end
