(* ===== verification/Gas.thy ===== *)
theory Gas
  imports TxTypes
begin

text \<open>
  \<open>railgun-wallet/src/tx/gas.rs\<close>: the calibrated gas model. Gas is a \<open>u64\<close> with saturating
  arithmetic, counts are \<open>usize\<close> values. The lemmas read every estimate as a natural number capped at
  the largest \<open>u64\<close>, on which the bounds are proved.
\<close>

section \<open>Model\<close>

datatype gas_estimate_mode = UpperBound | Expected

record railgun_gas_model =
  gm_transact_call :: u64
  gm_transaction :: u64
  gm_nullifier :: u64
  gm_commitment :: u64
  gm_leaf :: u64
  gm_unshield :: u64
  gm_tree_update :: u64
  gm_tree_hash :: u64
  gm_tree_write :: u64
  gm_shield_call :: u64
  gm_shield_request :: u64
  gm_relay_call :: u64
  gm_relay_action :: u64
  gm_executor_call :: u64

definition ETHEREUM_GAS_MODEL :: railgun_gas_model where
  "ETHEREUM_GAS_MODEL =
     \<lparr>gm_transact_call = 14900, gm_transaction = 292900, gm_nullifier = 32000, gm_commitment = 12000, gm_leaf = 6000,
      gm_unshield = 135500, gm_tree_update = 193800, gm_tree_hash = 30000, gm_tree_write = 5000, gm_shield_call = 19400,
      gm_shield_request = 104900, gm_relay_call = 10000, gm_relay_action = 13700, gm_executor_call = 91900\<rparr>"

definition POLYGON_GAS_MODEL :: railgun_gas_model where
  "POLYGON_GAS_MODEL =
     \<lparr>gm_transact_call = 211000, gm_transaction = 339000, gm_nullifier = 59800, gm_commitment = 12000, gm_leaf = 6000,
      gm_unshield = 183100, gm_tree_update = 263100, gm_tree_hash = 30000, gm_tree_write = 5000, gm_shield_call = 75100,
      gm_shield_request = 110600, gm_relay_call = 10000, gm_relay_action = 0, gm_executor_call = 91900\<rparr>"

definition fieldwise_max :: "railgun_gas_model \<Rightarrow> railgun_gas_model \<Rightarrow> railgun_gas_model" where
  "fieldwise_max a b =
     \<lparr>gm_transact_call = max (gm_transact_call a) (gm_transact_call b), gm_transaction = max (gm_transaction a) (gm_transaction b),
      gm_nullifier = max (gm_nullifier a) (gm_nullifier b), gm_commitment = max (gm_commitment a) (gm_commitment b),
      gm_leaf = max (gm_leaf a) (gm_leaf b), gm_unshield = max (gm_unshield a) (gm_unshield b),
      gm_tree_update = max (gm_tree_update a) (gm_tree_update b), gm_tree_hash = max (gm_tree_hash a) (gm_tree_hash b),
      gm_tree_write = max (gm_tree_write a) (gm_tree_write b), gm_shield_call = max (gm_shield_call a) (gm_shield_call b),
      gm_shield_request = max (gm_shield_request a) (gm_shield_request b), gm_relay_call = max (gm_relay_call a) (gm_relay_call b),
      gm_relay_action = max (gm_relay_action a) (gm_relay_action b),
      gm_executor_call = max (gm_executor_call a) (gm_executor_call b)\<rparr>"

definition DEFAULT_GAS_MODEL :: railgun_gas_model where
  "DEFAULT_GAS_MODEL = fieldwise_max ETHEREUM_GAS_MODEL POLYGON_GAS_MODEL"

record transact_gas_shape =
  tgs_transactions :: nat
  tgs_inputs :: nat
  tgs_outputs :: nat
  tgs_unshields :: nat

definition inserted_leaves :: "transact_gas_shape \<Rightarrow> nat" where
  "inserted_leaves shape = tgs_outputs shape - tgs_unshields shape"

definition usize_saturating_add :: "nat \<Rightarrow> nat \<Rightarrow> nat" where
  "usize_saturating_add a b = min (a + b) (2 ^ 64 - 1)"

definition gas_shape_from_transactions :: "transaction_shape list \<Rightarrow> transact_gas_shape" where
  "gas_shape_from_transactions transactions =
     foldl (\<lambda>shape t. \<lparr>tgs_transactions = usize_saturating_add (tgs_transactions shape) 1,
         tgs_inputs = usize_saturating_add (tgs_inputs shape) (ts_input_count t),
         tgs_outputs = usize_saturating_add (tgs_outputs shape) (ts_output_count t),
         tgs_unshields = usize_saturating_add (tgs_unshields shape) (if ts_has_unshield t then 1 else 0)\<rparr>)
       \<lparr>tgs_transactions = 0, tgs_inputs = 0, tgs_outputs = 0, tgs_unshields = 0\<rparr> transactions"

definition for_chain :: "u64 \<Rightarrow> railgun_gas_model" where
  "for_chain chain_id =
     (if chain_id = 1 \<or> chain_id = 56 \<or> chain_id = 42161 then ETHEREUM_GAS_MODEL
      else if chain_id = 137 then POLYGON_GAS_MODEL else DEFAULT_GAS_MODEL)"

definition worst_case_tree_hashes :: "nat \<Rightarrow> u64" where
  "worst_case_tree_hashes leaves =
     (if leaves = 0 then 0
      else snd (foldl (\<lambda>(nodes, hashes) _. let nodes = nodes div 2 + 1 in (nodes, saturating_add hashes nodes))
             (word_of_nat leaves, 0) [0 ..< TREE_DEPTH]))"

definition expected_tree_hashes :: "nat \<Rightarrow> u64" where
  "expected_tree_hashes leaves =
     (if leaves = 0 then 0 else saturating_add (word_of_nat leaves) (word_of_nat TREE_DEPTH - 1))"

definition expected_tree_writes :: "nat \<Rightarrow> u64" where
  "expected_tree_writes leaves =
     (if leaves = 0 then 0 else if leaves = 1 then 8 else if leaves = 2 then 9 else if leaves \<le> 8 then 10
      else if leaves \<le> 32 then 11 else 12)"

definition gas_tree :: "railgun_gas_model \<Rightarrow> gas_estimate_mode \<Rightarrow> nat \<Rightarrow> u64" where
  "gas_tree m mode leaves =
     (if leaves = 0 then 0
      else case mode of
        UpperBound \<Rightarrow> saturating_add (gm_tree_update m) (saturating_mul (gm_tree_hash m) (worst_case_tree_hashes leaves))
      | Expected \<Rightarrow>
          saturating_sub (saturating_add (gm_tree_update m) (saturating_mul (gm_tree_hash m) (expected_tree_hashes leaves)))
            (saturating_mul (gm_tree_write m) (saturating_sub (word_of_nat TREE_DEPTH) (expected_tree_writes leaves))))"

definition gas_transact :: "railgun_gas_model \<Rightarrow> gas_estimate_mode \<Rightarrow> transact_gas_shape \<Rightarrow> u64" where
  "gas_transact m mode shape =
     (if tgs_transactions shape = 0 then 0
      else
        let leaves = inserted_leaves shape;
            g = saturating_add (gm_transact_call m) (saturating_mul (gm_transaction m) (word_of_nat (tgs_transactions shape)));
            g = saturating_add g (saturating_mul (gm_nullifier m) (word_of_nat (tgs_inputs shape)));
            g = saturating_add g (saturating_mul (gm_commitment m) (word_of_nat (tgs_outputs shape)));
            g = saturating_add g (saturating_mul (gm_leaf m) (word_of_nat leaves));
            g = saturating_add g (saturating_mul (gm_unshield m) (word_of_nat (tgs_unshields shape)))
        in saturating_add g (gas_tree m mode leaves))"

definition gas_shield :: "railgun_gas_model \<Rightarrow> gas_estimate_mode \<Rightarrow> nat \<Rightarrow> u64" where
  "gas_shield m mode requests =
     (if requests = 0 then 0
      else saturating_add (saturating_add (gm_shield_call m) (saturating_mul (gm_shield_request m) (word_of_nat requests)))
             (gas_tree m mode requests))"

definition gas_relay :: "railgun_gas_model \<Rightarrow> nat \<Rightarrow> u64" where
  "gas_relay m actions = saturating_add (gm_relay_call m) (saturating_mul (gm_relay_action m) (word_of_nat actions))"

definition gas_executor :: "railgun_gas_model \<Rightarrow> u64" where
  "gas_executor m = gm_executor_call m"

section \<open>Hashes of an insertion\<close>

text \<open>The loop of \<open>worst_case_tree_hashes\<close> on natural numbers.\<close>

fun run_hashes :: "nat \<Rightarrow> nat \<Rightarrow> nat" where
  "run_hashes 0 n = 0"
| "run_hashes (Suc k) n = (n div 2 + 1) + run_hashes k (n div 2 + 1)"

text \<open>
  What an insertion really hashes: the nodes \<open>a\<close> to \<open>b\<close> of a level have the parents \<open>a div 2\<close> to
  \<open>b div 2\<close>, each hashed once, on every level up to the root.
\<close>

fun parent_hashes :: "nat \<Rightarrow> nat \<Rightarrow> nat \<Rightarrow> nat" where
  "parent_hashes 0 a b = 0"
| "parent_hashes (Suc k) a b = card {a div 2 .. b div 2} + parent_hashes k (a div 2) (b div 2)"

definition insertion_hashes :: "nat \<Rightarrow> nat \<Rightarrow> nat" where
  "insertion_hashes start leaves = parent_hashes TREE_DEPTH start (start + leaves - 1)"

lemma run_hashes_mono: "m \<le> n \<Longrightarrow> run_hashes k m \<le> run_hashes k n"
proof (induction k arbitrary: m n)
  case (Suc k)
  have half: "m div 2 + 1 \<le> n div 2 + 1" using Suc.prems by (simp add: div_le_mono)
  then have "run_hashes k (m div 2 + 1) \<le> run_hashes k (n div 2 + 1)" by (rule Suc.IH)
  with half show ?case unfolding run_hashes.simps by (rule add_mono)
qed simp

lemma half_span:
  assumes "a \<le> b"
  shows "b div 2 - a div 2 \<le> (b - a + 1) div (2 :: nat)"
proof -
  obtain d where b: "b = a + d" using assms le_Suc_ex by blast
  have "(a + d) div 2 \<le> a div 2 + (d + 1) div 2" by presburger
  then show ?thesis by (simp add: b)
qed

lemma parent_hashes_run: "a \<le> b \<Longrightarrow> parent_hashes k a b \<le> run_hashes k (b - a + 1)"
proof (induction k arbitrary: a b)
  case (Suc k)
  have le: "a div 2 \<le> b div 2" using Suc.prems by (rule div_le_mono)
  have parents: "b div 2 - a div 2 + 1 \<le> (b - a + 1) div 2 + 1" using half_span [OF Suc.prems] by simp
  have "card {a div 2 .. b div 2} = b div 2 - a div 2 + 1" using le by (simp del: One_nat_def add: Suc_diff_le)
  moreover have "parent_hashes k (a div 2) (b div 2) \<le> run_hashes k ((b - a + 1) div 2 + 1)"
    using Suc.IH [OF le] run_hashes_mono [OF parents, of k] by (rule order_trans)
  ultimately show ?case using parents unfolding parent_hashes.simps run_hashes.simps by linarith
qed simp

lemma run_hashes_low:
  "1 \<le> n \<Longrightarrow> n \<le> 2 ^ k + 1 \<Longrightarrow> n + k \<le> run_hashes k n + 2"
proof (induction k arbitrary: n)
  case (Suc k)
  have "n div 2 + 1 \<le> 2 ^ k + 1" using Suc.prems by simp
  with Suc.IH [of "n div 2 + 1"] show ?case by simp
qed simp

lemma run_hashes_at_least: "1 \<le> n \<Longrightarrow> n \<le> 2 ^ k \<Longrightarrow> n + k \<le> run_hashes k n + 1"
proof (induction k arbitrary: n)
  case (Suc k)
  show ?case
  proof (cases "even n")
    case True
    then show ?thesis using run_hashes_low [of "n div 2 + 1" k] Suc.prems by auto
  next
    case False
    then have "n div 2 + 1 \<le> 2 ^ k" using Suc.prems by (auto elim!: oddE)
    with Suc.IH [of "n div 2 + 1"] False show ?thesis by (auto elim!: oddE)
  qed
qed simp

lemma run_hashes_bound: "run_hashes k n \<le> k * max n 2"
proof (induction k arbitrary: n)
  case (Suc k)
  have "n div 2 + 1 \<le> max n 2" "max (n div 2 + 1) 2 \<le> max n 2" by presburger+
  with Suc.IH [of "n div 2 + 1"] mult_le_mono2 [of "max (n div 2 + 1) 2" "max n 2" k] show ?case by simp
qed simp

text \<open>The loop on words, as long as it cannot saturate.\<close>

lemma hash_loop:
  assumes "unat nodes \<le> 2 ^ 32" "unat hashes + run_hashes k (unat nodes) < 2 ^ 64" "length xs = k"
  shows "unat (snd (foldl (\<lambda>(nodes, hashes) _. let nodes = nodes div 2 + 1 in (nodes, saturating_add hashes nodes))
      (nodes :: u64, hashes :: u64) xs)) = unat hashes + run_hashes k (unat nodes)"
  using assms
proof (induction xs arbitrary: nodes hashes k)
  case (Cons x xs)
  then obtain j where k: "k = Suc j" by (cases k) auto
  have half: "unat (nodes div 2 + 1) = unat nodes div 2 + 1"
    using Cons.prems(1) by (simp add: unat_div unat_word_ariths)
  have sum: "unat (saturating_add hashes (nodes div 2 + 1)) = unat hashes + (unat nodes div 2 + 1)"
    using Cons.prems(2) by (simp add: unat_saturating_add half k)
  from Cons.IH [of "nodes div 2 + 1" "saturating_add hashes (nodes div 2 + 1)" j] Cons.prems show ?case
    by (simp add: half sum k Let_def)
qed simp

lemma worst_case_run:
  assumes "0 < leaves" "leaves \<le> 2 ^ 32"
  shows "unat (worst_case_tree_hashes leaves) = run_hashes TREE_DEPTH leaves"
proof -
  have n: "unat (word_of_nat leaves :: u64) = leaves" using assms(2) by (simp add: unsigned_of_nat take_bit_nat_eq_self)
  have "run_hashes TREE_DEPTH leaves \<le> TREE_DEPTH * max leaves 2" by (rule run_hashes_bound)
  also have "\<dots> < 2 ^ 64" using assms(2) by (simp add: TREE_DEPTH_def)
  finally show ?thesis
    using assms hash_loop [of "word_of_nat leaves" 0 TREE_DEPTH "[0 ..< TREE_DEPTH]"] by (simp add: worst_case_tree_hashes_def n)
qed

text \<open>
  Claim C36. \<open>worst_case_tree_hashes\<close> bounds the Poseidon hashes of inserting any run of up to
  \<open>2 ^ 32\<close> leaves at any position of the tree, where every distinct parent of the inserted nodes is
  hashed once on each of the 16 levels.
\<close>

theorem worst_case_hashes_bound:
  assumes "0 < leaves" "leaves \<le> 2 ^ 32"
  shows "insertion_hashes start leaves \<le> unat (worst_case_tree_hashes leaves)"
proof -
  have "insertion_hashes start leaves \<le> run_hashes TREE_DEPTH (start + leaves - 1 - start + 1)"
    unfolding insertion_hashes_def by (rule parent_hashes_run) (use assms(1) in simp)
  then show ?thesis using assms by (simp add: worst_case_run)
qed

lemma worst_case_hashes_bound_witness: "insertion_hashes 1 2 = 17 \<and> insertion_hashes 1 2 \<le> unat (worst_case_tree_hashes 2)"
proof
  show "insertion_hashes 1 2 = 17"
    unfolding insertion_hashes_def TREE_DEPTH_def by (simp add: eval_nat_numeral)
qed (rule worst_case_hashes_bound; simp)

section \<open>Estimates\<close>

lemma satu_mono: "unat a \<le> unat (c :: u64) \<Longrightarrow> unat b \<le> unat (d :: u64) \<Longrightarrow> saturating_add a b \<le> saturating_add c d"
  by (simp add: word_le_nat_alt unat_saturating_add min_le_iff_disj)

lemma satm_mono: "unat a \<le> unat (c :: u64) \<Longrightarrow> unat b \<le> unat (d :: u64) \<Longrightarrow> saturating_mul a b \<le> saturating_mul c d"
  unfolding word_le_nat_alt unat_saturating_mul by (intro min.mono mult_le_mono order_refl)

lemmas gas_mono = satu_mono satm_mono

lemma expected_hashes_worst:
  assumes "0 < leaves" "leaves \<le> 2 ^ TREE_DEPTH"
  shows "expected_tree_hashes leaves \<le> worst_case_tree_hashes leaves"
proof -
  have "leaves \<le> 2 ^ 32" using assms(2) by (simp add: TREE_DEPTH_def)
  then have w: "unat (worst_case_tree_hashes leaves) = run_hashes TREE_DEPTH leaves" by (rule worst_case_run [OF assms(1)])
  have n: "unat (word_of_nat leaves :: u64) = leaves" using assms(2) by (simp add: unsigned_of_nat take_bit_nat_eq_self TREE_DEPTH_def)
  have "unat (expected_tree_hashes leaves) \<le> leaves + 15"
    using assms(1) by (simp add: expected_tree_hashes_def unat_saturating_add n TREE_DEPTH_def)
  with run_hashes_at_least [of leaves TREE_DEPTH] assms w show ?thesis by (simp add: word_le_nat_alt TREE_DEPTH_def)
qed

lemma gas_tree_expected: "leaves \<le> 2 ^ TREE_DEPTH \<Longrightarrow> gas_tree m Expected leaves \<le> gas_tree m UpperBound leaves"
proof (cases "leaves = 0")
  case False
  assume "leaves \<le> 2 ^ TREE_DEPTH"
  then have h: "expected_tree_hashes leaves \<le> worst_case_tree_hashes leaves" using False by (simp add: expected_hashes_worst)
  have "saturating_add (gm_tree_update m) (saturating_mul (gm_tree_hash m) (expected_tree_hashes leaves)) \<le>
      saturating_add (gm_tree_update m) (saturating_mul (gm_tree_hash m) (worst_case_tree_hashes leaves))"
    using h satm_mono [of "gm_tree_hash m" "gm_tree_hash m"] by (intro satu_mono) (simp_all add: word_le_nat_alt)
  moreover have "saturating_sub a b \<le> a" for a b :: u64 by (simp add: word_le_nat_alt unat_saturating_sub)
  ultimately show ?thesis using False order_trans by (fastforce simp: gas_tree_def)
qed (simp add: gas_tree_def)

text \<open>Saturating sums and products as capped sums and products of natural numbers.\<close>

abbreviation cap :: "nat \<Rightarrow> nat" where
  "cap n \<equiv> min n (2 ^ 64 - 1)"

lemma cap_add: "unat (a :: u64) = cap x \<Longrightarrow> unat b = cap y \<Longrightarrow> unat (saturating_add a b) = cap (x + y)"
  by (simp add: unat_saturating_add min_def)

lemma cap_mul: "n < 2 ^ 64 \<Longrightarrow> unat (saturating_mul (a :: u64) (word_of_nat n)) = cap (unat a * n)"
  by (simp add: unat_saturating_mul unsigned_of_nat take_bit_nat_eq_self)

lemma cap_word: "unat (a :: u64) = cap (unat a)"
proof -
  have "unat a < 2 ^ LENGTH(64)" by (rule unsigned_less)
  then show ?thesis by simp
qed

definition small_shape :: "transact_gas_shape \<Rightarrow> bool" where
  "small_shape shape \<longleftrightarrow> tgs_transactions shape < 2 ^ 64 \<and> tgs_inputs shape < 2 ^ 64 \<and> tgs_outputs shape < 2 ^ 64 \<and> tgs_unshields shape < 2 ^ 64"

lemma gas_transact_cap:
  assumes "tgs_transactions shape \<noteq> 0" "small_shape shape"
  shows "unat (gas_transact m mode shape) =
    cap (unat (gm_transact_call m) + unat (gm_transaction m) * tgs_transactions shape + unat (gm_nullifier m) * tgs_inputs shape
      + unat (gm_commitment m) * tgs_outputs shape + unat (gm_leaf m) * inserted_leaves shape
      + unat (gm_unshield m) * tgs_unshields shape + unat (gas_tree m mode (inserted_leaves shape)))"
  using assms unfolding gas_transact_def Let_def small_shape_def
  by (simp only: if_False) (intro cap_add cap_mul cap_word; simp add: inserted_leaves_def less_imp_diff_less)

lemma gas_shape_sums:
  fixes ts :: "transaction_shape list"
  defines "S f \<equiv> sum_list (map f ts)"
  assumes "length ts < 2 ^ 64" "S ts_input_count < 2 ^ 64" "S ts_output_count < 2 ^ 64"
  shows "gas_shape_from_transactions ts =
    \<lparr>tgs_transactions = length ts, tgs_inputs = S ts_input_count, tgs_outputs = S ts_output_count,
     tgs_unshields = S (\<lambda>t. if ts_has_unshield t then 1 else 0)\<rparr>"
  using assms(2-4) unfolding S_def
proof (induction ts rule: rev_induct)
  case (snoc t ts)
  have "sum_list (map (\<lambda>t. if ts_has_unshield t then 1 else 0) ts) \<le> length ts" by (induction ts) auto
  with snoc show ?case by (simp add: gas_shape_from_transactions_def usize_saturating_add_def)
qed (simp add: gas_shape_from_transactions_def)

definition shape_gas :: "railgun_gas_model \<Rightarrow> transaction_shape \<Rightarrow> nat" where
  "shape_gas m t =
     unat (gm_transaction m) + unat (gm_nullifier m) * ts_input_count t + unat (gm_commitment m) * ts_output_count t
     + unat (gm_leaf m) * (ts_output_count t - (if ts_has_unshield t then 1 else 0))
     + unat (gm_unshield m) * (if ts_has_unshield t then 1 else 0)"

lemma sum_inserted:
  "list_all (\<lambda>t. ts_has_unshield t \<longrightarrow> 0 < ts_output_count t) ts \<Longrightarrow>
     sum_list (map (\<lambda>t. ts_output_count t - (if ts_has_unshield t then 1 else 0)) ts)
       + sum_list (map (\<lambda>t. if ts_has_unshield t then 1 else 0) ts) = sum_list (map ts_output_count ts)"
  by (induction ts) auto

lemma sum_shape_gas:
  "sum_list (map (shape_gas m) ts) =
     unat (gm_transaction m) * length ts + unat (gm_nullifier m) * sum_list (map ts_input_count ts)
     + unat (gm_commitment m) * sum_list (map ts_output_count ts)
     + unat (gm_leaf m) * sum_list (map (\<lambda>t. ts_output_count t - (if ts_has_unshield t then 1 else 0)) ts)
     + unat (gm_unshield m) * sum_list (map (\<lambda>t. if ts_has_unshield t then 1 else 0) ts)"
  by (induction ts) (simp_all add: shape_gas_def algebra_simps)

definition fieldwise_le :: "railgun_gas_model \<Rightarrow> railgun_gas_model \<Rightarrow> bool" where
  "fieldwise_le a b \<longleftrightarrow>
     gm_transact_call a \<le> gm_transact_call b \<and> gm_transaction a \<le> gm_transaction b \<and> gm_nullifier a \<le> gm_nullifier b \<and>
     gm_commitment a \<le> gm_commitment b \<and> gm_leaf a \<le> gm_leaf b \<and> gm_unshield a \<le> gm_unshield b \<and>
     gm_tree_update a \<le> gm_tree_update b \<and> gm_tree_hash a \<le> gm_tree_hash b"

lemma for_chain_default: "fieldwise_le (for_chain c) DEFAULT_GAS_MODEL"
  by (simp add: for_chain_def fieldwise_le_def DEFAULT_GAS_MODEL_def fieldwise_max_def)

lemma gas_tree_model: "fieldwise_le a b \<Longrightarrow> gas_tree a UpperBound leaves \<le> gas_tree b UpperBound leaves"
  by (auto simp: gas_tree_def fieldwise_le_def word_le_nat_alt [symmetric] intro!: satu_mono satm_mono)

lemma shape_gas_model: "fieldwise_le a b \<Longrightarrow> shape_gas a t \<le> shape_gas b t"
  unfolding shape_gas_def by (intro add_mono mult_le_mono order_refl) (simp_all add: fieldwise_le_def word_le_nat_alt)

lemma gas_transact_formula:
  assumes "ts \<noteq> []" "list_all (\<lambda>t. ts_has_unshield t \<longrightarrow> 0 < ts_output_count t) ts"
    and "length ts < 2 ^ 64" "sum_list (map ts_input_count ts) < 2 ^ 64" "sum_list (map ts_output_count ts) < 2 ^ 64"
    and leaves: "leaves = sum_list (map (\<lambda>t. ts_output_count t - (if ts_has_unshield t then 1 else 0)) ts)"
  shows "unat (gas_transact m mode (gas_shape_from_transactions ts)) =
    cap (unat (gm_transact_call m) + sum_list (map (shape_gas m) ts) + unat (gas_tree m mode leaves))"
proof -
  let ?s = "gas_shape_from_transactions ts"
  have s: "tgs_transactions ?s = length ts" "tgs_inputs ?s = sum_list (map ts_input_count ts)"
    "tgs_outputs ?s = sum_list (map ts_output_count ts)" "tgs_unshields ?s = sum_list (map (\<lambda>t. if ts_has_unshield t then 1 else 0) ts)"
    by (simp_all only: gas_shape_sums [OF assms(3-5)] transact_gas_shape.simps)
  have "tgs_unshields ?s \<le> tgs_outputs ?s" "inserted_leaves ?s = leaves"
    using sum_inserted [OF assms(2)] by (simp_all add: inserted_leaves_def s leaves)
  moreover from this have "small_shape ?s" using assms(3-5) by (simp add: small_shape_def s)
  ultimately show ?thesis
    using gas_transact_cap [of ?s m mode] assms(1) by (simp add: s sum_shape_gas leaves add.assoc)
qed

text \<open>
  Claim C37. The gas of a \<open>transact\<close> call is the documented sum, over its transactions, of the
  per-transaction terms, plus one tree insertion of all inserted leaves, capped at the largest \<open>u64\<close>;
  for at most a full tree of leaves the expected estimate of every chain is at most its upper bound,
  which is at most the bound of the default model.
\<close>

theorem transact_gas_estimates:
  assumes "ts \<noteq> []" "list_all (\<lambda>t. ts_has_unshield t \<longrightarrow> 0 < ts_output_count t) ts"
    and "length ts < 2 ^ 64" "sum_list (map ts_input_count ts) < 2 ^ 64" "sum_list (map ts_output_count ts) \<le> 2 ^ 16"
    and "leaves = sum_list (map (\<lambda>t. ts_output_count t - (if ts_has_unshield t then 1 else 0)) ts)"
    and "shape = gas_shape_from_transactions ts" "m = for_chain chain_id"
  shows "unat (gas_transact m mode shape) =
      cap (unat (gm_transact_call m) + sum_list (map (shape_gas m) ts) + unat (gas_tree m mode leaves)) \<and>
    gas_transact m Expected shape \<le> gas_transact m UpperBound shape \<and>
    gas_transact m UpperBound shape \<le> gas_transact DEFAULT_GAS_MODEL UpperBound shape"
proof -
  have out: "sum_list (map ts_output_count ts) < 2 ^ 64" using assms(5) by simp
  note f = gas_transact_formula [OF assms(1-4) out assms(6)]
  have le: "leaves \<le> 2 ^ TREE_DEPTH"
    using sum_inserted [OF assms(2)] assms(5) by (simp add: assms(6) TREE_DEPTH_def)
  have d: "fieldwise_le m DEFAULT_GAS_MODEL" unfolding assms(8) by (rule for_chain_default)
  have "sum_list (map (shape_gas m) ts) \<le> sum_list (map (shape_gas DEFAULT_GAS_MODEL) ts)"
    by (intro sum_list_mono shape_gas_model d)
  moreover have "unat (gas_tree m Expected leaves) \<le> unat (gas_tree m UpperBound leaves)"
    using gas_tree_expected [OF le] by (simp add: word_le_nat_alt)
  moreover have "unat (gas_tree m UpperBound leaves) \<le> unat (gas_tree DEFAULT_GAS_MODEL UpperBound leaves)"
    using gas_tree_model [OF d] by (simp add: word_le_nat_alt)
  moreover have "unat (gm_transact_call m) \<le> unat (gm_transact_call DEFAULT_GAS_MODEL)"
    using d by (simp add: fieldwise_le_def word_le_nat_alt)
  ultimately show ?thesis
    unfolding assms(7) word_le_nat_alt f by (intro conjI refl min.mono add_mono order_refl)
qed

lemma transact_gas_estimates_witness:
  "unat (gas_transact (for_chain 137) Expected (gas_shape_from_transactions [\<lparr>ts_input_count = 2, ts_output_count = 2, ts_has_unshield = True\<rparr>])) = 1585800 \<and>
   gas_transact (for_chain 137) Expected (gas_shape_from_transactions [\<lparr>ts_input_count = 2, ts_output_count = 2, ts_has_unshield = True\<rparr>])
     \<le> gas_transact (for_chain 137) UpperBound (gas_shape_from_transactions [\<lparr>ts_input_count = 2, ts_output_count = 2, ts_has_unshield = True\<rparr>])"
proof -
  have "unat (gas_tree (for_chain 137) Expected 1) = 703100"
    by (simp add: gas_tree_def for_chain_def POLYGON_GAS_MODEL_def expected_tree_hashes_def expected_tree_writes_def TREE_DEPTH_def
      unat_saturating_add unat_saturating_sub unat_saturating_mul)
  with transact_gas_estimates [of "[\<lparr>ts_input_count = 2, ts_output_count = 2, ts_has_unshield = True\<rparr>]", OF _ _ _ _ _ refl refl refl, of 137 Expected]
  show ?thesis by (simp add: shape_gas_def) (simp add: for_chain_def POLYGON_GAS_MODEL_def)
qed

end
