(* ===== verification/Spec2Isabelle.thy ===== *)
theory Spec2Isabelle
  imports Utxo WalletSpec Gas
begin

text \<open>
  A verification development of the Railgun wallet libraries under \<^verbatim>\<open>src/crates\<close>: the Merkle forest
  of commitments, the notes and their encryption, the choice of the notes to spend, the building of
  transaction plans, the scan of the chain into a wallet and the gas model. Paths below are relative
  to \<^verbatim>\<open>src/crates\<close>.

  \<^bold>\<open>How the parts interact.\<close> The scan turns contract logs and indexer rows into notes of the wallet and
  nullifiers (\<^verbatim>\<open>railgun-wallet/src/scan.rs\<close>), a delta applies them to the list of wallet notes and a
  rewind undoes a reorganisation (\<^verbatim>\<open>sync-service/src/wallet/delta.rs\<close>). The unspent notes are what a
  selection chooses from (\<^verbatim>\<open>tx/builder/selection.rs\<close>); allocations split the selected chunks into
  amount, change and fee, and the builder makes of each chunk a transaction with Merkle proofs from the
  forest, encrypted output notes, commitments and nullifiers, a signature and a proof
  (\<^verbatim>\<open>tx/builder.rs\<close>, \<^verbatim>\<open>tx/types.rs\<close>). The inputs of a submitted transaction are locked until the chain
  confirms them or the lock expires (\<^verbatim>\<open>sync-service/src/wallet/worker.rs\<close>).

  \<^bold>\<open>Theories and sources.\<close>
  \<^item> \<open>Prelude\<close>: widths of integers, results, checked and saturating arithmetic, stable sorting by a
    comparator (locale \<open>total_cmp\<close>), big-endian bytes. \<open>OrdMap\<close>: \<open>BTreeMap\<close> as a sorted association
    list (locale \<open>ordered_map\<close>).
  \<^item> \<open>Poseidon\<close>: \<^verbatim>\<open>core/src/crypto/poseidon.rs\<close>, \<^verbatim>\<open>core/src/tree.rs\<close>. \<open>MerkleTree\<close>, \<open>Forest\<close> and
    \<open>DenseTree\<close>: \<^verbatim>\<open>merkletree/src/tree/mod.rs\<close>; the record \<open>merkle_tree\<close> is \<open>MerkleTree\<close>,
    \<open>merkle_forest\<close> is \<open>MerkleForest\<close>, \<open>dense_merkle_tree\<close> is \<open>DenseMerkleTree\<close>. Both trees are
    instances of the locale \<open>proof_source\<close>.
  \<^item> \<open>NoteCrypto\<close>: \<^verbatim>\<open>core/src/notes.rs\<close>, \<^verbatim>\<open>core/src/crypto\<close> and \<^verbatim>\<open>railgun-wallet/src/notes.rs\<close>. \<open>Utxo\<close>:
    \<^verbatim>\<open>core/src/utxo.rs\<close> with the proof-of-innocence statuses of a note. \<open>Contracts\<close>: the ABI structs of
    \<^verbatim>\<open>core/src/contracts/railgun.rs\<close>.
  \<^item> \<open>SelectionSearch\<close>, \<open>PartialSearch\<close> and \<open>Selection\<close>: \<^verbatim>\<open>railgun-wallet/src/tx/builder/selection.rs\<close>,
    the two branch-and-bound searches and the functions over them. \<open>SelectionSpec\<close>,
    \<open>SelectionOptimal\<close> and \<open>SelectionBatch\<close> hold their contracts; the selectors are instances of the
    locale \<open>chunk_selector\<close>.
  \<^item> \<open>TxTypes\<close>: \<^verbatim>\<open>railgun-wallet/src/tx/types.rs\<close> and \<^verbatim>\<open>tx/error.rs\<close>. \<open>SpendPlan\<close>, \<open>PlanBuild\<close> and
    \<open>PlanComposite\<close>: \<^verbatim>\<open>railgun-wallet/src/tx/builder.rs\<close>, in the order allocation and preview,
    single-action plans, composite and mixed plans. \<open>SpendSpec\<close>, \<open>CompositeSpec\<close>, \<open>PlanSpec\<close>,
    \<open>PlanBatch\<close>, \<open>PlanLive\<close> and \<open>MixedSpec\<close> hold the theorems about them.
  \<^item> \<open>WalletScan\<close>: \<^verbatim>\<open>railgun-wallet/src/scan.rs\<close> with the events of \<^verbatim>\<open>core/src/contracts/railgun.rs\<close> and the
    indexer rows of \<^verbatim>\<open>merkletree/src/quick/types.rs\<close>. \<open>WalletDelta\<close>: \<^verbatim>\<open>sync-service/src/wallet/delta.rs\<close>.
    \<open>WalletPending\<close>: the locks of \<^verbatim>\<open>sync-service/src/wallet/worker.rs\<close>. \<open>WalletSpec\<close>: the theorems that
    relate them with each other and with plan building.
  \<^item> \<open>Gas\<close>: \<^verbatim>\<open>railgun-wallet/src/tx/gas.rs\<close>.

  \<^bold>\<open>What the theorems show.\<close>
  \<^item> Merkle proofs verify against the computed root, bind the leaf up to collisions of the hash, do not
    change when later leaves arrive, and are the same from the sparse tree, the dense tree and the cache
    of plan building; batches of updates have exactly the effect of the accepted prefix.
  \<^item> A note decrypts for its receiver and for its sender; a note a send encrypts and an event publishes
    is found by the scan of the recipient.
  \<^item> Selections are sound (limits, no note twice, the amount covered). For one transaction they are
    complete and have the fewest inputs wherever a change output has room, for trees of any size; exact
    matches without that room and the least total are found in trees of at most 13 notes of the token,
    those the visit limit \<open>MAX_SELECTION_SEARCH_VISITS\<close> lets the search exhaust (\<open>small_trees\<close>,
    \<open>change_room\<close>). Allocations conserve value.
  \<^item> Every unshield, send and mixed plan that is returned spends known notes once with verifying proofs,
    balances, and pays amount, change and fee to the right parties; plans are built whenever nothing
    outside the builder fails; a preview covers every leg, and a mixed plan is what it announced.
  \<^item> The wallets that deltas, rewinds and status refreshes reach (\<open>wallet_reachable\<close>) have the type
    plan building needs; deltas are idempotent, the pending overlay announces them, and a
    reorganisation leaves no trace; submitted inputs stay locked for the lifetime of a lock.
  \<^item> The worst-case hash count of the gas model bounds every insertion, and its estimates are the
    documented sums and ordered as documented.

  \<^bold>\<open>Parameters.\<close> Code outside the repository is an argument of the definitions: the Poseidon permutation,
  AES-GCM, the curve, the ABI encoder and decoder, the random source, the spending signer and the
  prover. The record \<open>env\<close> of \<open>TxTypes\<close> bundles them for plan building. What a theorem needs of them
  is a hypothesis (\<open>aead_ok\<close>, \<open>curve_ok\<close>, \<open>random_ok\<close>), met by concrete functions in the
  witnesses. Random bytes are drawn from a numbered stream, so the order of draws is part of the model.

  \<^bold>\<open>Bounds and recursion.\<close> Integers keep their width; plain operators wrap, as in the release profile,
  and the panics of \<open>to()\<close> and \<open>Uint::from\<close> are values of their own (\<open>ScanPanicked\<close> and the panics of
  plan building). Lengths and indices are \<open>nat\<close>. All functions are total with a termination proof.
  The only counter is that of the batch loop in \<open>Selection\<close>, whose bound \<open>max_transactions\<close> is the
  code's own. The searches recurse on the indices left. Hash maps whose order the code never uses are
  partial functions or lists in order of insertion.

  \<^bold>\<open>Not modelled.\<close> Network, database and file access, the asynchronous actors with their permits and
  notifications, serialisation, logging and timing; the proof-of-innocence client, its circuit inputs
  and its caches; the swap planner and the remaining contract call encodings; the circuit prover; the
  transaction-id cache; the broadcaster messages and the Waku client. They are I/O or call libraries,
  or are components apart from those above.
\<close>

end
